(* ===== verification/Prelude.thy ===== *)
theory Prelude
  imports Main "HOL-Library.Word"
begin

text \<open>
  Shared vocabulary of the development.

  \<^item> Machine integers. Rust's \<open>u16\<close>, \<open>u32\<close> and \<open>u64\<close> are words, so that wrapping
    operations are word operations. Rust's \<open>i16\<close>, \<open>i32\<close> and \<open>i64\<close> are \<open>int\<close>; the
    operations of the source that clamp or check are written out here against the bounds of
    the width (\<open>i64_saturating_add\<close> and so on).
  \<^item> Ordered maps. \<open>std::collections::BTreeMap\<close> is an association list with strictly
    increasing keys. The operations the code calls are defined here; the locale
    \<open>ordered_map\<close> states the laws the clients rely on, and the interpretation \<open>bt\<close>
    discharges them for the list operations.
  \<^item> Quorums: two majorities of one set, or of two sets that differ in one element, meet.
\<close>

section \<open>Machine integers\<close>

type_synonym u8 = "8 word"
type_synonym u16 = "16 word"
type_synonym u32 = "32 word"
type_synonym u64 = "64 word"

named_theorems int_width "bounds and clamping operations of the fixed-width signed integers"

definition i64_MAX :: int where
  [int_width]: "i64_MAX = 9223372036854775807"

definition i64_MIN :: int where
  [int_width]: "i64_MIN = - 9223372036854775808"

definition i32_MAX :: int where
  [int_width]: "i32_MAX = 2147483647"

definition i32_MIN :: int where
  [int_width]: "i32_MIN = - 2147483648"

definition i64_ok :: "int \<Rightarrow> bool" where
  [int_width]: "i64_ok x \<longleftrightarrow> i64_MIN \<le> x \<and> x \<le> i64_MAX"

definition i32_ok :: "int \<Rightarrow> bool" where
  [int_width]: "i32_ok x \<longleftrightarrow> i32_MIN \<le> x \<and> x \<le> i32_MAX"

definition sat_i64 :: "int \<Rightarrow> int" where
  [int_width]: "sat_i64 x = max i64_MIN (min i64_MAX x)"

definition i64_saturating_add :: "int \<Rightarrow> int \<Rightarrow> int" where
  [int_width]: "i64_saturating_add a b = sat_i64 (a + b)"

definition i64_saturating_sub :: "int \<Rightarrow> int \<Rightarrow> int" where
  [int_width]: "i64_saturating_sub a b = sat_i64 (a - b)"

definition i64_checked_sub :: "int \<Rightarrow> int \<Rightarrow> int option" where
  [int_width]: "i64_checked_sub a b = (if i64_ok (a - b) then Some (a - b) else None)"

definition i32_checked_sub :: "int \<Rightarrow> int \<Rightarrow> int option" where
  [int_width]: "i32_checked_sub a b = (if i32_ok (a - b) then Some (a - b) else None)"

definition usize_try_from :: "int \<Rightarrow> nat option" where
  "usize_try_from n = (if 0 \<le> n then Some (nat n) else None)"

definition i64_checked_add :: "int \<Rightarrow> int \<Rightarrow> int option" where
  [int_width]: "i64_checked_add a b = (if i64_ok (a + b) then Some (a + b) else None)"

text \<open>\<open>i32::try_from\<close> on a 64-bit value.\<close>

definition i32_try_from :: "int \<Rightarrow> int option" where
  [int_width]: "i32_try_from n = (if i32_ok n then Some n else None)"

text \<open>\<open>u32::saturating_add\<close> and \<open>u64::saturating_add\<close>.\<close>

definition u_saturating_add :: "'a::len word \<Rightarrow> 'a word \<Rightarrow> 'a word" where
  "u_saturating_add a b = (if a + b < a then - 1 else a + b)"

lemma i64_ok_sat [simp]: "i64_ok (sat_i64 x)"
  by (simp add: int_width)

lemma sat_i64_id [simp]: "i64_ok x \<Longrightarrow> sat_i64 x = x"
  by (simp add: int_width)

lemma sat_i64_mono: "x \<le> y \<Longrightarrow> sat_i64 x \<le> sat_i64 y"
  by (simp add: int_width)

lemma u_saturating_add_ge: "a \<le> u_saturating_add a b"
  by (simp add: u_saturating_add_def not_less)

lemma u_saturating_add_one:
  fixes a :: "'a::len word"
  assumes "a \<noteq> - 1"
  shows "u_saturating_add a 1 = a + 1" and "a < u_saturating_add a 1"
proof -
  have "a < a + 1"
    using assms inc_less_eq_self_iff_eq [of a] by (auto simp: not_le [symmetric])
  then show "u_saturating_add a 1 = a + 1" and "a < u_saturating_add a 1"
    by (auto simp: u_saturating_add_def)
qed

section \<open>Lists\<close>

lemma length_filter_imp:
  "(\<And>x. x \<in> set xs \<Longrightarrow> P x \<Longrightarrow> Q x) \<Longrightarrow> length (filter P xs) \<le> length (filter Q xs)"
  by (induction xs) (auto simp: le_SucI)

text \<open>In a descending list the elements at or above a bound are a prefix.\<close>

lemma count_ge_desc:
  "sorted_wrt (\<ge>) zs \<Longrightarrow> 1 \<le> m \<Longrightarrow> m \<le> length zs \<Longrightarrow>
   (m \<le> length (filter (\<lambda>x. v \<le> x) zs)) = (v \<le> zs ! (m - 1))"
  for v :: "'a::linorder"
proof (induction zs arbitrary: m)
  case Nil
  then show ?case by simp
next
  case (Cons z zs)
  show ?case
  proof (cases "v \<le> z")
    case True
    show ?thesis
    proof (cases "m = 1")
      case False
      with Cons.prems obtain n where n: "m = Suc n" "1 \<le> n" "n \<le> length zs"
        by (cases m) auto
      with Cons.IH [of n] Cons.prems True show ?thesis
        by (cases n) auto
    qed (use True in simp)
  next
    case False
    with Cons.prems have none: "filter (\<lambda>x. v \<le> x) zs = []"
      by (auto simp: filter_empty_conv)
    have "(z # zs) ! (m - 1) \<le> z"
      using Cons.prems by (cases "m - 1") auto
    with False none Cons.prems show ?thesis by auto
  qed
qed

section \<open>Ordered maps\<close>

type_synonym ('k, 'v) btree_map = "('k \<times> 'v) list"

definition bt_get :: "('k, 'v) btree_map \<Rightarrow> 'k \<Rightarrow> 'v option" where
  "bt_get m k = map_of m k"

fun bt_insert :: "('k::linorder, 'v) btree_map \<Rightarrow> 'k \<Rightarrow> 'v \<Rightarrow> ('k, 'v) btree_map" where
  "bt_insert [] k v = [(k, v)]"
| "bt_insert ((k', v') # m) k v =
     (if k < k' then (k, v) # (k', v') # m
      else if k = k' then (k, v) # m
      else (k', v') # bt_insert m k v)"

definition bt_remove :: "('k, 'v) btree_map \<Rightarrow> 'k \<Rightarrow> ('k, 'v) btree_map" where
  "bt_remove m k = filter (\<lambda>(k', _). k' \<noteq> k) m"

definition bt_keys :: "('k, 'v) btree_map \<Rightarrow> 'k list" where
  "bt_keys m = map fst m"

definition bt_wf :: "('k::linorder, 'v) btree_map \<Rightarrow> bool" where
  "bt_wf m \<longleftrightarrow> sorted_wrt (<) (map fst m)"

text \<open>\<open>BTreeMap::entry(k).or_insert(v)\<close>, \<open>BTreeMap::retain\<close> and collecting an iterator of pairs.\<close>

definition bt_or_insert :: "('k::linorder, 'v) btree_map \<Rightarrow> 'k \<Rightarrow> 'v \<Rightarrow> ('k, 'v) btree_map" where
  "bt_or_insert m k v = (case bt_get m k of Some _ \<Rightarrow> m | None \<Rightarrow> bt_insert m k v)"

definition bt_retain :: "('k \<Rightarrow> 'v \<Rightarrow> bool) \<Rightarrow> ('k, 'v) btree_map \<Rightarrow> ('k, 'v) btree_map" where
  "bt_retain p m = filter (\<lambda>(k, v). p k v) m"

definition bt_collect :: "('k::linorder \<times> 'v) list \<Rightarrow> ('k, 'v) btree_map" where
  "bt_collect kvs = fold (\<lambda>(k, v) m. bt_insert m k v) kvs []"

lemma bt_get_Nil [simp]: "bt_get [] k = None"
  by (simp add: bt_get_def)

lemma bt_get_insert [simp]:
  "bt_wf m \<Longrightarrow> bt_get (bt_insert m k v) k' = (if k' = k then Some v else bt_get m k')"
  by (induction m k v rule: bt_insert.induct) (auto simp: bt_get_def bt_wf_def)

lemma set_bt_insert_keys: "set (map fst (bt_insert m k v)) = insert k (set (map fst m))"
  by (induction m k v rule: bt_insert.induct) auto

lemma bt_insert_setD: "x \<in> set (bt_insert m k v) \<Longrightarrow> x = (k, v) \<or> x \<in> set m"
  by (induction m k v rule: bt_insert.induct) (auto split: if_splits)

lemma bt_wf_insert [simp]: "bt_wf m \<Longrightarrow> bt_wf (bt_insert m k v)"
proof (induction m k v rule: bt_insert.induct)
  case (1 k v)
  then show ?case by (simp add: bt_wf_def)
next
  case (2 k' v' m k v)
  then have wf: "bt_wf m" by (simp add: bt_wf_def)
  have "fst x = k \<or> fst x \<in> set (map fst m)" if "x \<in> set (bt_insert m k v)" for x
    using that set_bt_insert_keys [of m k v] by (metis image_eqI insertE list.set_map)
  with 2 wf show ?case
    by (force simp: bt_wf_def)
qed

lemma bt_get_remove [simp]: "bt_get (bt_remove m k) k' = (if k' = k then None else bt_get m k')"
  by (induction m) (auto simp: bt_get_def bt_remove_def)

lemma sorted_wrt_filter_fst:
  "sorted_wrt (<) (map fst m) \<Longrightarrow> sorted_wrt (<) (map fst (filter p m))"
  by (induction m) auto

lemma bt_wf_remove [simp]: "bt_wf m \<Longrightarrow> bt_wf (bt_remove m k)"
  by (simp add: bt_wf_def bt_remove_def sorted_wrt_filter_fst)

lemma bt_wf_retain [simp]: "bt_wf m \<Longrightarrow> bt_wf (bt_retain p m)"
  by (simp add: bt_wf_def bt_retain_def sorted_wrt_filter_fst)

lemma bt_keys_sorted: "bt_wf m \<Longrightarrow> sorted_wrt (<) (bt_keys m)"
  by (simp add: bt_wf_def bt_keys_def)

lemma bt_keys_dom: "set (bt_keys m) = dom (bt_get m)"
  by (simp add: bt_keys_def set_eq_iff domIff bt_get_def map_of_eq_None_iff)

lemma bt_wf_empty [simp]: "bt_wf []"
  by (simp add: bt_wf_def)

lemma bt_get_retain: "bt_wf m \<Longrightarrow>
  bt_get (bt_retain p m) k = (case bt_get m k of None \<Rightarrow> None | Some v \<Rightarrow> if p k v then Some v else None)"
proof (induction m)
  case Nil
  then show ?case by (simp add: bt_retain_def)
next
  case (Cons kv m)
  obtain k' v' where kv: "kv = (k', v')" by (cases kv)
  from Cons.prems kv have wf: "bt_wf m" and fresh: "k' \<notin> set (bt_keys m)"
    by (auto simp: bt_wf_def bt_keys_def)
  from fresh have "bt_get m k' = None"
    by (auto simp: bt_keys_dom domIff)
  with Cons.IH [OF wf] kv show ?case
    by (auto simp: bt_get_def bt_retain_def)
qed

lemma bt_wf_or_insert [simp]: "bt_wf m \<Longrightarrow> bt_wf (bt_or_insert m k v)"
  by (simp add: bt_or_insert_def split: option.splits)

lemma bt_get_or_insert [simp]: "bt_wf m \<Longrightarrow>
  bt_get (bt_or_insert m k v) k' = (if k' = k \<and> bt_get m k = None then Some v else bt_get m k')"
  by (auto simp: bt_or_insert_def split: option.splits)

text \<open>
  What the clients of an ordered map rely on: lookup after each update, and that the key
  list enumerates the domain once and in order. The size facts follow from these laws alone.
\<close>

locale ordered_map =
  fixes get :: "'m \<Rightarrow> 'k::linorder \<Rightarrow> 'v option"
    and ins :: "'m \<Rightarrow> 'k \<Rightarrow> 'v \<Rightarrow> 'm"
    and rem :: "'m \<Rightarrow> 'k \<Rightarrow> 'm"
    and keys :: "'m \<Rightarrow> 'k list"
    and wf :: "'m \<Rightarrow> bool"
  assumes get_ins: "wf m \<Longrightarrow> get (ins m k v) k' = (if k' = k then Some v else get m k')"
    and get_rem: "wf m \<Longrightarrow> get (rem m k) k' = (if k' = k then None else get m k')"
    and wf_ins: "wf m \<Longrightarrow> wf (ins m k v)"
    and wf_rem: "wf m \<Longrightarrow> wf (rem m k)"
    and keys_dom: "wf m \<Longrightarrow> set (keys m) = dom (get m)"
    and keys_sorted: "wf m \<Longrightarrow> sorted_wrt (<) (keys m)"
begin

lemma keys_distinct: "wf m \<Longrightarrow> distinct (keys m)"
  using keys_sorted strict_sorted_iff by blast

lemma size_card: "wf m \<Longrightarrow> length (keys m) = card (dom (get m))"
  using keys_dom keys_distinct by (metis distinct_card)

lemma finite_dom: "wf m \<Longrightarrow> finite (dom (get m))"
  using keys_dom by (metis List.finite_set)

lemma dom_ins: "wf m \<Longrightarrow> dom (get (ins m k v)) = insert k (dom (get m))"
  by (auto simp: get_ins dom_def)

lemma dom_rem: "wf m \<Longrightarrow> dom (get (rem m k)) = dom (get m) - {k}"
  by (auto simp: get_rem dom_def)

lemma size_ins: "wf m \<Longrightarrow>
  length (keys (ins m k v)) = (if get m k = None then Suc (length (keys m)) else length (keys m))"
  by (simp add: size_card wf_ins dom_ins card_insert_if finite_dom domIff)

lemma size_rem: "wf m \<Longrightarrow>
  length (keys (rem m k)) = (if get m k = None then length (keys m) else length (keys m) - 1)"
  by (simp add: size_card wf_rem dom_rem card_Diff_singleton_if finite_dom domIff)

lemma keys_ext:
  assumes "wf m" and "wf m'" and "dom (get m) = dom (get m')"
  shows "keys m = keys m'"
  using assms keys_sorted keys_dom
  by (metis sorted_list_of_set.idem_if_sorted_distinct strict_sorted_iff)

end

interpretation bt: ordered_map bt_get bt_insert bt_remove bt_keys bt_wf
  by unfold_locales (simp_all add: bt_keys_dom bt_keys_sorted)

lemma bt_wf_collect_aux: "bt_wf m \<Longrightarrow> bt_wf (fold (\<lambda>(k, v) m. bt_insert m k v) kvs m)"
  by (induction kvs arbitrary: m) auto

lemma bt_wf_collect [simp]: "bt_wf (bt_collect kvs)"
  by (simp add: bt_collect_def bt_wf_collect_aux)

lemma bt_get_collect_aux: "bt_wf m \<Longrightarrow>
  bt_get (fold (\<lambda>(k, v) m. bt_insert m k v) kvs m) k =
    (case map_of (rev kvs) k of Some v \<Rightarrow> Some v | None \<Rightarrow> bt_get m k)"
  by (induction kvs arbitrary: m) (auto simp: map_add_def split: option.splits)

lemma bt_get_collect: "bt_get (bt_collect kvs) k = map_of (rev kvs) k"
  using bt_get_collect_aux [of "[]" kvs k]
  by (simp add: bt_collect_def split: option.splits)

section \<open>Majorities\<close>

text \<open>Two subsets whose sizes add up to more than the whole share an element.\<close>

lemma card_overlap:
  assumes "finite V" and "A \<subseteq> V" and "B \<subseteq> V" and "card V < card A + card B"
  shows "A \<inter> B \<noteq> {}"
proof
  assume "A \<inter> B = {}"
  then have "card A + card B = card (A \<union> B)"
    using assms(1-3) by (metis card_Un_disjoint finite_subset)
  also have "\<dots> \<le> card V"
    using assms(1-3) by (simp add: card_mono)
  finally show False using assms(4) by simp
qed

lemma majorities_meet:
  assumes "finite V" and "A \<subseteq> V" and "B \<subseteq> V"
    and "card V div 2 + 1 \<le> card A" and "card V div 2 + 1 \<le> card B"
  shows "A \<inter> B \<noteq> {}"
  using assms by (intro card_overlap [of V]) auto

lemma majorities_meet_adjacent:
  assumes "finite V" and "x \<notin> V" and "A \<subseteq> V" and "B \<subseteq> insert x V"
    and "card V div 2 + 1 \<le> card A" and "card (insert x V) div 2 + 1 \<le> card B"
  shows "A \<inter> B \<noteq> {}"
proof (rule card_overlap [of "insert x V"])
  show "card (insert x V) < card A + card B"
    using assms by auto
qed (use assms in auto)

end
