(* ===== verification/Wire_Primitives.thy ===== *)
theory Wire_Primitives
  imports Prelude
begin

text \<open>
  The primitive types of the Kafka wire protocol: \<open>crates/protocol/src/primitives\<close> and
  \<open>tagged_fields.rs\<close>. A buffer is a byte list. A writer returns the bytes it appends; where the code
  panics on an oversized length the writer is an option. A reader returns either a protocol error
  or the value with the bytes that are left. Signed integers are \<open>int\<close>s that are encoded through
  the two's-complement word of their width; a \<open>str\<close> is its UTF-8 byte list. Error values carry the
  source's data except for the static messages, which are kept as strings, and the position inside an \<open>InvalidUtf8\<close>.
\<close>

unbundle bit_operations_syntax

type_synonym byte = "8 word"
type_synonym bytes = "byte list"

datatype protocol_error =
    UnexpectedEof nat
  | InvalidValue string
  | InvalidUtf8
  | VarintTooLong nat
  | UnsupportedVersion int int
  | SchemaMismatch string

type_synonym 'a reader = "bytes \<Rightarrow> protocol_error + 'a \<times> bytes"

text \<open>The \<open>?\<close> operator on a reader's result.\<close>

definition rbind :: "'e + 'a \<times> bytes \<Rightarrow> ('a \<Rightarrow> bytes \<Rightarrow> 'e + 'b) \<Rightarrow> 'e + 'b" where
  "rbind r f = (case r of Inl e \<Rightarrow> Inl e | Inr (a, bs) \<Rightarrow> f a bs)"

lemma rbind_simps [simp]: "rbind (Inl e) f = Inl e" "rbind (Inr (a, bs)) f = f a bs"
  by (simp_all add: rbind_def)

section \<open>Fixed-width integers\<close>

fun be_bytes :: "nat \<Rightarrow> 'a::len word \<Rightarrow> bytes" where
  "be_bytes 0 w = []"
| "be_bytes (Suc n) w = be_bytes n (drop_bit 8 w) @ [ucast w]"

definition be_word :: "bytes \<Rightarrow> 'a::len word" where
  "be_word bs = foldl (\<lambda>acc b. push_bit 8 acc OR ucast b) 0 bs"

lemma length_be_bytes [simp]: "length (be_bytes n w) = n"
  by (induction n arbitrary: w) simp_all

lemma be_bytes_numeral: "be_bytes (numeral k) w = be_bytes (pred_numeral k) (drop_bit 8 w) @ [ucast w]"
  by (simp add: numeral_eq_Suc)

lemma be_word_be_bytes: "be_word (be_bytes n w) = take_bit (8 * n) w"
proof (induction n arbitrary: w)
  case (Suc n)
  have "be_word (be_bytes (Suc n) w) = push_bit 8 (take_bit (8 * n) (drop_bit 8 w)) OR ucast (ucast w :: byte)"
    using Suc.IH [of "drop_bit 8 w"] by (simp add: be_word_def)
  also have "\<dots> = take_bit (8 * Suc n) w"
    by (rule bit_word_eqI)
       (auto simp: bit_or_iff bit_push_bit_iff bit_take_bit_iff bit_drop_bit_eq bit_ucast_iff)
  finally show ?case .
qed (simp add: be_word_def)

lemma be_word_be_bytes_full: "LENGTH('a) = 8 * n \<Longrightarrow> be_word (be_bytes n (w :: 'a::len word)) = w"
  by (simp add: be_word_be_bytes take_bit_word_eq_self)

lemma sint_of_int_ok: "- (2 ^ (LENGTH('a) - 1)) \<le> v \<Longrightarrow> v < 2 ^ (LENGTH('a) - 1) \<Longrightarrow>
    sint (word_of_int v :: 'a::len word) = v"
  by (simp only: sint_sbintrunc' signed_take_bit_int_eq_self)

text \<open>\<open>need\<close> and the split it guards.\<close>

definition need :: "nat \<Rightarrow> bytes \<Rightarrow> protocol_error + unit" where
  "need n buf = (if length buf < n then Inl (UnexpectedEof (n - length buf)) else Inr ())"

definition take_exact :: "nat \<Rightarrow> bytes reader" where
  "take_exact n buf = (case need n buf of Inl e \<Rightarrow> Inl e | Inr _ \<Rightarrow> Inr (take n buf, drop n buf))"

lemma take_exact_append [simp]: "length xs = n \<Longrightarrow> take_exact n (xs @ rest) = Inr (xs, rest)"
  by (simp add: take_exact_def need_def)

definition i8_ok :: "int \<Rightarrow> bool" where
  "i8_ok v \<longleftrightarrow> - 128 \<le> v \<and> v \<le> 127"

definition i16_ok :: "int \<Rightarrow> bool" where
  "i16_ok v \<longleftrightarrow> - 32768 \<le> v \<and> v \<le> 32767"

definition put_i8 :: "int \<Rightarrow> bytes" where
  "put_i8 v = be_bytes 1 (word_of_int v :: 8 word)"

definition get_i8 :: "int reader" where
  "get_i8 buf = rbind (take_exact 1 buf) (\<lambda>b rest. Inr (sint (be_word b :: 8 word), rest))"

definition put_i16 :: "int \<Rightarrow> bytes" where
  "put_i16 v = be_bytes 2 (word_of_int v :: 16 word)"

definition get_i16 :: "int reader" where
  "get_i16 buf = rbind (take_exact 2 buf) (\<lambda>b rest. Inr (sint (be_word b :: 16 word), rest))"

definition put_u16 :: "u16 \<Rightarrow> bytes" where
  "put_u16 v = be_bytes 2 v"

definition get_u16 :: "u16 reader" where
  "get_u16 buf = rbind (take_exact 2 buf) (\<lambda>b rest. Inr (be_word b, rest))"

definition put_i32 :: "int \<Rightarrow> bytes" where
  "put_i32 v = be_bytes 4 (word_of_int v :: 32 word)"

definition get_i32 :: "int reader" where
  "get_i32 buf = rbind (take_exact 4 buf) (\<lambda>b rest. Inr (sint (be_word b :: 32 word), rest))"

definition put_i64 :: "int \<Rightarrow> bytes" where
  "put_i64 v = be_bytes 8 (word_of_int v :: 64 word)"

definition get_i64 :: "int reader" where
  "get_i64 buf = rbind (take_exact 8 buf) (\<lambda>b rest. Inr (sint (be_word b :: 64 word), rest))"

definition put_u32 :: "u32 \<Rightarrow> bytes" where
  "put_u32 v = be_bytes 4 v"

definition get_u32 :: "u32 reader" where
  "get_u32 buf = rbind (take_exact 4 buf) (\<lambda>b rest. Inr (be_word b, rest))"

definition put_bool :: "bool \<Rightarrow> bytes" where
  "put_bool v = [if v then 1 else 0]"

definition get_bool :: "bool reader" where
  "get_bool buf = rbind (take_exact 1 buf) (\<lambda>b rest.
     if b = [0] then Inr (False, rest)
     else if b = [1] then Inr (True, rest)
     else Inl (InvalidValue ''boolean must be 0 or 1''))"

lemma length_put [simp]:
  "length (put_i8 v) = 1" "length (put_i16 v) = 2" "length (put_i32 v) = 4" "length (put_i64 v) = 8"
  "length (put_u16 a) = 2" "length (put_u32 b) = 4"
  by (simp_all only: put_i8_def put_i16_def put_i32_def put_i64_def put_u16_def put_u32_def length_be_bytes)

lemma get_put_i8 [simp]: "i8_ok v \<Longrightarrow> get_i8 (put_i8 v @ rest) = Inr (v, rest)"
  unfolding get_i8_def put_i8_def i8_ok_def
  by (simp del: be_bytes.simps add: be_word_be_bytes_full sint_of_int_ok)

lemma get_put_i16 [simp]: "i16_ok v \<Longrightarrow> get_i16 (put_i16 v @ rest) = Inr (v, rest)"
  unfolding get_i16_def put_i16_def i16_ok_def by (simp add: be_word_be_bytes_full sint_of_int_ok)

lemma get_put_i32 [simp]: "i32_ok v \<Longrightarrow> get_i32 (put_i32 v @ rest) = Inr (v, rest)"
  unfolding get_i32_def put_i32_def i32_ok_def by (simp add: be_word_be_bytes_full sint_of_int_ok int_width)

lemma get_put_i64 [simp]: "i64_ok v \<Longrightarrow> get_i64 (put_i64 v @ rest) = Inr (v, rest)"
  unfolding get_i64_def put_i64_def i64_ok_def by (simp add: be_word_be_bytes_full sint_of_int_ok int_width)

lemma get_put_u16 [simp]: "get_u16 (put_u16 v @ rest) = Inr (v, rest)"
  unfolding get_u16_def put_u16_def by (simp add: be_word_be_bytes_full)

lemma get_put_u32 [simp]: "get_u32 (put_u32 v @ rest) = Inr (v, rest)"
  unfolding get_u32_def put_u32_def by (simp add: be_word_be_bytes_full)

lemma get_put_bool [simp]: "get_bool (put_bool v @ rest) = Inr (v, rest)"
  by (simp add: get_bool_def put_bool_def take_exact_def need_def)

section \<open>Variable-length integers\<close>

text \<open>
  The loops of \<open>put_uvarint\<close>/\<open>put_uvarlong\<close> and \<open>get_uvarint\<close>/\<open>get_uvarlong\<close>, which the source has
  once per width: seven bits per byte, low group first, the top bit marks continuation.
\<close>

function put_uv :: "'a::len word \<Rightarrow> bytes" where
  "put_uv v = (if v AND NOT 127 \<noteq> 0 then ((ucast (v AND 127) :: byte) OR 128) # put_uv (drop_bit 7 v) else [ucast v])"
  by pat_completeness auto
termination
proof (relation "measure unat", goal_cases)
  case (2 v)
  then have "v \<noteq> 0" by auto
  then have "0 < unat v" by (simp add: unat_gt_0)
  then show ?case by (simp add: unat_drop_bit_eq drop_bit_nat_def)
qed simp

declare put_uv.simps [simp del]

fun get_uv :: "nat \<Rightarrow> nat \<Rightarrow> nat \<Rightarrow> 'a::len word \<Rightarrow> 'a word reader" where
  "get_uv max_bytes 0 shift acc buf = Inl (VarintTooLong max_bytes)"
| "get_uv max_bytes (Suc k) shift acc [] = Inl (UnexpectedEof 1)"
| "get_uv max_bytes (Suc k) shift acc (b # bs) =
     (let result = acc OR push_bit shift (ucast (b AND 127))
      in if b AND 128 = 0 then Inr (result, bs) else get_uv max_bytes k (shift + 7) result bs)"

definition zigzag :: "'a::len word \<Rightarrow> 'a word" where
  "zigzag w = push_bit 1 w XOR signed_drop_bit (LENGTH('a) - 1) w"

definition unzigzag :: "'a::len word \<Rightarrow> 'a word" where
  "unzigzag z = drop_bit 1 z XOR - (z AND 1)"

lemma bit_minus_parity: "bit (- (z AND 1) :: 'a::len word) n \<longleftrightarrow> bit z 0 \<and> n < LENGTH('a)"
proof (cases "bit z 0")
  case True
  then have "z AND 1 = 1" by (simp add: and_one_eq bit_0 odd_iff_mod_2_eq_one)
  then show ?thesis using True by (simp add: bit_minus_1_iff)
next
  case False
  then have "z AND 1 = 0" by (simp add: and_one_eq bit_0 even_iff_mod_2_eq_zero)
  then show ?thesis using False by simp
qed

lemma bit_zigzag:
  "k < LENGTH('a) \<Longrightarrow> bit (zigzag (w :: 'a::len word)) k \<longleftrightarrow> (k \<noteq> 0 \<and> bit w (k - 1)) \<noteq> bit w (LENGTH('a) - 1)"
proof -
  assume k: "k < LENGTH('a)"
  have "bit (push_bit 1 w) k \<longleftrightarrow> k \<noteq> 0 \<and> bit w (k - 1)"
    unfolding bit_push_bit_iff using k by auto
  moreover have "bit (signed_drop_bit (LENGTH('a) - 1) w) k \<longleftrightarrow> bit w (LENGTH('a) - 1)"
    using k by (cases k) (auto simp: bit_signed_drop_bit_iff)
  ultimately show ?thesis by (simp only: zigzag_def bit_xor_iff)
qed

lemma unzigzag_zigzag: "unzigzag (zigzag w) = w"
proof (rule bit_word_eqI)
  fix n assume n: "n < LENGTH('a)"
  have drop: "bit (drop_bit 1 (zigzag w)) n \<longleftrightarrow> Suc n < LENGTH('a) \<and> bit (zigzag w) (Suc n)"
    using bit_imp_le_length [of "zigzag w" "Suc n"] by (auto simp: bit_drop_bit_eq)
  have zero: "bit (zigzag w) 0 \<longleftrightarrow> bit w (LENGTH('a) - 1)" by (subst bit_zigzag) simp_all
  show "bit (unzigzag (zigzag w)) n = bit w n"
  proof (cases "Suc n < LENGTH('a)")
    case True
    then show ?thesis
      unfolding unzigzag_def bit_xor_iff drop bit_minus_parity zero by (subst bit_zigzag) (use n in auto)
  next
    case False
    then have "LENGTH('a) - 1 = n" using n by simp
    then show ?thesis
      unfolding unzigzag_def bit_xor_iff drop bit_minus_parity zero using False n by simp
  qed
qed

definition put_uvarint :: "u32 \<Rightarrow> bytes" where
  "put_uvarint v = put_uv v"

definition get_uvarint :: "u32 reader" where
  "get_uvarint buf = get_uv 5 5 0 0 buf"

definition put_varint :: "int \<Rightarrow> bytes" where
  "put_varint v = put_uvarint (zigzag (word_of_int v))"

definition get_varint :: "int reader" where
  "get_varint buf = rbind (get_uvarint buf) (\<lambda>zz rest. Inr (sint (unzigzag zz), rest))"

definition put_uvarlong :: "u64 \<Rightarrow> bytes" where
  "put_uvarlong v = put_uv v"

definition get_uvarlong :: "u64 reader" where
  "get_uvarlong buf = get_uv 10 10 0 0 buf"

definition put_varlong :: "int \<Rightarrow> bytes" where
  "put_varlong v = put_uvarlong (zigzag (word_of_int v))"

definition get_varlong :: "int reader" where
  "get_varlong buf = rbind (get_uvarlong buf) (\<lambda>zz rest. Inr (sint (unzigzag zz), rest))"

text \<open>\<open>BITS - leading_zeros\<close>: the position of the highest set bit, counted from one.\<close>

fun bit_length :: "nat \<Rightarrow> nat" where
  "bit_length n = (if n = 0 then 0 else Suc (bit_length (n div 2)))"

declare bit_length.simps [simp del]

definition uvarint_len :: "u32 \<Rightarrow> nat" where
  "uvarint_len v = (if v = 0 then 1 else (bit_length (unat v) + 6) div 7)"

definition varint_len :: "int \<Rightarrow> nat" where
  "varint_len v = uvarint_len (zigzag (word_of_int v))"

definition uvarlong_len :: "u64 \<Rightarrow> nat" where
  "uvarlong_len v = (if v = 0 then 1 else (bit_length (unat v) + 6) div 7)"

definition varlong_len :: "int \<Rightarrow> nat" where
  "varlong_len v = uvarlong_len (zigzag (word_of_int v))"

lemma word_127: "(127 :: 'a::len word) = mask 7"
  by (simp add: mask_eq_exp_minus_1)

lemma and_127: "v AND 127 = take_bit 7 v" for v :: "'a::len word"
  by (simp only: word_127 take_bit_eq_mask)

lemma bit_high: "bit (v AND NOT 127) n \<longleftrightarrow> bit v n \<and> 7 \<le> n" for v :: "'a::len word"
  unfolding word_127 bit_and_iff bit_not_iff bit_mask_iff
  using bit_imp_le_length [of v n] by (auto simp only: possible_bit_word not_less)

lemma high_bits_zero: "v AND NOT 127 = 0 \<longleftrightarrow> drop_bit 7 v = 0" for v :: "'a::len word"
proof
  assume *: "v AND NOT 127 = 0"
  show "drop_bit 7 v = 0"
  proof (rule bit_word_eqI)
    fix n assume "n < LENGTH('a)"
    have "bit (drop_bit 7 v) n = bit (v AND NOT 127) (7 + n)" by (simp only: bit_high bit_drop_bit_eq) simp
    then show "bit (drop_bit 7 v) n = bit 0 n" by (simp only: *) simp
  qed
next
  assume *: "drop_bit 7 v = 0"
  show "v AND NOT 127 = 0"
  proof (rule bit_word_eqI)
    fix n assume "n < LENGTH('a)"
    have "\<not> (bit v n \<and> 7 \<le> n)"
    proof
      assume "bit v n \<and> 7 \<le> n"
      then have "bit (drop_bit 7 v) (n - 7)" by (simp add: bit_drop_bit_eq)
      then show False using * by simp
    qed
    then show "bit (v AND NOT 127) n = bit 0 n" by (simp only: bit_high) simp
  qed
qed

lemma bit_128: "bit (128 :: byte) n \<longleftrightarrow> n = 7"
proof -
  have "(128 :: byte) = 2 ^ 7" by simp
  then show ?thesis by (simp only: bit_exp_iff) auto
qed

lemma flag_bit: "(b :: byte) AND 128 = 0 \<longleftrightarrow> \<not> bit b 7"
proof -
  have "push_bit 7 (1 :: byte) = 128" by simp
  then show ?thesis using bit_iff_and_push_bit_not_eq_0 [of b 7] by simp
qed

lemma low_of_byte: "(ucast ((ucast v :: byte) AND 127) :: 'a::len word) = take_bit 7 v"
  unfolding and_127 by (rule bit_word_eqI) (auto simp: bit_take_bit_iff bit_ucast_iff)

lemma low_of_flagged: "(ucast (((ucast (v AND 127) :: byte) OR 128) AND 127) :: 'a::len word) = take_bit 7 v"
  unfolding and_127
  by (rule bit_word_eqI) (auto simp: bit_take_bit_iff bit_ucast_iff bit_or_iff bit_128)

lemma join_groups:
  "push_bit shift (take_bit 7 v) OR push_bit (shift + 7) (drop_bit 7 v) = push_bit shift v" for v :: "'a::len word"
proof (rule bit_word_eqI)
  fix n assume "n < LENGTH('a)"
  show "bit (push_bit shift (take_bit 7 v) OR push_bit (shift + 7) (drop_bit 7 v)) n = bit (push_bit shift v) n"
  proof (cases "shift + 7 \<le> n")
    case True
    then have "7 + (n - (shift + 7)) = n - shift" by simp
    then show ?thesis
      using True by (auto simp: bit_or_iff bit_push_bit_iff bit_take_bit_iff bit_drop_bit_eq)
  qed (auto simp: bit_or_iff bit_push_bit_iff bit_take_bit_iff bit_drop_bit_eq)
qed

lemma get_put_uv:
  "0 < k \<Longrightarrow> unat v < 2 ^ (7 * k) \<Longrightarrow>
   get_uv mx k shift acc (put_uv v @ rest) = Inr (acc OR push_bit shift v, rest)"
proof (induction v arbitrary: k shift acc rule: put_uv.induct)
  case (1 v)
  obtain j where k: "k = Suc j" using "1.prems"(1) by (cases k) auto
  show ?case
  proof (cases "v AND NOT 127 = 0")
    case True
    then have hi: "drop_bit 7 v = 0" by (simp only: high_bits_zero)
    then have "take_bit 7 v = v" using bits_ident [of 7 v] by simp
    moreover have "\<not> bit (ucast v :: byte) 7"
    proof
      assume "bit (ucast v :: byte) 7"
      then have "bit (drop_bit 7 v) 0" by (simp add: bit_ucast_iff bit_drop_bit_eq)
      then show False using hi by simp
    qed
    moreover have "put_uv v = [ucast v]" using True by (subst put_uv.simps) simp
    ultimately show ?thesis
      by (simp add: k flag_bit low_of_byte Let_def)
  next
    case False
    have put: "put_uv v = ((ucast (v AND 127) :: byte) OR 128) # put_uv (drop_bit 7 v)"
      using False by (subst put_uv.simps) (simp only: if_True not_False_eq_True)
    have ne: "drop_bit 7 v \<noteq> 0" using False by (simp only: high_bits_zero not_False_eq_True)
    have "unat v < 128 * 2 ^ (7 * j)" using "1.prems"(2) k by (simp add: power_add)
    then have lt: "unat (drop_bit 7 v) < 2 ^ (7 * j)"
      by (simp add: unat_drop_bit_eq drop_bit_nat_def less_mult_imp_div_less mult.commute)
    have "0 < j" using lt ne by (cases j) (auto simp: unat_eq_0)
    have flag: "((ucast (v AND 127) :: byte) OR 128) AND 128 \<noteq> 0"
      by (simp only: flag_bit bit_or_iff bit_128) simp
    have "get_uv mx k shift acc (put_uv v @ rest) =
        get_uv mx j (shift + 7) (acc OR push_bit shift (take_bit 7 v)) (put_uv (drop_bit 7 v) @ rest)"
      using flag by (simp only: k put append_Cons get_uv.simps Let_def low_of_flagged if_False)
    also have "\<dots> = Inr ((acc OR push_bit shift (take_bit 7 v)) OR push_bit (shift + 7) (drop_bit 7 v), rest)"
      by (rule "1.IH") (use False \<open>0 < j\<close> lt in simp_all)
    finally show ?thesis by (simp only: or.assoc join_groups)
  qed
qed

lemma get_put_uvarint [simp]: "get_uvarint (put_uvarint v @ rest) = Inr (v, rest)"
proof -
  have "unat v < 2 ^ (7 * 5)" using unsigned_less [where 'a = nat, of v] by simp
  then show ?thesis by (simp add: get_uvarint_def put_uvarint_def get_put_uv)
qed

lemma get_put_uvarlong [simp]: "get_uvarlong (put_uvarlong v @ rest) = Inr (v, rest)"
proof -
  have "unat v < 2 ^ (7 * 10)" using unsigned_less [where 'a = nat, of v] by simp
  then show ?thesis by (simp add: get_uvarlong_def put_uvarlong_def get_put_uv)
qed

lemma get_put_varint [simp]: "i32_ok v \<Longrightarrow> get_varint (put_varint v @ rest) = Inr (v, rest)"
  by (simp add: get_varint_def put_varint_def unzigzag_zigzag sint_of_int_ok int_width)

lemma get_put_varlong [simp]: "i64_ok v \<Longrightarrow> get_varlong (put_varlong v @ rest) = Inr (v, rest)"
  by (simp add: get_varlong_def put_varlong_def unzigzag_zigzag sint_of_int_ok int_width)

lemma bit_length_shift: "0 < n div 2 ^ k \<Longrightarrow> bit_length n = k + bit_length (n div 2 ^ k)"
proof (induction k arbitrary: n)
  case (Suc k)
  have "n div 2 ^ Suc k = (n div 2) div 2 ^ k" by (simp add: div_mult2_eq)
  moreover have "0 < n" using Suc.prems by (cases n) auto
  ultimately show ?case
    using Suc.IH [of "n div 2"] Suc.prems bit_length.simps [of n] by simp
qed simp

lemma bit_length_small: "0 < n \<Longrightarrow> n < 2 ^ k \<Longrightarrow> 0 < bit_length n \<and> bit_length n \<le> k"
proof (induction k arbitrary: n)
  case (Suc k)
  show ?case
  proof (cases "n div 2 = 0")
    case True
    then show ?thesis using Suc.prems bit_length.simps [of n] bit_length.simps [of 0] by simp
  next
    case False
    then have "bit_length (n div 2) \<le> k" using Suc.IH [of "n div 2"] Suc.prems by simp
    then show ?thesis using Suc.prems bit_length.simps [of n] by simp
  qed
qed simp

lemma bit_length_le: "n < 2 ^ k \<Longrightarrow> bit_length n \<le> k"
  using bit_length_small [of n k] bit_length.simps [of 0] by (cases "n = 0") auto

lemma length_put_uv:
  "length (put_uv v) = (if v = 0 then 1 else (bit_length (unat v) + 6) div 7)"
proof (induction v rule: put_uv.induct)
  case (1 v)
  show ?case
  proof (cases "v AND NOT 127 = 0")
    case True
    then have hi: "drop_bit 7 v = 0" by (simp only: high_bits_zero)
    then have "unat v div 128 = 0"
      using unat_drop_bit_eq [of 7 v] by (simp add: drop_bit_nat_def)
    then have "unat v < 2 ^ 7" by (simp add: div_eq_0_iff)
    then have "v \<noteq> 0 \<Longrightarrow> (bit_length (unat v) + 6) div 7 = 1"
      using bit_length_small [of "unat v" 7] by (intro div_nat_eqI) (auto simp: unat_gt_0)
    moreover have "put_uv v = [ucast v]" using True by (subst put_uv.simps) simp
    ultimately show ?thesis by simp
  next
    case False
    have put: "put_uv v = ((ucast (v AND 127) :: byte) OR 128) # put_uv (drop_bit 7 v)"
      using False by (subst put_uv.simps) (simp only: if_True not_False_eq_True)
    have ne: "drop_bit 7 v \<noteq> 0" using False by (simp only: high_bits_zero not_False_eq_True)
    have eq: "unat (drop_bit 7 v) = unat v div 2 ^ 7" by (simp add: unat_drop_bit_eq drop_bit_nat_def)
    then have "0 < unat v div 2 ^ 7" using ne by (metis unat_gt_0)
    then have "bit_length (unat v) = 7 + bit_length (unat (drop_bit 7 v))"
      using bit_length_shift [of "unat v" 7] eq by simp
    moreover have "length (put_uv (drop_bit 7 v)) = (bit_length (unat (drop_bit 7 v)) + 6) div 7"
      using "1.IH" [OF False] ne by (simp only: if_False)
    moreover have "v \<noteq> 0" using ne by (metis drop_bit_of_0)
    ultimately show ?thesis by (simp add: put)
  qed
qed

lemma length_put_varint: "length (put_varint v) = varint_len v" "length (put_uvarint u) = uvarint_len u"
  by (simp_all add: put_varint_def put_uvarint_def varint_len_def uvarint_len_def length_put_uv)

lemma length_put_varlong: "length (put_varlong v) = varlong_len v" "length (put_uvarlong w) = uvarlong_len w"
  by (simp_all add: put_varlong_def put_uvarlong_def varlong_len_def uvarlong_len_def length_put_uv)

lemma varint_len_range: "1 \<le> varint_len v \<and> varint_len v \<le> 5"
proof -
  let ?z = "zigzag (word_of_int v :: 32 word)"
  have "bit_length (unat ?z) \<le> 32"
    by (rule bit_length_le) (use unsigned_less [where 'a = nat, of ?z] in simp)
  moreover have "0 < bit_length (unat ?z)" if "?z \<noteq> 0"
    using that by (subst bit_length.simps) (simp add: unat_eq_0)
  ultimately show ?thesis unfolding varint_len_def uvarint_len_def by auto
qed

lemma varlong_len_range: "1 \<le> varlong_len v \<and> varlong_len v \<le> 10"
proof -
  let ?z = "zigzag (word_of_int v :: 64 word)"
  have "bit_length (unat ?z) \<le> 64"
    by (rule bit_length_le) (use unsigned_less [where 'a = nat, of ?z] in simp)
  moreover have "0 < bit_length (unat ?z)" if "?z \<noteq> 0"
    using that by (subst bit_length.simps) (simp add: unat_eq_0)
  ultimately show ?thesis unfolding varlong_len_def uvarlong_len_def by auto
qed

text \<open>
  C30. Variable-length integers: every \<open>i32\<close> and every \<open>i64\<close> is read back exactly, whatever follows
  it in the buffer, and the length predicted from its leading zeros is the length written, which is
  at most five (ten) bytes.
\<close>

theorem varint_roundtrip:
  assumes "i32_ok v" and "i64_ok w"
  shows "get_varint (put_varint v @ rest) = Inr (v, rest) \<and> get_varlong (put_varlong w @ rest) = Inr (w, rest)
    \<and> length (put_varint v) = varint_len v \<and> length (put_varlong w) = varlong_len w
    \<and> varint_len v \<le> 5 \<and> varlong_len w \<le> 10"
  using assms varint_len_range varlong_len_range by (simp add: length_put_varint length_put_varlong)

theorem varint_roundtrip_witness:
  "get_varint (put_varint (- 65) @ [9]) = Inr (- 65, [9]) \<and> varlong_len (- 9223372036854775808) \<le> 10"
  using varint_roundtrip [of "- 65" "- 9223372036854775808" "[9]"] by (simp add: int_width)

end
