(* ===== verification/Wire_Compound.thy ===== *)
theory Wire_Compound
  imports Wire_Primitives
begin

text \<open>
  Strings, byte strings, arrays, UUIDs and the KIP-482 tagged-fields trailer of the Kafka protocol:
  \<open>string_bytes.rs\<close>, \<open>string_bytes_borrowed.rs\<close>, \<open>array.rs\<close>, \<open>uuid.rs\<close> and \<open>tagged_fields.rs\<close> of
  \<open>crates/protocol/src\<close>. The predicate \<open>utf8_valid\<close> is what \<open>str::from_utf8\<close> of the standard library
  accepts. The borrowed decoders of the source return slices of the input; as values they are byte
  lists again, and the lemmas show that they agree with the owned decoders.
\<close>

section \<open>UTF-8\<close>

definition in_range :: "nat \<Rightarrow> nat \<Rightarrow> byte \<Rightarrow> bool" where
  "in_range lo hi b \<longleftrightarrow> lo \<le> unat b \<and> unat b \<le> hi"

abbreviation cont :: "byte \<Rightarrow> bool" where
  "cont \<equiv> in_range 0x80 0xBF"

text \<open>The length of the well-formed character at the head of a byte list, or 0.\<close>

definition utf8_head :: "bytes \<Rightarrow> nat" where
  "utf8_head bs = (case bs of
     [] \<Rightarrow> 0
   | b # r \<Rightarrow>
       if in_range 0 0x7F b then 1
       else if in_range 0xC2 0xDF b then (case r of c1 # _ \<Rightarrow> if cont c1 then 2 else 0 | _ \<Rightarrow> 0)
       else if in_range 0xE0 0xEF b then
         (case r of c1 # c2 # _ \<Rightarrow>
            if in_range (if b = 0xE0 then 0xA0 else 0x80) (if b = 0xED then 0x9F else 0xBF) c1 \<and> cont c2
            then 3 else 0
          | _ \<Rightarrow> 0)
       else if in_range 0xF0 0xF4 b then
         (case r of c1 # c2 # c3 # _ \<Rightarrow>
            if in_range (if b = 0xF0 then 0x90 else 0x80) (if b = 0xF4 then 0x8F else 0xBF) c1 \<and> cont c2 \<and> cont c3
            then 4 else 0
          | _ \<Rightarrow> 0)
       else 0)"

function utf8_valid :: "bytes \<Rightarrow> bool" where
  "utf8_valid bs =
     (if bs = [] then True else if utf8_head bs = 0 then False else utf8_valid (drop (utf8_head bs) bs))"
  by pat_completeness auto
termination by (relation "measure length") auto

declare utf8_valid.simps [simp del]

lemma utf8_valid_Nil [simp]: "utf8_valid []"
  by (simp add: utf8_valid.simps)

lemma utf8_valid_ascii: "\<forall>b \<in> set bs. unat b < 128 \<Longrightarrow> utf8_valid bs"
proof (induction bs)
  case (Cons b bs)
  then have "utf8_head (b # bs) = 1" by (simp add: utf8_head_def in_range_def)
  with Cons show ?case by (subst utf8_valid.simps) simp
qed simp

text \<open>\<open>String::from_utf8\<close> and \<open>str::from_utf8\<close>.\<close>

definition from_utf8 :: "bytes \<Rightarrow> protocol_error + bytes" where
  "from_utf8 bs = (if utf8_valid bs then Inr bs else Inl InvalidUtf8)"

text \<open>\<open>i16::try_from\<close>, \<open>i32::try_from\<close> and \<open>u32::try_from\<close> on a length, with \<open>expect\<close>.\<close>

definition len_i16 :: "nat \<Rightarrow> int option" where
  "len_i16 n = (if n \<le> 32767 then Some (int n) else None)"

definition len_i32 :: "nat \<Rightarrow> int option" where
  "len_i32 n = (if n \<le> 2147483647 then Some (int n) else None)"

definition len_u32 :: "nat \<Rightarrow> u32 option" where
  "len_u32 n = (if n \<le> 4294967295 then Some (of_nat n) else None)"

section \<open>STRING and BYTES\<close>

definition put_string :: "bytes \<Rightarrow> bytes option" where
  "put_string s = map_option (\<lambda>len. put_i16 len @ s) (len_i16 (length s))"

definition put_nullable_string :: "bytes option \<Rightarrow> bytes option" where
  "put_nullable_string s = (case s of None \<Rightarrow> Some (put_i16 (- 1)) | Some s \<Rightarrow> put_string s)"

definition get_nullable_string_owned :: "bytes option reader" where
  "get_nullable_string_owned buf =
     rbind (get_i16 buf) (\<lambda>len buf.
       if len < 0 then Inr (None, buf)
       else rbind (take_exact (nat len) buf) (\<lambda>v buf.
         case from_utf8 v of Inl e \<Rightarrow> Inl e | Inr s \<Rightarrow> Inr (Some s, buf)))"

definition get_string_owned :: "bytes reader" where
  "get_string_owned buf =
     rbind (get_nullable_string_owned buf) (\<lambda>v buf.
       case v of Some s \<Rightarrow> Inr (s, buf) | None \<Rightarrow> Inl (InvalidValue ''non-nullable STRING was null''))"

definition string_len :: "bytes \<Rightarrow> nat" where
  "string_len s = 2 + length s"

definition nullable_string_len :: "bytes option \<Rightarrow> nat" where
  "nullable_string_len s = 2 + (case s of None \<Rightarrow> 0 | Some s \<Rightarrow> length s)"

definition put_compact_string :: "bytes \<Rightarrow> bytes option" where
  "put_compact_string s = map_option (\<lambda>len. put_uvarint len @ s) (len_u32 (length s + 1))"

definition put_compact_nullable_string :: "bytes option \<Rightarrow> bytes option" where
  "put_compact_nullable_string s = (case s of None \<Rightarrow> Some (put_uvarint 0) | Some s \<Rightarrow> put_compact_string s)"

definition get_compact_nullable_string_owned :: "bytes option reader" where
  "get_compact_nullable_string_owned buf =
     rbind (get_uvarint buf) (\<lambda>raw buf.
       if raw = 0 then Inr (None, buf)
       else rbind (take_exact (unat (raw - 1)) buf) (\<lambda>v buf.
         case from_utf8 v of Inl e \<Rightarrow> Inl e | Inr s \<Rightarrow> Inr (Some s, buf)))"

definition get_compact_string_owned :: "bytes reader" where
  "get_compact_string_owned buf =
     rbind (get_compact_nullable_string_owned buf) (\<lambda>v buf.
       case v of Some s \<Rightarrow> Inr (s, buf) | None \<Rightarrow> Inl (InvalidValue ''non-nullable COMPACT_STRING was null''))"

definition compact_string_len :: "bytes \<Rightarrow> nat option" where
  "compact_string_len s = map_option (\<lambda>len. uvarint_len len + length s) (len_u32 (length s + 1))"

definition compact_nullable_string_len :: "bytes option \<Rightarrow> nat option" where
  "compact_nullable_string_len s = (case s of None \<Rightarrow> Some (uvarint_len 0) | Some s \<Rightarrow> compact_string_len s)"

definition put_bytes :: "bytes \<Rightarrow> bytes option" where
  "put_bytes b = map_option (\<lambda>len. put_i32 len @ b) (len_i32 (length b))"

definition put_nullable_bytes :: "bytes option \<Rightarrow> bytes option" where
  "put_nullable_bytes b = (case b of None \<Rightarrow> Some (put_i32 (- 1)) | Some b \<Rightarrow> put_bytes b)"

definition get_nullable_bytes_owned :: "bytes option reader" where
  "get_nullable_bytes_owned buf =
     rbind (get_i32 buf) (\<lambda>len buf.
       if len < 0 then Inr (None, buf)
       else rbind (take_exact (nat len) buf) (\<lambda>v buf. Inr (Some v, buf)))"

definition get_bytes_owned :: "bytes reader" where
  "get_bytes_owned buf =
     rbind (get_nullable_bytes_owned buf) (\<lambda>v buf.
       case v of Some b \<Rightarrow> Inr (b, buf) | None \<Rightarrow> Inl (InvalidValue ''non-nullable BYTES was null''))"

definition bytes_len :: "bytes \<Rightarrow> nat" where
  "bytes_len b = 4 + length b"

definition nullable_bytes_len :: "bytes option \<Rightarrow> nat" where
  "nullable_bytes_len b = 4 + (case b of None \<Rightarrow> 0 | Some b \<Rightarrow> length b)"

definition put_compact_bytes :: "bytes \<Rightarrow> bytes option" where
  "put_compact_bytes b = map_option (\<lambda>len. put_uvarint len @ b) (len_u32 (length b + 1))"

definition put_compact_nullable_bytes :: "bytes option \<Rightarrow> bytes option" where
  "put_compact_nullable_bytes b = (case b of None \<Rightarrow> Some (put_uvarint 0) | Some b \<Rightarrow> put_compact_bytes b)"

definition compact_bytes_len_from_size :: "nat \<Rightarrow> nat option" where
  "compact_bytes_len_from_size n = map_option (\<lambda>len. uvarint_len len + n) (len_u32 (n + 1))"

definition compact_bytes_len :: "bytes \<Rightarrow> nat option" where
  "compact_bytes_len b = map_option (\<lambda>len. uvarint_len len + length b) (len_u32 (length b + 1))"

definition compact_nullable_bytes_len :: "bytes option \<Rightarrow> nat option" where
  "compact_nullable_bytes_len b = (case b of None \<Rightarrow> Some (uvarint_len 0) | Some b \<Rightarrow> compact_bytes_len b)"

definition get_compact_nullable_bytes_owned :: "bytes option reader" where
  "get_compact_nullable_bytes_owned buf =
     rbind (get_uvarint buf) (\<lambda>raw buf.
       if raw = 0 then Inr (None, buf)
       else rbind (take_exact (unat (raw - 1)) buf) (\<lambda>v buf. Inr (Some v, buf)))"

definition get_compact_bytes_owned :: "bytes reader" where
  "get_compact_bytes_owned buf =
     rbind (get_compact_nullable_bytes_owned buf) (\<lambda>v buf.
       case v of Some b \<Rightarrow> Inr (b, buf) | None \<Rightarrow> Inl (InvalidValue ''non-nullable COMPACT_BYTES was null''))"

section \<open>Borrowed decoders\<close>

definition get_string_borrowed :: "bytes reader" where
  "get_string_borrowed buf =
     rbind (get_i16 buf) (\<lambda>len buf.
       if len < 0 then Inl (InvalidValue ''non-nullable STRING was null'')
       else if length buf < nat len then Inl (UnexpectedEof (nat len - length buf))
       else (case from_utf8 (take (nat len) buf) of Inl e \<Rightarrow> Inl e | Inr s \<Rightarrow> Inr (s, drop (nat len) buf)))"

definition get_nullable_string_borrowed :: "bytes option reader" where
  "get_nullable_string_borrowed buf =
     rbind (get_i16 buf) (\<lambda>len buf.
       if len < 0 then Inr (None, buf)
       else if length buf < nat len then Inl (UnexpectedEof (nat len - length buf))
       else (case from_utf8 (take (nat len) buf) of Inl e \<Rightarrow> Inl e | Inr s \<Rightarrow> Inr (Some s, drop (nat len) buf)))"

definition get_compact_string_borrowed :: "bytes reader" where
  "get_compact_string_borrowed buf =
     rbind (get_uvarint buf) (\<lambda>raw buf.
       if raw = 0 then Inl (InvalidValue ''non-nullable COMPACT_STRING was null'')
       else (let n = unat (raw - 1) in
         if length buf < n then Inl (UnexpectedEof (n - length buf))
         else (case from_utf8 (take n buf) of Inl e \<Rightarrow> Inl e | Inr s \<Rightarrow> Inr (s, drop n buf))))"

definition get_compact_nullable_string_borrowed :: "bytes option reader" where
  "get_compact_nullable_string_borrowed buf =
     rbind (get_uvarint buf) (\<lambda>raw buf.
       if raw = 0 then Inr (None, buf)
       else (let n = unat (raw - 1) in
         if length buf < n then Inl (UnexpectedEof (n - length buf))
         else (case from_utf8 (take n buf) of Inl e \<Rightarrow> Inl e | Inr s \<Rightarrow> Inr (Some s, drop n buf))))"

definition get_bytes_borrowed :: "bytes reader" where
  "get_bytes_borrowed buf =
     rbind (get_i32 buf) (\<lambda>len buf.
       if len < 0 then Inl (InvalidValue ''non-nullable BYTES was null'')
       else if length buf < nat len then Inl (UnexpectedEof (nat len - length buf))
       else Inr (take (nat len) buf, drop (nat len) buf))"

definition get_nullable_bytes_borrowed :: "bytes option reader" where
  "get_nullable_bytes_borrowed buf =
     rbind (get_i32 buf) (\<lambda>len buf.
       if len < 0 then Inr (None, buf)
       else if length buf < nat len then Inl (UnexpectedEof (nat len - length buf))
       else Inr (Some (take (nat len) buf), drop (nat len) buf))"

definition get_compact_bytes_borrowed :: "bytes reader" where
  "get_compact_bytes_borrowed buf =
     rbind (get_uvarint buf) (\<lambda>raw buf.
       if raw = 0 then Inl (InvalidValue ''non-nullable COMPACT_BYTES was null'')
       else (let n = unat (raw - 1) in
         if length buf < n then Inl (UnexpectedEof (n - length buf))
         else Inr (take n buf, drop n buf)))"

definition get_compact_nullable_bytes_borrowed :: "bytes option reader" where
  "get_compact_nullable_bytes_borrowed buf =
     rbind (get_uvarint buf) (\<lambda>raw buf.
       if raw = 0 then Inr (None, buf)
       else (let n = unat (raw - 1) in
         if length buf < n then Inl (UnexpectedEof (n - length buf))
         else Inr (Some (take n buf), drop n buf)))"

section \<open>Arrays and UUIDs\<close>

definition put_array_len :: "nat \<Rightarrow> bool \<Rightarrow> bytes option" where
  "put_array_len n flexible =
     (if flexible then map_option put_uvarint (len_u32 (n + 1)) else map_option put_i32 (len_i32 n))"

definition put_nullable_array_len :: "nat option \<Rightarrow> bool \<Rightarrow> bytes option" where
  "put_nullable_array_len len flexible =
     (case (flexible, len) of
        (False, None) \<Rightarrow> Some (put_i32 (- 1))
      | (False, Some n) \<Rightarrow> map_option put_i32 (len_i32 n)
      | (True, None) \<Rightarrow> Some (put_uvarint 0)
      | (True, Some n) \<Rightarrow> map_option put_uvarint (len_u32 (n + 1)))"

definition array_len_prefix_len :: "nat \<Rightarrow> bool \<Rightarrow> nat option" where
  "array_len_prefix_len n flexible = (if flexible then map_option uvarint_len (len_u32 (n + 1)) else Some 4)"

definition nullable_array_len_prefix_len :: "nat option \<Rightarrow> bool \<Rightarrow> nat option" where
  "nullable_array_len_prefix_len len flexible =
     (case (flexible, len) of
        (False, _) \<Rightarrow> Some 4
      | (True, None) \<Rightarrow> Some (uvarint_len 0)
      | (True, Some n) \<Rightarrow> map_option uvarint_len (len_u32 (n + 1)))"

definition check_remaining :: "nat \<Rightarrow> 'a \<Rightarrow> bytes \<Rightarrow> protocol_error + 'a \<times> bytes" where
  "check_remaining n v buf =
     (if n > length buf then Inl (InvalidValue ''array length exceeds remaining buffer'') else Inr (v, buf))"

definition get_array_len :: "bool \<Rightarrow> nat reader" where
  "get_array_len flexible buf =
     (if flexible then
        rbind (get_uvarint buf) (\<lambda>raw buf.
          if raw = 0 then Inl (InvalidValue ''non-nullable array was null (compact encoding)'')
          else (let n = unat (raw - 1) in check_remaining n n buf))
      else
        rbind (get_i32 buf) (\<lambda>n buf.
          if n < 0 then Inl (InvalidValue ''non-nullable array had negative length'')
          else check_remaining (nat n) (nat n) buf))"

definition get_nullable_array_len :: "bool \<Rightarrow> nat option reader" where
  "get_nullable_array_len flexible buf =
     (if flexible then
        rbind (get_uvarint buf) (\<lambda>raw buf.
          if raw = 0 then Inr (None, buf)
          else (let n = unat (raw - 1) in check_remaining n (Some n) buf))
      else
        rbind (get_i32 buf) (\<lambda>n buf.
          if n < 0 then Inr (None, buf)
          else check_remaining (nat n) (Some (nat n)) buf))"

definition put_uuid :: "bytes \<Rightarrow> bytes" where
  "put_uuid u = u"

definition get_uuid :: "bytes reader" where
  "get_uuid buf = (if length buf < 16 then Inl (UnexpectedEof (16 - length buf)) else Inr (take 16 buf, drop 16 buf))"

section \<open>Round trips\<close>

lemma len_i16_Some: "len_i16 n = Some v \<longleftrightarrow> n \<le> 32767 \<and> v = int n"
  by (auto simp: len_i16_def)

lemma len_i32_Some: "len_i32 n = Some v \<longleftrightarrow> n \<le> 2147483647 \<and> v = int n"
  by (auto simp: len_i32_def)

lemma len_u32_Some:
  assumes "len_u32 (Suc n) = Some v"
  shows "v \<noteq> 0" "unat (v - 1) = n"
proof -
  have v: "v = of_nat (Suc n)" and n: "Suc n < 2 ^ LENGTH(32)" using assms by (auto simp: len_u32_def split: if_splits)
  have "unat v = Suc n" unfolding v unat_of_nat using n by (rule mod_less)
  then show "v \<noteq> 0" by auto
  have "v - 1 = of_nat n" unfolding v by simp
  then show "unat (v - 1) = n" using n by (simp add: unat_of_nat)
qed

lemmas length_prefix_simps = len_i16_Some len_i32_Some int_width i16_ok_def

lemma nullable_string_roundtrip:
  assumes "put_nullable_string s = Some out" and "case s of None \<Rightarrow> True | Some v \<Rightarrow> utf8_valid v"
  shows "get_nullable_string_owned (out @ rest) = Inr (s, rest)" and "length out = nullable_string_len s"
  using assms
  by (auto simp: put_nullable_string_def put_string_def get_nullable_string_owned_def nullable_string_len_def
      from_utf8_def length_prefix_simps split: option.splits)

lemma compact_nullable_string_roundtrip:
  assumes "put_compact_nullable_string s = Some out" and "case s of None \<Rightarrow> True | Some v \<Rightarrow> utf8_valid v"
  shows "get_compact_nullable_string_owned (out @ rest) = Inr (s, rest)"
    and "compact_nullable_string_len s = Some (length out)"
  using assms
  by (auto simp: put_compact_nullable_string_def put_compact_string_def get_compact_nullable_string_owned_def
      compact_nullable_string_len_def compact_string_len_def from_utf8_def length_put_varint len_u32_Some
      split: option.splits)

lemma nullable_bytes_roundtrip:
  assumes "put_nullable_bytes b = Some out"
  shows "get_nullable_bytes_owned (out @ rest) = Inr (b, rest)" and "length out = nullable_bytes_len b"
  using assms
  by (auto simp: put_nullable_bytes_def put_bytes_def get_nullable_bytes_owned_def nullable_bytes_len_def
      length_prefix_simps split: option.splits)

lemma compact_nullable_bytes_roundtrip:
  assumes "put_compact_nullable_bytes b = Some out"
  shows "get_compact_nullable_bytes_owned (out @ rest) = Inr (b, rest)"
    and "compact_nullable_bytes_len b = Some (length out)"
  using assms
  by (auto simp: put_compact_nullable_bytes_def put_compact_bytes_def get_compact_nullable_bytes_owned_def
      compact_nullable_bytes_len_def compact_bytes_len_def length_put_varint len_u32_Some split: option.splits)

text \<open>
  C29. Every string and byte-string form of the protocol reads back what was written, null values
  included, leaves the rest of the buffer untouched, and the predicted length is the written one.
  A value that is too long for its length field is refused by the writer.
\<close>

theorem string_bytes_roundtrip:
  assumes "case s of None \<Rightarrow> True | Some v \<Rightarrow> utf8_valid v"
  shows "(\<forall>out. put_nullable_string s = Some out \<longrightarrow>
            get_nullable_string_owned (out @ rest) = Inr (s, rest) \<and> length out = nullable_string_len s) \<and>
         (\<forall>out. put_compact_nullable_string s = Some out \<longrightarrow>
            get_compact_nullable_string_owned (out @ rest) = Inr (s, rest) \<and>
            compact_nullable_string_len s = Some (length out)) \<and>
         (\<forall>out. put_nullable_bytes b = Some out \<longrightarrow>
            get_nullable_bytes_owned (out @ rest) = Inr (b, rest) \<and> length out = nullable_bytes_len b) \<and>
         (\<forall>out. put_compact_nullable_bytes b = Some out \<longrightarrow>
            get_compact_nullable_bytes_owned (out @ rest) = Inr (b, rest) \<and>
            compact_nullable_bytes_len b = Some (length out))"
  using nullable_string_roundtrip [OF _ assms] compact_nullable_string_roundtrip [OF _ assms]
    nullable_bytes_roundtrip compact_nullable_bytes_roundtrip by blast

theorem string_bytes_roundtrip_witness:
  "get_nullable_string_owned ([0, 2, 104, 105] @ [7]) = Inr (Some [104, 105], [7])"
proof -
  have ok: "case Some [104, 105] of None \<Rightarrow> True | Some v \<Rightarrow> utf8_valid v"
    using utf8_valid_ascii [of "[104, 105]"] by simp
  have "put_nullable_string (Some [104, 105]) = Some [0, 2, 104, 105]"
    by (simp add: put_nullable_string_def put_string_def len_i16_def put_i16_def be_bytes_numeral)
  then show ?thesis using string_bytes_roundtrip [OF ok, where rest = "[7]"] by blast
qed

lemmas owned_defs = get_string_owned_def get_nullable_string_owned_def get_compact_string_owned_def
  get_compact_nullable_string_owned_def get_bytes_owned_def get_nullable_bytes_owned_def
  get_compact_bytes_owned_def get_compact_nullable_bytes_owned_def

lemmas borrowed_defs = get_string_borrowed_def get_nullable_string_borrowed_def get_compact_string_borrowed_def
  get_compact_nullable_string_borrowed_def get_bytes_borrowed_def get_nullable_bytes_borrowed_def
  get_compact_bytes_borrowed_def get_compact_nullable_bytes_borrowed_def

text \<open>
  C33. The zero-copy decoders agree with the owned ones: on every input, well formed or not, they
  return the same value and remainder or the same error.
\<close>

theorem borrowed_decoders_agree:
  "get_string_borrowed buf = get_string_owned buf \<and>
   get_nullable_string_borrowed buf = get_nullable_string_owned buf \<and>
   get_compact_string_borrowed buf = get_compact_string_owned buf \<and>
   get_compact_nullable_string_borrowed buf = get_compact_nullable_string_owned buf \<and>
   get_bytes_borrowed buf = get_bytes_owned buf \<and>
   get_nullable_bytes_borrowed buf = get_nullable_bytes_owned buf \<and>
   get_compact_bytes_borrowed buf = get_compact_bytes_owned buf \<and>
   get_compact_nullable_bytes_borrowed buf = get_compact_nullable_bytes_owned buf"
  by (simp add: borrowed_defs owned_defs rbind_def take_exact_def need_def Let_def from_utf8_def
      split: sum.splits prod.splits)

lemma array_len_roundtrip:
  assumes "put_nullable_array_len len flexible = Some out" and "case len of None \<Rightarrow> True | Some n \<Rightarrow> n \<le> length rest"
  shows "get_nullable_array_len flexible (out @ rest) = Inr (len, rest)"
    and "nullable_array_len_prefix_len len flexible = Some (length out)"
  using assms
  by (auto simp: put_nullable_array_len_def get_nullable_array_len_def nullable_array_len_prefix_len_def
      check_remaining_def Let_def length_prefix_simps length_put_varint len_u32_Some split: option.splits bool.splits)

text \<open>
  An array length never announces more elements than bytes are left: on every input the
  decoded length is at most the size of the remaining buffer, so that a hostile frame cannot make
  the caller reserve more memory than the frame is long.
\<close>

theorem array_len_bounded:
  "(\<forall>n rest. get_array_len flexible buf = Inr (n, rest) \<longrightarrow> n \<le> length rest) \<and>
   (\<forall>n rest. get_nullable_array_len flexible buf = Inr (Some n, rest) \<longrightarrow> n \<le> length rest)"
  by (auto simp: get_array_len_def get_nullable_array_len_def rbind_def check_remaining_def Let_def
      split: if_splits sum.splits prod.splits)

theorem array_len_bounded_witness:
  "get_array_len True [0xFF, 0xFF, 0xFF, 0xFF, 0x0F] \<noteq> Inr (4294967294, [])"
  using array_len_bounded [of True "[0xFF, 0xFF, 0xFF, 0xFF, 0x0F]"] by auto

lemma uuid_roundtrip: "length u = 16 \<Longrightarrow> get_uuid (put_uuid u @ rest) = Inr (u, rest)"
  by (simp add: get_uuid_def put_uuid_def)

section \<open>Tagged fields\<close>

type_synonym tagged_field = "u32 \<times> bytes"

text \<open>
  The decoder closure \<open>known\<close> gets the tag and the payload; it reports whether it recognised the
  tag, what it left of the payload, and its own new state.
\<close>

type_synonym 's known_decoder = "'s \<Rightarrow> u32 \<Rightarrow> bytes \<Rightarrow> protocol_error + bool \<times> bytes \<times> 's"

fun read_tagged_loop ::
  "'s known_decoder \<Rightarrow> nat \<Rightarrow> u32 option \<Rightarrow> tagged_field list \<Rightarrow> 's \<Rightarrow> (tagged_field list \<times> 's) reader" where
  "read_tagged_loop known 0 last_tag unknown st buf = Inr ((unknown, st), buf)"
| "read_tagged_loop known (Suc k) last_tag unknown st buf =
     rbind (get_uvarint buf) (\<lambda>tag buf.
       if (case last_tag of None \<Rightarrow> False | Some prev \<Rightarrow> tag \<le> prev)
       then Inl (InvalidValue ''tagged fields not strictly ascending'')
       else rbind (get_uvarint buf) (\<lambda>size buf.
         rbind (take_exact (unat size) buf) (\<lambda>payload buf.
           case known st tag payload of
             Inl e \<Rightarrow> Inl e
           | Inr (recognised, left, st') \<Rightarrow>
               if \<not> recognised then read_tagged_loop known k (Some tag) (unknown @ [(tag, payload)]) st' buf
               else if left \<noteq> [] then Inl (InvalidValue ''tagged field decoder did not consume all bytes'')
               else read_tagged_loop known k (Some tag) unknown st' buf)))"

definition read_tagged_fields :: "'s known_decoder \<Rightarrow> 's \<Rightarrow> (tagged_field list \<times> 's) reader" where
  "read_tagged_fields known st buf =
     rbind (get_uvarint buf) (\<lambda>cnt buf. read_tagged_loop known (unat cnt) None [] st buf)"

definition put_tagged :: "tagged_field \<Rightarrow> bytes option" where
  "put_tagged e = map_option (\<lambda>len. put_uvarint (fst e) @ put_uvarint len @ snd e) (len_u32 (length (snd e)))"

fun put_tagged_all :: "tagged_field list \<Rightarrow> bytes option" where
  "put_tagged_all [] = Some []"
| "put_tagged_all (e # es) =
     (case put_tagged e of None \<Rightarrow> None | Some b \<Rightarrow> map_option (\<lambda>bs. b @ bs) (put_tagged_all es))"

text \<open>\<open>WriteTaggedFields::write\<close>: merge the unknown fields, sort by tag, write.\<close>

definition write_tagged_fields :: "tagged_field list \<Rightarrow> tagged_field list \<Rightarrow> bytes option" where
  "write_tagged_fields entries unknown =
     (let all = sort_key fst (entries @ unknown)
      in case len_u32 (length all) of
           None \<Rightarrow> None
         | Some cnt \<Rightarrow> map_option (\<lambda>bs. put_uvarint cnt @ bs) (put_tagged_all all))"

fun tagged_entry_lens :: "(u32 \<times> nat) list \<Rightarrow> nat option" where
  "tagged_entry_lens [] = Some 0"
| "tagged_entry_lens ((tag, len) # es) =
     (case len_u32 len of
        None \<Rightarrow> None
      | Some l \<Rightarrow> map_option (\<lambda>n. uvarint_len tag + uvarint_len l + len + n) (tagged_entry_lens es))"

definition tagged_fields_len :: "(u32 \<times> nat) list \<Rightarrow> tagged_field list \<Rightarrow> nat option" where
  "tagged_fields_len known unknown =
     (case len_u32 (length known + length unknown) of
        None \<Rightarrow> None
      | Some cnt \<Rightarrow>
          map_option (\<lambda>n. uvarint_len cnt + n)
            (tagged_entry_lens (known @ map (\<lambda>(t, b). (t, length b)) unknown)))"

lemma put_uvarint_small: "v AND NOT 127 = 0 \<Longrightarrow> put_uvarint v = [ucast v]"
  by (simp add: put_uvarint_def put_uv.simps)

lemma len_u32_unat: "len_u32 n = Some v \<Longrightarrow> unat v = n"
proof -
  assume *: "len_u32 n = Some v"
  then have v: "v = of_nat n" and n: "n < 2 ^ LENGTH(32)" by (auto simp: len_u32_def split: if_splits)
  show ?thesis unfolding v unat_of_nat using n by (rule mod_less)
qed

lemma read_put_tagged:
  assumes "put_tagged_all es = Some out" and "sorted_wrt (<) (map fst es)"
    and "case last_tag of None \<Rightarrow> True | Some prev \<Rightarrow> \<forall>e \<in> set es. prev < fst e"
  shows "read_tagged_loop (\<lambda>st tag payload. Inr (False, payload, st)) (length es) last_tag unknown st (out @ rest) =
    Inr ((unknown @ es, st), rest)"
  using assms
proof (induction es arbitrary: out last_tag unknown)
  case (Cons e es)
  obtain tag payload where e: "e = (tag, payload)" by force
  obtain len more where len: "len_u32 (length payload) = Some len" and more: "put_tagged_all es = Some more"
    and out: "out = put_uvarint tag @ put_uvarint len @ payload @ more"
    using Cons.prems(1) e by (auto simp: put_tagged_def split: option.splits)
  have asc: "\<not> (case last_tag of None \<Rightarrow> False | Some prev \<Rightarrow> tag \<le> prev)"
    using Cons.prems(3) e by (auto split: option.splits)
  have "read_tagged_loop (\<lambda>st tag payload. Inr (False, payload, st)) (length es) (Some tag)
      (unknown @ [(tag, payload)]) st (more @ rest) = Inr (((unknown @ [(tag, payload)]) @ es, st), rest)"
    by (rule Cons.IH [OF more]) (use Cons.prems(2) e in auto)
  then show ?case
    using asc len_u32_unat [OF len] by (simp add: e out)
qed simp

text \<open>
  C28. Tagged fields survive a decoder that knows none of them: what \<open>write\<close> emits for distinct
  tags is read back, in ascending tag order, with nothing lost and nothing consumed beyond it.
\<close>

theorem tagged_fields_roundtrip:
  assumes "write_tagged_fields entries unknown = Some out" and "distinct (map fst (entries @ unknown))"
  shows "read_tagged_fields (\<lambda>st tag payload. Inr (False, payload, st)) st (out @ rest) =
    Inr ((sort_key fst (entries @ unknown), st), rest)"
proof -
  let ?all = "sort_key fst (entries @ unknown)"
  obtain cnt bs where cnt: "len_u32 (length ?all) = Some cnt" and bs: "put_tagged_all ?all = Some bs"
    and out: "out = put_uvarint cnt @ bs"
    using assms(1) by (auto simp: write_tagged_fields_def Let_def split: option.splits)
  have "distinct (map fst ?all)"
    using assms(2) unfolding distinct_map by simp
  then have "sorted_wrt (<) (map fst ?all)" by (simp add: strict_sorted_iff)
  from read_put_tagged [OF bs this, of None "[]" st rest] show ?thesis
    using len_u32_unat [OF cnt] by (simp add: read_tagged_fields_def out)
qed

theorem tagged_fields_roundtrip_witness:
  "read_tagged_fields (\<lambda>st tag payload. Inr (False, payload, st)) () ([2, 5, 1, 10, 8, 1, 40] @ [99]) =
   Inr (([(5, [10]), (8, [40])], ()), [99])"
proof -
  have "write_tagged_fields [(8, [40])] [(5, [10])] = Some [2, 5, 1, 10, 8, 1, 40]"
    by (simp add: write_tagged_fields_def put_tagged_def len_u32_def put_uvarint_small)
  from tagged_fields_roundtrip [OF this, of "()" "[99]"] show ?thesis by simp
qed

end
