(* ===== verification/Compression.thy ===== *)
theory Compression
  imports Wire_Primitives
begin

text \<open>
  The compression crate (\<open>crates/compression/src\<close>): the codec identifiers of the attribute bits,
  the four codecs with their output caps, and the dispatch. The codec libraries themselves (flate2,
  lz4_flex, zstd, snap) are third-party code: the record \<open>codec_lib\<close> has one field per entry point,
  and \<open>codec_laws\<close> collects what their documentation promises. The xerial framing around raw snappy
  blocks is the crate's own and is modelled byte by byte.
\<close>

datatype compression_type = CNone | Gzip | Snappy | Lz4 | Zstd

definition from_attribute_bits :: "byte \<Rightarrow> compression_type option" where
  "from_attribute_bits b =
     (let c = b AND 7 in
      if c = 0 then Some CNone else if c = 1 then Some Gzip else if c = 2 then Some Snappy
      else if c = 3 then Some Lz4 else if c = 4 then Some Zstd else None)"

definition as_attribute_bits :: "compression_type \<Rightarrow> byte" where
  "as_attribute_bits c = (case c of CNone \<Rightarrow> 0 | Gzip \<Rightarrow> 1 | Snappy \<Rightarrow> 2 | Lz4 \<Rightarrow> 3 | Zstd \<Rightarrow> 4)"

datatype compression_error =
    FeatureDisabled string
  | InvalidData string
  | TooLarge nat
  | Io

section \<open>The codec libraries\<close>

text \<open>
  A streaming decoder is the bytes it produces and whether it then fails. \<open>snap_encode\<close> and
  \<open>snap_decode\<close> get the size of the output buffer. The interpolated library messages are dropped
  from the errors.
\<close>

type_synonym byte_stream = "bytes \<times> bool"

record codec_lib =
  gz_encode :: "bytes \<Rightarrow> bytes option"
  gz_decode :: "bytes \<Rightarrow> byte_stream"
  lz4_write :: "bytes \<Rightarrow> bool"
  lz4_finish :: "bytes \<Rightarrow> bytes option"
  lz4_decode :: "bytes \<Rightarrow> byte_stream"
  zstd_encode :: "bytes \<Rightarrow> bytes option"
  zstd_open :: "bytes \<Rightarrow> byte_stream option"
  snap_max_len :: "nat \<Rightarrow> nat"
  snap_encode :: "bytes \<Rightarrow> nat \<Rightarrow> bytes option"
  snap_decode_len :: "bytes \<Rightarrow> nat option"
  snap_decode :: "bytes \<Rightarrow> nat \<Rightarrow> bytes option"

text \<open>\<open>Read::take(n).read_to_end\<close>: an error beyond the first \<open>n\<close> bytes is never reached.\<close>

definition read_limited :: "nat \<Rightarrow> byte_stream \<Rightarrow> bytes option" where
  "read_limited n s =
     (if n \<le> length (fst s) then Some (take n (fst s)) else if snd s then None else Some (fst s))"

definition cap_output :: "string \<Rightarrow> nat \<Rightarrow> byte_stream \<Rightarrow> compression_error + bytes" where
  "cap_output label max_output s =
     (case read_limited (max_output + 1) s of
        None \<Rightarrow> Inl (InvalidData label)
      | Some out \<Rightarrow> if length out > max_output then Inl (TooLarge max_output) else Inr out)"

section \<open>The codecs\<close>

definition gzip_compress :: "codec_lib \<Rightarrow> bytes \<Rightarrow> compression_error + bytes" where
  "gzip_compress lib data = (case gz_encode lib data of None \<Rightarrow> Inl Io | Some out \<Rightarrow> Inr out)"

definition gzip_decompress :: "codec_lib \<Rightarrow> bytes \<Rightarrow> nat \<Rightarrow> compression_error + bytes" where
  "gzip_decompress lib data max_output =
     (if data = [] then Inl (InvalidData ''empty gzip payload'')
      else cap_output ''gzip decode'' max_output (gz_decode lib data))"

definition lz4_compress :: "codec_lib \<Rightarrow> bytes \<Rightarrow> compression_error + bytes" where
  "lz4_compress lib data =
     (if \<not> lz4_write lib data then Inl Io
      else case lz4_finish lib data of None \<Rightarrow> Inl (InvalidData ''lz4 finish'') | Some out \<Rightarrow> Inr out)"

definition lz4_decompress :: "codec_lib \<Rightarrow> bytes \<Rightarrow> nat \<Rightarrow> compression_error + bytes" where
  "lz4_decompress lib data max_output =
     (if data = [] then Inl (InvalidData ''empty lz4 payload'')
      else cap_output ''lz4 decode'' max_output (lz4_decode lib data))"

definition zstd_compress :: "codec_lib \<Rightarrow> bytes \<Rightarrow> compression_error + bytes" where
  "zstd_compress lib data = (case zstd_encode lib data of None \<Rightarrow> Inl Io | Some out \<Rightarrow> Inr out)"

definition zstd_decompress :: "codec_lib \<Rightarrow> bytes \<Rightarrow> nat \<Rightarrow> compression_error + bytes" where
  "zstd_decompress lib data max_output =
     (if data = [] then Inl (InvalidData ''empty zstd payload'')
      else case zstd_open lib data of
             None \<Rightarrow> Inl (InvalidData ''zstd open'')
           | Some s \<Rightarrow> cap_output ''zstd decode'' max_output s)"

definition XERIAL_HEADER :: bytes where
  "XERIAL_HEADER = [130, 83, 78, 65, 80, 80, 89, 0, 0, 0, 0, 1, 0, 0, 0, 1]"

definition XERIAL_CHUNK :: nat where
  "XERIAL_CHUNK = 32768"

text \<open>\<open>slice::chunks\<close>.\<close>

function chunks :: "nat \<Rightarrow> 'a list \<Rightarrow> 'a list list" where
  "chunks n xs = (if n = 0 \<or> xs = [] then [] else take n xs # chunks n (drop n xs))"
  by pat_completeness auto
termination
  by (relation "measure (\<lambda>(n, xs). length xs)") (auto simp: length_greater_0_conv [symmetric] simp del: length_greater_0_conv)

declare chunks.simps [simp del]

text \<open>The chunk loop of \<open>compress\<close>; \<open>None\<close> is the panic of \<open>expect("chunk size fits u32")\<close>.\<close>

fun snappy_chunks :: "codec_lib \<Rightarrow> bytes list \<Rightarrow> (compression_error + bytes) option" where
  "snappy_chunks lib [] = Some (Inr [])"
| "snappy_chunks lib (chunk # cs) =
     (case snap_encode lib chunk (snap_max_len lib (length chunk)) of
        None \<Rightarrow> Some (Inl (InvalidData ''snappy encode''))
      | Some block \<Rightarrow>
          if length block < 2 ^ 32 then
            (case snappy_chunks lib cs of
               Some (Inr out) \<Rightarrow> Some (Inr (put_u32 (of_nat (length block)) @ block @ out))
             | r \<Rightarrow> r)
          else None)"

definition snappy_compress :: "codec_lib \<Rightarrow> bytes \<Rightarrow> (compression_error + bytes) option" where
  "snappy_compress lib data =
     map_option (map_sum id (\<lambda>out. XERIAL_HEADER @ out)) (snappy_chunks lib (chunks XERIAL_CHUNK data))"

function snappy_loop :: "codec_lib \<Rightarrow> nat \<Rightarrow> bytes \<Rightarrow> bytes \<Rightarrow> compression_error + bytes" where
  "snappy_loop lib max_output out rest =
     (if rest = [] then Inr out
      else if length rest < 4 then Inl (InvalidData ''snappy chunk header truncated'')
      else let len = unat (be_word (take 4 rest) :: u32); rest = drop 4 rest in
        if length rest < len then Inl (InvalidData ''snappy chunk body truncated'')
        else let block = take len rest in
          case snap_decode_len lib block of
            None \<Rightarrow> Inl (InvalidData ''snappy decode_len'')
          | Some max_out \<Rightarrow>
              if length out + max_out > max_output then Inl (TooLarge max_output)
              else case snap_decode lib block max_out of
                     None \<Rightarrow> Inl (InvalidData ''snappy decode'')
                   | Some b \<Rightarrow> snappy_loop lib max_output (out @ b) (drop len rest))"
  by pat_completeness auto
termination
  by (relation "measure (\<lambda>(lib, m, out, rest). length rest)") auto

declare snappy_loop.simps [simp del]

definition snappy_decompress :: "codec_lib \<Rightarrow> bytes \<Rightarrow> nat \<Rightarrow> compression_error + bytes" where
  "snappy_decompress lib data max_output =
     (if length data < length XERIAL_HEADER then Inl (InvalidData ''snappy payload too short for xerial header'')
      else if take 8 data \<noteq> take 8 XERIAL_HEADER then Inl (InvalidData ''snappy missing xerial magic'')
      else snappy_loop lib max_output [] (drop (length XERIAL_HEADER) data))"

section \<open>Dispatch\<close>

definition compress :: "codec_lib \<Rightarrow> compression_type \<Rightarrow> bytes \<Rightarrow> (compression_error + bytes) option" where
  "compress lib ct data =
     (case ct of
        CNone \<Rightarrow> Some (Inr data)
      | Gzip \<Rightarrow> Some (gzip_compress lib data)
      | Snappy \<Rightarrow> snappy_compress lib data
      | Lz4 \<Rightarrow> Some (lz4_compress lib data)
      | Zstd \<Rightarrow> Some (zstd_compress lib data))"

definition decompress :: "codec_lib \<Rightarrow> compression_type \<Rightarrow> bytes \<Rightarrow> nat \<Rightarrow> compression_error + bytes" where
  "decompress lib ct data max_output =
     (case ct of
        CNone \<Rightarrow> if length data > max_output then Inl (TooLarge max_output) else Inr data
      | Gzip \<Rightarrow> gzip_decompress lib data max_output
      | Snappy \<Rightarrow> snappy_decompress lib data max_output
      | Lz4 \<Rightarrow> lz4_decompress lib data max_output
      | Zstd \<Rightarrow> zstd_decompress lib data max_output)"

section \<open>What the libraries promise\<close>

text \<open>A decoder reproduces what its encoder was given; raw snappy stays inside its buffers.\<close>

definition snap_fits :: "codec_lib \<Rightarrow> bool" where
  "snap_fits lib \<longleftrightarrow> (\<forall>block n out. snap_decode lib block n = Some out \<longrightarrow> length out \<le> n)"

definition snap_laws :: "codec_lib \<Rightarrow> bool" where
  "snap_laws lib \<longleftrightarrow>
     (\<forall>d n z. snap_encode lib d n = Some z \<longrightarrow>
        length z \<le> n \<and> snap_decode_len lib z = Some (length d) \<and> snap_decode lib z (length d) = Some d) \<and>
     (\<forall>n \<le> XERIAL_CHUNK. snap_max_len lib n < 2 ^ 32)"

definition stream_laws :: "codec_lib \<Rightarrow> bool" where
  "stream_laws lib \<longleftrightarrow>
     (\<forall>d z. gz_encode lib d = Some z \<longrightarrow> z \<noteq> [] \<and> gz_decode lib z = (d, False)) \<and>
     (\<forall>d z. lz4_finish lib d = Some z \<longrightarrow> z \<noteq> [] \<and> lz4_decode lib z = (d, False)) \<and>
     (\<forall>d z. zstd_encode lib d = Some z \<longrightarrow> z \<noteq> [] \<and> zstd_open lib z = Some (d, False))"

definition codec_laws :: "codec_lib \<Rightarrow> bool" where
  "codec_laws lib \<longleftrightarrow> stream_laws lib \<and> snap_laws lib"

section \<open>Lemmas\<close>

lemma from_as_attribute_bits [simp]: "from_attribute_bits (as_attribute_bits c) = Some c"
  by (cases c) (simp_all add: from_attribute_bits_def as_attribute_bits_def)

lemma cap_output_bound: "cap_output label m s = Inr out \<Longrightarrow> length out \<le> m"
  by (auto simp: cap_output_def split: option.splits if_splits)

lemma cap_output_all: "length d \<le> m \<Longrightarrow> cap_output label m (d, False) = Inr d"
  by (simp add: cap_output_def read_limited_def)

lemma snappy_loop_bound:
  assumes "snap_fits lib" and "length out \<le> m" and "snappy_loop lib m out rest = Inr r"
  shows "length r \<le> m"
  using assms
proof (induction lib m out rest rule: snappy_loop.induct)
  case (1 lib m out rest)
  show ?case
  proof (cases "rest = []")
    case True
    then show ?thesis using "1.prems" by (simp add: snappy_loop.simps)
  next
    case False
    then obtain len block max_out b where step: "\<not> length rest < 4"
        "len = unat (be_word (take 4 rest) :: u32)" "\<not> length (drop 4 rest) < len"
        "block = take len (drop 4 rest)" "snap_decode_len lib block = Some max_out"
        "\<not> length out + max_out > m" "snap_decode lib block max_out = Some b"
        "snappy_loop lib m (out @ b) (drop len (drop 4 rest)) = Inr r"
      using "1.prems"(3) by (subst (asm) snappy_loop.simps) (auto simp: Let_def split: if_splits option.splits)
    have "length b \<le> max_out" using "1.prems"(1) step(7) unfolding snap_fits_def by blast
    then show ?thesis
      using "1.IH" [OF False step(1,2) refl step(3,4,5,6,7) "1.prems"(1) _ step(8)] step(6) by simp
  qed
qed

lemmas snappy_loop_bound_start = snappy_loop_bound [where out = "[]", simplified]

lemma concat_chunks: "0 < n \<Longrightarrow> concat (chunks n xs) = xs"
  by (induction n xs rule: chunks.induct) (subst chunks.simps, simp)

lemma length_chunks: "c \<in> set (chunks n xs) \<Longrightarrow> length c \<le> n"
proof (induction n xs rule: chunks.induct)
  case (1 n xs)
  then show ?case by (cases "n = 0 \<or> xs = []") (auto simp: chunks.simps [of n xs])
qed

lemma snappy_loop_step:
  assumes "length block < 2 ^ 32" and "snap_decode_len lib block = Some n" and "length out + n \<le> m"
    and "snap_decode lib block n = Some b"
  shows "snappy_loop lib m out (put_u32 (of_nat (length block)) @ block @ after) = snappy_loop lib m (out @ b) after"
proof -
  let ?w = "of_nat (length block) :: u32"
  have len: "length (put_u32 ?w) = 4" "put_u32 ?w \<noteq> []" using length_greater_0_conv [of "put_u32 ?w"] by simp_all
  have "be_word (put_u32 ?w) = ?w" unfolding put_u32_def by (rule be_word_be_bytes_full) simp
  moreover have "unat ?w = length block" using assms(1) by (simp add: unat_of_nat)
  ultimately show ?thesis
    using len assms(2-) by (subst snappy_loop.simps) (auto simp: Let_def)
qed

lemma snappy_chunks_loop:
  assumes "snap_laws lib" and "snappy_chunks lib cs = Some (Inr enc)" and "length out + length (concat cs) \<le> m"
  shows "snappy_loop lib m out enc = Inr (out @ concat cs)"
  using assms(2,3)
proof (induction cs arbitrary: enc out)
  case Nil
  then show ?case by (simp add: snappy_loop.simps)
next
  case (Cons c cs)
  obtain block after where block: "snap_encode lib c (snap_max_len lib (length c)) = Some block"
      "length block < 2 ^ 32" and after: "snappy_chunks lib cs = Some (Inr after)"
    and enc: "enc = put_u32 (of_nat (length block)) @ block @ after"
    using Cons.prems(1) by (auto split: option.splits if_splits sum.splits)
  have laws: "snap_decode_len lib block = Some (length c)" "snap_decode lib block (length c) = Some c"
    using assms(1) block(1) unfolding snap_laws_def by blast+
  have "snappy_loop lib m out enc = snappy_loop lib m (out @ c) after"
    unfolding enc using Cons.prems(2) by (intro snappy_loop_step [OF block(2) laws(1) _ laws(2)]) simp
  then show ?case using Cons.IH [OF after, of "out @ c"] Cons.prems(2) by simp
qed

lemma snappy_chunks_no_panic:
  assumes "snap_laws lib" and "\<And>c. c \<in> set cs \<Longrightarrow> length c \<le> XERIAL_CHUNK"
  shows "snappy_chunks lib cs \<noteq> None"
  using assms(2)
proof (induction cs)
  case (Cons c cs)
  have "length block < 2 ^ 32" if "snap_encode lib c (snap_max_len lib (length c)) = Some block" for block
  proof -
    have "length block \<le> snap_max_len lib (length c)" using assms(1) that unfolding snap_laws_def by blast
    also have "\<dots> < 2 ^ 32" using assms(1) Cons.prems [of c] unfolding snap_laws_def by simp
    finally show ?thesis .
  qed
  then show ?case using Cons by (auto split: option.splits sum.splits)
qed simp

text \<open>
  C32. Decompression bombs: no codec ever returns after bytes than the cap it was given, whatever the
  payload and whatever the codec libraries do, as long as raw snappy stays inside the buffer it is
  handed.
\<close>

theorem decompress_bounded:
  assumes "snap_fits lib" and "decompress lib ct data max_output = Inr out"
  shows "length out \<le> max_output"
  using assms
  by (cases ct) (auto simp: decompress_def gzip_decompress_def lz4_decompress_def zstd_decompress_def
      snappy_decompress_def split: if_splits option.splits dest: cap_output_bound snappy_loop_bound_start)

lemma compress_decompress:
  assumes "codec_laws lib" and "length data \<le> max_output"
  shows "compress lib ct data \<noteq> None \<and>
    (compress lib ct data = Some (Inr z) \<longrightarrow> decompress lib ct z max_output = Inr data)"
proof -
  have str: "stream_laws lib" and snap: "snap_laws lib" using assms(1) by (auto simp: codec_laws_def)
  have data: "concat (chunks XERIAL_CHUNK data) = data" by (rule concat_chunks) (simp add: XERIAL_CHUNK_def)
  have sn: "snappy_decompress lib z max_output = Inr data" if enc: "snappy_compress lib data = Some (Inr z)" for z
  proof -
    obtain r where r: "snappy_chunks lib (chunks XERIAL_CHUNK data) = Some r"
      "map_sum id (\<lambda>out. XERIAL_HEADER @ out) r = Inr z"
      using enc unfolding snappy_compress_def by auto
    then obtain out where out: "snappy_chunks lib (chunks XERIAL_CHUNK data) = Some (Inr out)" and z: "z = XERIAL_HEADER @ out"
      by (cases r) auto
    show ?thesis
      using snappy_chunks_loop [OF snap out, of "[]" max_output] assms(2)
      by (simp add: z snappy_decompress_def XERIAL_HEADER_def data)
  qed
  have np: "snappy_compress lib data \<noteq> None"
    using snappy_chunks_no_panic [OF snap, of "chunks XERIAL_CHUNK data"] length_chunks
    by (auto simp: snappy_compress_def)
  show ?thesis
  proof (cases ct)
    case Snappy
    then show ?thesis using sn np by (simp add: compress_def decompress_def)
  qed (use str assms(2) in \<open>auto simp: compress_def decompress_def gzip_compress_def gzip_decompress_def
      lz4_compress_def lz4_decompress_def zstd_compress_def zstd_decompress_def stream_laws_def
      cap_output_all split: option.splits if_splits\<close>)
qed

text \<open>
  C31. Compression round trip: for codec libraries that decode what they encode, \<open>compress\<close> never
  panics, and decompressing its output under any cap not smaller than the input gives the input back;
  for snappy this covers the split into 32 KiB chunks and the xerial framing.
\<close>

theorem compress_roundtrip:
  assumes "codec_laws lib" and "length data \<le> max_output"
  shows "compress lib ct data \<noteq> None \<and>
    (\<forall>z. compress lib ct data = Some (Inr z) \<longrightarrow> decompress lib ct z max_output = Inr data)"
  using compress_decompress [OF assms] by blast

text \<open>A stored (uncompressed) instance of the libraries.\<close>

definition stored_lib :: codec_lib where
  "stored_lib = \<lparr>gz_encode = \<lambda>d. Some (1 # d), gz_decode = \<lambda>z. (tl z, False),
     lz4_write = \<lambda>d. True, lz4_finish = \<lambda>d. Some (1 # d), lz4_decode = \<lambda>z. (tl z, False),
     zstd_encode = \<lambda>d. Some (1 # d), zstd_open = \<lambda>z. Some (tl z, False),
     snap_max_len = \<lambda>n. n, snap_encode = \<lambda>d n. if length d \<le> n then Some d else None,
     snap_decode_len = \<lambda>b. Some (length b), snap_decode = \<lambda>b n. if length b \<le> n then Some b else None\<rparr>"

lemma stored_lib_laws: "codec_laws stored_lib" "snap_fits stored_lib"
  by (auto simp: stored_lib_def codec_laws_def stream_laws_def snap_laws_def snap_fits_def XERIAL_CHUNK_def)

theorem decompress_bounded_witness:
  "decompress stored_lib Gzip [1, 7, 8] 2 = Inr [7, 8] \<and> length ([7, 8] :: bytes) \<le> 2"
  using decompress_bounded [OF stored_lib_laws(2), of Gzip "[1, 7, 8]" 2 "[7, 8]"]
  by (simp add: decompress_def gzip_decompress_def cap_output_def read_limited_def stored_lib_def)

theorem compress_roundtrip_witness:
  "compress stored_lib Zstd [7, 8] = Some (Inr [1, 7, 8]) \<and> decompress stored_lib Zstd [1, 7, 8] 5 = Inr [7, 8]"
proof -
  have "compress stored_lib Zstd [7, 8] = Some (Inr [1, 7, 8])"
    by (simp add: compress_def zstd_compress_def stored_lib_def)
  then show ?thesis using compress_roundtrip [OF stored_lib_laws(1), of "[7, 8]" 5 Zstd] by simp
qed

end
