(* ===== verification/Record_Wire.thy ===== *)
theory Record_Wire
  imports Wire_Compound Compression
begin

text \<open>
  Records and their v2 wire form (\<open>crates/protocol/src/records\<close>): the error type (\<open>error.rs\<close>), the
  attribute bits and the in-place header patch (\<open>header.rs\<close>), the sequence arithmetic (\<open>mod.rs\<close>), one
  record's encoder and predicted length (\<open>owned.rs\<close>) and its two decoders, the copying one
  (\<open>owned.rs\<close>) and the zero-copy one (\<open>borrowed.rs\<close>). A \<open>RecordParse\<close> message keeps its literal text and
  drops the interpolated values; \<open>usize\<close> lengths are naturals.
\<close>

datatype records_error =
    HeaderTooShort nat
  | UnsupportedMagic int
  | CrcMismatch u32 u32
  | BodyTooShort nat
  | RecordParse string
  | CompressionErr compression_error
  | ZerocopyFailure

definition records_error_into :: "records_error \<Rightarrow> protocol_error" where
  "records_error_into e = InvalidValue (case e of
     HeaderTooShort _ \<Rightarrow> ''records: header too short''
   | UnsupportedMagic _ \<Rightarrow> ''records: unsupported magic''
   | CrcMismatch _ _ \<Rightarrow> ''records: CRC mismatch''
   | BodyTooShort _ \<Rightarrow> ''records: body truncated''
   | RecordParse _ \<Rightarrow> ''records: record parse failed''
   | CompressionErr _ \<Rightarrow> ''records: compression error''
   | ZerocopyFailure \<Rightarrow> ''records: zerocopy failure'')"

section \<open>Attributes\<close>

text \<open>\<open>Attributes(i16)\<close> is its bit pattern.\<close>

type_synonym attributes = "16 word"

datatype timestamp_type = CreateTime | LogAppendTime

definition attr_compression :: "attributes \<Rightarrow> compression_type" where
  "attr_compression a = (case from_attribute_bits (ucast (a AND 7)) of Some c \<Rightarrow> c | None \<Rightarrow> CNone)"

definition attr_timestamp_type :: "attributes \<Rightarrow> timestamp_type" where
  "attr_timestamp_type a = (if a AND 8 \<noteq> 0 then LogAppendTime else CreateTime)"

definition is_transactional :: "attributes \<Rightarrow> bool" where
  "is_transactional a \<longleftrightarrow> a AND 16 \<noteq> 0"

definition is_control_batch :: "attributes \<Rightarrow> bool" where
  "is_control_batch a \<longleftrightarrow> a AND 32 \<noteq> 0"

definition has_delete_horizon :: "attributes \<Rightarrow> bool" where
  "has_delete_horizon a \<longleftrightarrow> a AND 64 \<noteq> 0"

definition with_compression :: "attributes \<Rightarrow> compression_type \<Rightarrow> attributes" where
  "with_compression a c = (a AND NOT 7) OR ucast (as_attribute_bits c)"

definition with_timestamp_type :: "attributes \<Rightarrow> timestamp_type \<Rightarrow> attributes" where
  "with_timestamp_type a t = (case t of CreateTime \<Rightarrow> a AND NOT 8 | LogAppendTime \<Rightarrow> a OR 8)"

definition with_transactional :: "attributes \<Rightarrow> bool \<Rightarrow> attributes" where
  "with_transactional a b = (if b then a OR 16 else a AND NOT 16)"

definition with_control :: "attributes \<Rightarrow> bool \<Rightarrow> attributes" where
  "with_control a b = (if b then a OR 32 else a AND NOT 32)"

definition attr_with_delete_horizon :: "attributes \<Rightarrow> bool \<Rightarrow> attributes" where
  "attr_with_delete_horizon a b = (if b then a OR 64 else a AND NOT 64)"

section \<open>Sequences and the header patch\<close>

definition increment_sequence :: "int \<Rightarrow> int \<Rightarrow> int" where
  "increment_sequence s n = sint (((word_of_int s :: 32 word) + word_of_int n) AND 2147483647)"

definition decrement_sequence :: "int \<Rightarrow> int \<Rightarrow> int" where
  "decrement_sequence s n = sint (((word_of_int s :: 32 word) - word_of_int n) AND 2147483647)"

definition HEADER_LEN :: nat where
  "HEADER_LEN = 61"

definition CRC_COVERAGE_START :: nat where
  "CRC_COVERAGE_START = 21"

text \<open>\<open>None\<close> is the panic of the length assertion.\<close>

definition patch_base_offset_and_leader_epoch :: "bytes \<Rightarrow> int \<Rightarrow> int \<Rightarrow> bytes option" where
  "patch_base_offset_and_leader_epoch buf base_offset leader_epoch =
     (if length buf \<ge> HEADER_LEN
      then let buf = put_i64 base_offset @ drop 8 buf
           in Some (take 12 buf @ put_i32 leader_epoch @ drop 16 buf)
      else None)"

section \<open>Records\<close>

record record_header =
  rh_key :: bytes
  rh_value :: "bytes option"

record log_record =
  r_attributes :: int
  r_timestamp_delta :: int
  r_offset_delta :: int
  r_key :: "bytes option"
  r_value :: "bytes option"
  r_headers :: "record_header list"

text \<open>\<open>i32::try_from(n).unwrap_or(i32::MAX)\<close>, and the lengths built from it.\<close>

definition len_or_max :: "nat \<Rightarrow> int" where
  "len_or_max n = (case len_i32 n of Some v \<Rightarrow> v | None \<Rightarrow> i32_MAX)"

definition sized_len :: "bytes option \<Rightarrow> nat" where
  "sized_len b = (case b of None \<Rightarrow> varint_len (- 1) | Some k \<Rightarrow> varint_len (len_or_max (length k)) + length k)"

definition record_body_len :: "log_record \<Rightarrow> nat" where
  "record_body_len r =
     1 + varlong_len (r_timestamp_delta r) + varint_len (r_offset_delta r)
     + sized_len (r_key r) + sized_len (r_value r)
     + varint_len (len_or_max (length (r_headers r)))
     + sum_list (map (\<lambda>h. varint_len (len_or_max (length (rh_key h))) + length (rh_key h) + sized_len (rh_value h)) (r_headers r))"

definition record_encoded_len :: "log_record \<Rightarrow> nat" where
  "record_encoded_len r = varlong_len (int (record_body_len r)) + record_body_len r"

text \<open>Writers append to the buffer and stop at the first error.\<close>

definition then_put :: "records_error + bytes \<Rightarrow> records_error + bytes \<Rightarrow> records_error + bytes" where
  "then_put a b = (case a of Inl e \<Rightarrow> Inl e | Inr x \<Rightarrow> (case b of Inl e \<Rightarrow> Inl e | Inr y \<Rightarrow> Inr (x @ y)))"

definition put_count :: "string \<Rightarrow> nat \<Rightarrow> records_error + bytes" where
  "put_count label n = (case len_i32 n of None \<Rightarrow> Inl (RecordParse label) | Some v \<Rightarrow> Inr (put_varint v))"

definition put_sized :: "string \<Rightarrow> bytes \<Rightarrow> records_error + bytes" where
  "put_sized label b = then_put (put_count label (length b)) (Inr b)"

definition put_nullable_sized :: "string \<Rightarrow> bytes option \<Rightarrow> records_error + bytes" where
  "put_nullable_sized label b = (case b of None \<Rightarrow> Inr (put_varint (- 1)) | Some v \<Rightarrow> put_sized label v)"

fun encode_headers :: "record_header list \<Rightarrow> records_error + bytes" where
  "encode_headers [] = Inr []"
| "encode_headers (h # hs) =
     then_put (put_sized ''header key length overflow'' (rh_key h))
       (then_put (put_nullable_sized ''header value length overflow'' (rh_value h)) (encode_headers hs))"

definition encode_body :: "log_record \<Rightarrow> records_error + bytes" where
  "encode_body r =
     then_put (Inr (put_i8 (r_attributes r) @ put_varlong (r_timestamp_delta r) @ put_varint (r_offset_delta r)))
       (then_put (put_nullable_sized ''record key length overflow'' (r_key r))
         (then_put (put_nullable_sized ''record value length overflow'' (r_value r))
           (then_put (put_count ''record header count overflow'' (length (r_headers r)))
             (encode_headers (r_headers r)))))"

definition encode_record :: "log_record \<Rightarrow> records_error + bytes" where
  "encode_record r =
     (if i64_ok (int (record_body_len r))
      then then_put (Inr (put_varlong (int (record_body_len r)))) (encode_body r)
      else Inl (RecordParse ''record body length overflow''))"

section \<open>The copying decoder\<close>

type_synonym 'a rreader = "bytes \<Rightarrow> records_error + 'a \<times> bytes"

text \<open>\<open>map_err\<close> to a labelled \<open>RecordParse\<close>.\<close>

definition labelled :: "string \<Rightarrow> 'e + 'a \<Rightarrow> records_error + 'a" where
  "labelled label r = (case r of Inl _ \<Rightarrow> Inl (RecordParse label) | Inr x \<Rightarrow> Inr x)"

definition take_or_short :: "nat \<Rightarrow> bytes rreader" where
  "take_or_short n buf = (if length buf < n then Inl (BodyTooShort (n - length buf)) else Inr (take n buf, drop n buf))"

definition decode_nullable_bytes :: "string \<Rightarrow> bytes option rreader" where
  "decode_nullable_bytes label buf =
     rbind (labelled label (get_varint buf)) (\<lambda>len buf.
       if len < 0 then Inr (None, buf)
       else rbind (take_or_short (nat len) buf) (\<lambda>v buf. Inr (Some v, buf)))"

text \<open>Its \<open>String\<close> errors all become the caller's \<open>RecordParse("header[i]: ...")\<close>.\<close>

definition decode_record_header :: "record_header rreader" where
  "decode_record_header buf =
     labelled ''header'' (rbind (labelled ''key length'' (get_varint buf)) (\<lambda>key_len buf.
       if key_len < 0 then Inl (RecordParse ''non-nullable key has negative length'')
       else rbind (labelled ''key truncated'' (take_or_short (nat key_len) buf)) (\<lambda>kv buf.
         case from_utf8 kv of
           Inl _ \<Rightarrow> Inl (RecordParse ''key utf-8'')
         | Inr key \<Rightarrow> rbind (labelled ''value length'' (get_varint buf)) (\<lambda>value_len buf.
             if value_len < 0 then Inr (\<lparr>rh_key = key, rh_value = None\<rparr>, buf)
             else rbind (labelled ''value truncated'' (take_or_short (nat value_len) buf)) (\<lambda>vv buf.
               Inr (\<lparr>rh_key = key, rh_value = Some vv\<rparr>, buf))))))"

fun repeat_read :: "'a rreader \<Rightarrow> nat \<Rightarrow> 'a list rreader" where
  "repeat_read f 0 buf = Inr ([], buf)"
| "repeat_read f (Suc k) buf = rbind (f buf) (\<lambda>x buf. rbind (repeat_read f k buf) (\<lambda>xs buf. Inr (x # xs, buf)))"

definition decode_body :: "log_record rreader" where
  "decode_body buf =
     (case buf of
        [] \<Rightarrow> Inl (RecordParse ''record body empty'')
      | a # buf \<Rightarrow>
          rbind (labelled ''timestamp_delta'' (get_varlong buf)) (\<lambda>timestamp_delta buf.
          rbind (labelled ''offset_delta'' (get_varint buf)) (\<lambda>offset_delta buf.
          rbind (decode_nullable_bytes ''key'' buf) (\<lambda>key buf.
          rbind (decode_nullable_bytes ''value'' buf) (\<lambda>value buf.
          rbind (labelled ''header_count'' (get_varint buf)) (\<lambda>header_count buf.
            if header_count < 0 then Inl (RecordParse ''negative header count'')
            else rbind (repeat_read decode_record_header (nat header_count) buf) (\<lambda>headers buf.
              Inr (\<lparr>r_attributes = sint a, r_timestamp_delta = timestamp_delta, r_offset_delta = offset_delta,
                    r_key = key, r_value = value, r_headers = headers\<rparr>, buf))))))))"

definition decode_record :: "log_record rreader" where
  "decode_record buf =
     rbind (labelled ''record length'' (get_varlong buf)) (\<lambda>body_len buf.
       if body_len < 0 then Inl (RecordParse ''record length negative or too large'')
       else rbind (take_or_short (nat body_len) buf) (\<lambda>body buf.
         rbind (decode_body body) (\<lambda>r left.
           if left \<noteq> [] then Inl (RecordParse ''trailing bytes inside record'') else Inr (r, buf))))"

section \<open>The zero-copy decoder\<close>

definition read_nullable_slice :: "string \<Rightarrow> bytes option rreader" where
  "read_nullable_slice label buf =
     rbind (labelled label (get_varint buf)) (\<lambda>len buf.
       if len < 0 then Inr (None, buf)
       else rbind (take_or_short (nat len) buf) (\<lambda>head buf. Inr (Some head, buf)))"

text \<open>One round of the header loop of \<open>parse_body\<close>.\<close>

definition parse_header :: "record_header rreader" where
  "parse_header buf =
     rbind (labelled ''header key length'' (get_varint buf)) (\<lambda>key_len buf.
       if key_len < 0 then Inl (RecordParse ''header negative key length'')
       else rbind (take_or_short (nat key_len) buf) (\<lambda>key_bytes buf.
         case from_utf8 key_bytes of
           Inl _ \<Rightarrow> Inl (RecordParse ''header key utf-8'')
         | Inr key \<Rightarrow> rbind (read_nullable_slice ''header value'' buf) (\<lambda>value buf.
             Inr (\<lparr>rh_key = key, rh_value = value\<rparr>, buf))))"

definition parse_body :: "log_record rreader" where
  "parse_body buf =
     (case buf of
        [] \<Rightarrow> Inl (RecordParse ''record body empty'')
      | a # buf \<Rightarrow>
          rbind (labelled ''timestamp_delta'' (get_varlong buf)) (\<lambda>timestamp_delta buf.
          rbind (labelled ''offset_delta'' (get_varint buf)) (\<lambda>offset_delta buf.
          rbind (read_nullable_slice ''key'' buf) (\<lambda>key buf.
          rbind (read_nullable_slice ''value'' buf) (\<lambda>value buf.
          rbind (labelled ''header_count'' (get_varint buf)) (\<lambda>header_count buf.
            if header_count < 0 then Inl (RecordParse ''negative header count'')
            else rbind (repeat_read parse_header (nat header_count) buf) (\<lambda>headers buf.
              Inr (\<lparr>r_attributes = sint a, r_timestamp_delta = timestamp_delta, r_offset_delta = offset_delta,
                    r_key = key, r_value = value, r_headers = headers\<rparr>, buf))))))))"

definition parse_one_record :: "log_record rreader" where
  "parse_one_record buf =
     rbind (labelled ''record length'' (get_varlong buf)) (\<lambda>body_len buf.
       if body_len < 0 then Inl (RecordParse ''record length negative or too large'')
       else rbind (take_or_short (nat body_len) buf) (\<lambda>body buf.
         rbind (parse_body body) (\<lambda>r left.
           if left \<noteq> [] then Inl (RecordParse ''trailing bytes inside record'') else Inr (r, buf))))"

section \<open>What a record in memory looks like\<close>

text \<open>The widths of the integer fields and the UTF-8 of the \<open>String\<close> keys.\<close>

definition record_ok :: "log_record \<Rightarrow> bool" where
  "record_ok r \<longleftrightarrow> i8_ok (r_attributes r) \<and> i64_ok (r_timestamp_delta r) \<and> i32_ok (r_offset_delta r)
     \<and> list_all (\<lambda>h. utf8_valid (rh_key h)) (r_headers r)"

section \<open>Attribute lemmas\<close>

lemma flag_bits:
  "(a AND 8 \<noteq> 0) = bit a 3" "(a AND 16 \<noteq> 0) = bit a 4" "(a AND 32 \<noteq> 0) = bit a 5" "(a AND 64 \<noteq> 0) = bit a 6"
  for a :: attributes
  using and_exp_eq_0_iff_not_bit [of a 3] and_exp_eq_0_iff_not_bit [of a 4]
    and_exp_eq_0_iff_not_bit [of a 5] and_exp_eq_0_iff_not_bit [of a 6] by simp_all

lemmas attr_flags = attr_timestamp_type_def is_transactional_def is_control_batch_def has_delete_horizon_def flag_bits

lemmas attr_setters = with_compression_def with_timestamp_type_def with_transactional_def with_control_def
  attr_with_delete_horizon_def

lemma codec_low_bits:
  "(a OR 64) AND 7 = a AND 7" "(a AND NOT 64) AND 7 = a AND 7" "(a OR 8) AND 7 = a AND 7" "(a AND NOT 8) AND 7 = a AND 7"
  for a :: attributes
  by (simp_all add: bit.conj_disj_distrib2 and.assoc)

lemma attr_compression_keep:
  "attr_compression (attr_with_delete_horizon a b) = attr_compression a"
  "attr_compression (with_timestamp_type a t) = attr_compression a"
  unfolding attr_compression_def attr_with_delete_horizon_def with_timestamp_type_def
  by (cases b; simp only: if_True if_False codec_low_bits) (cases t; simp only: timestamp_type.case codec_low_bits)

lemma attr_compression_set: "attr_compression (with_compression a c) = c"
proof -
  have "((a AND NOT 7) OR ucast (as_attribute_bits c)) AND 7 = (ucast (as_attribute_bits c) :: attributes)"
    by (cases c) (simp_all add: as_attribute_bits_def bit.conj_disj_distrib2 and.assoc)
  then show ?thesis
    by (cases c) (simp_all add: attr_compression_def with_compression_def as_attribute_bits_def from_attribute_bits_def)
qed

lemma with_compression_bit: "3 \<le> k \<Longrightarrow> bit (with_compression a c) k = bit a k"
proof -
  assume k: "3 \<le> k"
  have "\<not> bit (ucast (as_attribute_bits c) :: attributes) k" "bit (NOT 7 :: attributes) k \<or> 16 \<le> k"
  proof -
    have lt: "\<not> bit (7 :: attributes) k"
      using k bit_mask_iff [where 'a = attributes, of 3 k] by (simp add: mask_eq_exp_minus_1)
    show "bit (NOT 7 :: attributes) k \<or> 16 \<le> k" unfolding bit_not_iff possible_bit_word using lt by auto
    have "ucast (as_attribute_bits c) AND (7 :: attributes) = ucast (as_attribute_bits c)"
      by (cases c) (simp_all add: as_attribute_bits_def)
    then show "\<not> bit (ucast (as_attribute_bits c) :: attributes) k" using lt by (metis bit_and_iff)
  qed
  then show ?thesis unfolding with_compression_def bit_or_iff bit_and_iff
    using bit_imp_le_length [of a k] by auto
qed

text \<open>
  The attribute word: every setter sets its own field and leaves the others alone, so the codec,
  the timestamp type and the three flags pack into and unpack from one word independently.
\<close>

theorem attributes_independent:
  "attr_compression (with_compression a c) = c
   \<and> is_control_batch (with_compression a c) = is_control_batch a
   \<and> has_delete_horizon (with_compression a c) = has_delete_horizon a
   \<and> is_transactional (with_compression a c) = is_transactional a
   \<and> attr_compression (attr_with_delete_horizon a b) = attr_compression a
   \<and> is_control_batch (attr_with_delete_horizon a b) = is_control_batch a
   \<and> is_transactional (attr_with_delete_horizon a b) = is_transactional a
   \<and> has_delete_horizon (attr_with_delete_horizon a b) = b
   \<and> is_control_batch (with_control a b) = b \<and> is_transactional (with_control a b) = is_transactional a
   \<and> is_transactional (with_transactional a b) = b \<and> is_control_batch (with_transactional a b) = is_control_batch a
   \<and> attr_timestamp_type (with_timestamp_type a t) = t
   \<and> attr_compression (with_timestamp_type a t) = attr_compression a"
  by (intro conjI attr_compression_set attr_compression_keep)
     (auto simp: with_compression_bit attr_flags attr_setters(2-) bit_or_iff bit_and_iff split: timestamp_type.splits)

section \<open>Sequence arithmetic\<close>

lemma mod31_range: "x mod 2 ^ 31 = r \<Longrightarrow> 0 \<le> r \<and> r < 2147483648" for x :: int
  by auto

lemma sint_low31: "sint ((w :: 32 word) AND 2147483647) = uint w mod 2 ^ 31"
proof -
  have "w AND 2147483647 = take_bit 31 w" by (simp add: take_bit_eq_mask mask_eq_exp_minus_1)
  moreover have u: "uint (take_bit 31 w) = uint w mod 2 ^ 31"
    unfolding unsigned_take_bit_eq by (rule take_bit_eq_mod)
  moreover have "sint (take_bit 31 w) = uint (take_bit 31 w)"
    unfolding sint_uint using mod31_range [OF u [symmetric]]
    by (intro signed_take_bit_int_eq_self) (simp_all add: order.trans [where b = 0])
  ultimately show ?thesis by simp
qed

lemma increment_sequence_mod: "increment_sequence s n = (s + n) mod 2 ^ 31"
  unfolding increment_sequence_def sint_low31
  by (simp add: uint_word_ariths(1) uint_word_of_int mod_mod_cancel mod_simps)

lemma decrement_sequence_mod: "decrement_sequence s n = (s - n) mod 2 ^ 31"
  unfolding decrement_sequence_def sint_low31
  by (simp add: uint_word_ariths(2) uint_word_of_int mod_mod_cancel mod_simps)

text \<open>
  Producer sequences run modulo \<open>2^31\<close>: advancing and moving back are inverse on the non-negative
  \<open>i32\<close> values, advancing composes, and the result is always a non-negative \<open>i32\<close>, so it never
  overflows.
\<close>

theorem sequence_wraps:
  "increment_sequence s n = (s + n) mod 2 ^ 31
   \<and> decrement_sequence (increment_sequence s n) n = s mod 2 ^ 31
   \<and> increment_sequence (increment_sequence s m) n = increment_sequence s (m + n)
   \<and> 0 \<le> increment_sequence s n \<and> i32_ok (increment_sequence s n)"
proof -
  have "i32_ok ((s + n) mod 2 ^ 31)"
    using mod31_range [OF refl, of "s + n"] unfolding i32_ok_def i32_MIN_def i32_MAX_def by linarith
  then show ?thesis unfolding increment_sequence_mod decrement_sequence_mod
    by (simp add: mod_simps add.assoc)
qed

section \<open>Record round trip\<close>

lemma labelled_simps [simp]: "labelled l (Inr x) = Inr x" "labelled l (Inl e) = Inl (RecordParse l)"
  "labelled l (labelled l' r) = labelled l r"
  by (simp_all add: labelled_def split: sum.splits)

lemma put_i8_single: "put_i8 v = [word_of_int v]"
  by (simp add: put_i8_def)

lemma then_put_Inr: "then_put a b = Inr out \<longleftrightarrow> (\<exists>x y. a = Inr x \<and> b = Inr y \<and> out = x @ y)"
  by (auto simp: then_put_def split: sum.splits)

lemma put_count_Inr: "put_count l n = Inr out \<longleftrightarrow> n \<le> 2147483647 \<and> out = put_varint (int n)"
  by (auto simp: put_count_def len_i32_def)

lemma put_sized_Inr: "put_sized l b = Inr out \<longleftrightarrow> length b \<le> 2147483647 \<and> out = put_varint (int (length b)) @ b"
  by (auto simp: put_sized_def then_put_Inr put_count_Inr)

lemma i32_ok_len: "n \<le> 2147483647 \<Longrightarrow> i32_ok (int n)" "i32_ok (- 1)"
  by (simp_all add: int_width)

lemma take_or_short_append [simp]: "take_or_short (length xs) (xs @ rest) = Inr (xs, rest)"
  by (simp add: take_or_short_def)

lemma read_put_nullable:
  "put_nullable_sized l b = Inr out \<Longrightarrow> read_nullable_slice l' (out @ rest) = Inr (b, rest)"
  by (auto simp: put_nullable_sized_def put_sized_Inr read_nullable_slice_def i32_ok_len split: option.splits)

lemma parse_encode_header:
  assumes "utf8_valid (rh_key h)" and "put_sized l (rh_key h) = Inr k" and "put_nullable_sized l' (rh_value h) = Inr v"
  shows "parse_header (k @ v @ rest) = Inr (h, rest)"
  using assms(1,2) read_put_nullable [OF assms(3)]
  by (auto simp: parse_header_def put_sized_Inr i32_ok_len from_utf8_def)

lemma parse_encode_headers:
  "list_all (\<lambda>h. utf8_valid (rh_key h)) hs \<Longrightarrow> encode_headers hs = Inr out \<Longrightarrow>
   repeat_read parse_header (length hs) (out @ rest) = Inr (hs, rest)"
proof (induction hs arbitrary: out)
  case (Cons h hs)
  then obtain k v after where "put_sized ''header key length overflow'' (rh_key h) = Inr k"
      "put_nullable_sized ''header value length overflow'' (rh_value h) = Inr v"
      "encode_headers hs = Inr after" "out = k @ v @ after"
    by (auto simp: then_put_Inr)
  then show ?case using Cons parse_encode_header [of h] by simp
qed simp

lemma encode_body_Inr:
  assumes "encode_body r = Inr out"
  obtains k v hs where "put_nullable_sized ''record key length overflow'' (r_key r) = Inr k"
    "put_nullable_sized ''record value length overflow'' (r_value r) = Inr v"
    "length (r_headers r) \<le> 2147483647" "encode_headers (r_headers r) = Inr hs"
    "out = put_i8 (r_attributes r) @ put_varlong (r_timestamp_delta r) @ put_varint (r_offset_delta r) @ k @ v
       @ put_varint (int (length (r_headers r))) @ hs"
  using assms by (auto simp: encode_body_def then_put_Inr put_count_Inr)

lemma sint_i8: "i8_ok v \<Longrightarrow> sint (word_of_int v :: 8 word) = v"
  by (rule sint_of_int_ok) (simp_all add: i8_ok_def)

lemma parse_encode_body:
  assumes "record_ok r" and "encode_body r = Inr out"
  shows "parse_body (out @ rest) = Inr (r, rest)"
proof -
  obtain k v hs where parts: "put_nullable_sized ''record key length overflow'' (r_key r) = Inr k"
    "put_nullable_sized ''record value length overflow'' (r_value r) = Inr v"
    "length (r_headers r) \<le> 2147483647" "encode_headers (r_headers r) = Inr hs"
    and out: "out = put_i8 (r_attributes r) @ put_varlong (r_timestamp_delta r) @ put_varint (r_offset_delta r) @ k @ v
       @ put_varint (int (length (r_headers r))) @ hs"
    using assms(2) by (rule encode_body_Inr)
  have ok: "i8_ok (r_attributes r)" "i64_ok (r_timestamp_delta r)" "i32_ok (r_offset_delta r)"
    "list_all (\<lambda>h. utf8_valid (rh_key h)) (r_headers r)"
    using assms(1) by (simp_all add: record_ok_def)
  show ?thesis
    using ok parts(3) read_put_nullable [OF parts(1)] read_put_nullable [OF parts(2)]
      parse_encode_headers [OF ok(4) parts(4)]
    by (simp add: parse_body_def out put_i8_single sint_i8 i32_ok_len)
qed

lemma length_put_nullable: "put_nullable_sized l b = Inr out \<Longrightarrow> length out = sized_len b"
  by (auto simp: put_nullable_sized_def put_sized_Inr sized_len_def len_or_max_def len_i32_def length_put_varint
      split: option.splits)

lemma length_encode_headers:
  "encode_headers hs = Inr out \<Longrightarrow> length out =
   sum_list (map (\<lambda>h. varint_len (len_or_max (length (rh_key h))) + length (rh_key h) + sized_len (rh_value h)) hs)"
proof (induction hs arbitrary: out)
  case (Cons h hs)
  then obtain k v after where "put_sized ''header key length overflow'' (rh_key h) = Inr k"
      "put_nullable_sized ''header value length overflow'' (rh_value h) = Inr v"
      "encode_headers hs = Inr after" "out = k @ v @ after"
    by (auto simp: then_put_Inr)
  then show ?case using Cons.IH [of after] length_put_nullable [of _ "rh_value h" v]
    by (auto simp: put_sized_Inr len_or_max_def len_i32_def length_put_varint)
qed simp

lemma length_encode_body:
  assumes "encode_body r = Inr out"
  shows "length out = record_body_len r"
  using assms
proof (rule encode_body_Inr)
  fix k v hs
  assume "put_nullable_sized ''record key length overflow'' (r_key r) = Inr k"
    "put_nullable_sized ''record value length overflow'' (r_value r) = Inr v"
    "length (r_headers r) \<le> 2147483647" "encode_headers (r_headers r) = Inr hs"
    "out = put_i8 (r_attributes r) @ put_varlong (r_timestamp_delta r) @ put_varint (r_offset_delta r) @ k @ v
       @ put_varint (int (length (r_headers r))) @ hs"
  then show ?thesis
    using length_put_nullable [of _ "r_key r" k] length_put_nullable [of _ "r_value r" v] length_encode_headers [of _ hs]
    by (simp add: record_body_len_def put_i8_single length_put_varint length_put_varlong len_or_max_def len_i32_def)
qed

lemma parse_encode_record:
  assumes "record_ok r" and "encode_record r = Inr out"
  shows "parse_one_record (out @ rest) = Inr (r, rest)" and "length out = record_encoded_len r"
proof -
  obtain body where body: "encode_body r = Inr body" and ok: "i64_ok (int (record_body_len r))"
    and out: "out = put_varlong (int (record_body_len r)) @ body"
    using assms(2) by (auto simp: encode_record_def then_put_Inr split: if_splits)
  have len: "length body = record_body_len r" using body by (rule length_encode_body)
  have "parse_body body = Inr (r, [])" using parse_encode_body [OF assms(1) body, of "[]"] by simp
  then show "parse_one_record (out @ rest) = Inr (r, rest)"
    using ok by (simp add: parse_one_record_def out flip: len)
  show "length out = record_encoded_len r" by (simp add: out len record_encoded_len_def length_put_varlong)
qed

section \<open>The two decoders agree\<close>

lemma labelled_rbind: "labelled l (rbind a f) = rbind (labelled l a) (\<lambda>x b. labelled l (f x b))"
  by (simp add: rbind_def labelled_def split: sum.splits)

lemma rbind_cong: "a = b \<Longrightarrow> (\<And>x bs. f x bs = g x bs) \<Longrightarrow> rbind a f = rbind b g"
  by (simp add: rbind_def split: sum.splits)

lemma repeat_read_agree:
  assumes "\<And>buf. labelled l (f buf) = labelled l (g buf)"
  shows "labelled l (repeat_read f k buf) = labelled l (repeat_read g k buf)"
proof (induction k arbitrary: buf)
  case (Suc k)
  show ?case unfolding repeat_read.simps labelled_rbind using assms Suc by (auto intro!: rbind_cong)
qed simp

lemma header_decoders_agree: "labelled l (decode_record_header buf) = labelled l (parse_header buf)"
proof -
  have "labelled l (rbind (labelled ''value length'' (get_varint b)) (\<lambda>value_len buf.
        if value_len < 0 then Inr (\<lparr>rh_key = key, rh_value = None\<rparr>, buf)
        else rbind (labelled ''value truncated'' (take_or_short (nat value_len) buf)) (\<lambda>vv buf.
               Inr (\<lparr>rh_key = key, rh_value = Some vv\<rparr>, buf))))
      = labelled l (rbind (read_nullable_slice ''header value'' b) (\<lambda>value buf. Inr (\<lparr>rh_key = key, rh_value = value\<rparr>, buf)))"
    for key b
    by (simp add: read_nullable_slice_def rbind_def labelled_def split: sum.splits)
  then show ?thesis
    unfolding decode_record_header_def parse_header_def labelled_simps
    by (simp only: labelled_rbind if_distrib [of "labelled l"] sum.case_distrib [of "labelled l"] labelled_simps)
qed

text \<open>
  C34. The copying and the zero-copy record decoder accept the same bytes, read the same record and
  leave the same rest; they can differ only in which error they report.
\<close>

theorem record_decoders_agree: "labelled l (decode_record buf) = labelled l (parse_one_record buf)"
proof -
  have nb: "decode_nullable_bytes = read_nullable_slice"
    by (intro ext) (simp add: decode_nullable_bytes_def read_nullable_slice_def)
  have "labelled l (decode_body b) = labelled l (parse_body b)" for b
    unfolding decode_body_def parse_body_def nb
    by (cases b) (auto simp: labelled_rbind intro!: rbind_cong repeat_read_agree header_decoders_agree)
  then show ?thesis
    unfolding decode_record_def parse_one_record_def by (auto simp: labelled_rbind intro!: rbind_cong)
qed

text \<open>
  Record round trip: any record whose fields have their widths is read back exactly from what
  \<open>encode\<close> writes, with the bytes after it untouched, and \<open>encoded_len\<close> predicts its length.
\<close>

theorem record_roundtrip:
  assumes "record_ok r" and "encode_record r = Inr out"
  shows "parse_one_record (out @ rest) = Inr (r, rest) \<and> length out = record_encoded_len r"
  using parse_encode_record [OF assms] by simp

definition sample_record :: log_record where
  "sample_record = \<lparr>r_attributes = 0, r_timestamp_delta = 17, r_offset_delta = 2, r_key = Some [107],
     r_value = Some [104, 105], r_headers = []\<rparr>"

lemma sample_record_ok: "record_ok sample_record"
  by (simp add: sample_record_def record_ok_def i8_ok_def int_width)

lemma encode_sample_record: "encode_record sample_record = Inr [18, 0, 34, 4, 2, 107, 4, 104, 105, 0]"
proof -
  have v: "put_varlong 17 = [34]" "put_varlong 9 = [18]" "put_varint 2 = [4]" "put_varint 1 = [2]" "put_varint 0 = [0]"
    by code_simp+
  then have l: "varlong_len 17 = 1" "varint_len 2 = 1" "varint_len 1 = 1" "varint_len 0 = 1"
    by (simp_all flip: length_put_varint length_put_varlong)
  show ?thesis
    using v l by (simp add: sample_record_def encode_record_def record_body_len_def sized_len_def len_or_max_def len_i32_def
        int_width encode_body_def then_put_def put_nullable_sized_def put_sized_def put_count_def put_i8_single)
qed

theorem record_roundtrip_witness:
  "parse_one_record ([18, 0, 34, 4, 2, 107, 4, 104, 105, 0] @ [9]) = Inr (sample_record, [9])"
  using record_roundtrip [OF sample_record_ok encode_sample_record, of "[9]"] by blast

end
