(* ===== verification/Record_Batch.thy ===== *)
theory Record_Batch
  imports Record_Wire
begin

text \<open>
  Record batches (\<open>records/owned.rs\<close>, \<open>records/borrowed.rs\<close>, \<open>records/header.rs\<close>): the 61-byte header,
  the encoder and the decoder with their CRC and compression steps, the lazily parsed borrowed batch,
  the two-stage validation of the produce path, and the delete-horizon stamp. The \<open>crc32c\<close> crate and
  the floating-point output budget of the decompression policy are arguments, in the record
  \<open>batch_lib\<close>, together with the codec libraries.
\<close>

record batch_lib =
  bl_crc32c :: "bytes \<Rightarrow> u32"
  bl_crc32c_append :: "u32 \<Rightarrow> bytes \<Rightarrow> u32"
  bl_codecs :: codec_lib
  bl_output_limit :: "nat \<Rightarrow> nat"

record batch_header =
  bh_base_offset :: int
  bh_batch_length :: int
  bh_partition_leader_epoch :: int
  bh_magic :: int
  bh_crc :: u32
  bh_attributes :: attributes
  bh_last_offset_delta :: int
  bh_base_timestamp :: int
  bh_max_timestamp :: int
  bh_producer_id :: int
  bh_producer_epoch :: int
  bh_base_sequence :: int
  bh_records_count :: int

text \<open>\<open>RecordBatchHeader::ref_from_bytes\<close>: the big-endian fields in order, and nothing else.\<close>

definition read_header_tail :: "int \<Rightarrow> int \<Rightarrow> int \<Rightarrow> batch_header reader" where
  "read_header_tail base_offset batch_length leader_epoch buf =
     rbind (get_i8 buf) (\<lambda>magic buf. rbind (get_u32 buf) (\<lambda>crc buf.
     rbind (get_i16 buf) (\<lambda>attributes buf. rbind (get_i32 buf) (\<lambda>last_offset_delta buf.
     rbind (get_i64 buf) (\<lambda>base_timestamp buf. rbind (get_i64 buf) (\<lambda>max_timestamp buf.
     rbind (get_i64 buf) (\<lambda>producer_id buf. rbind (get_i16 buf) (\<lambda>producer_epoch buf.
     rbind (get_i32 buf) (\<lambda>base_sequence buf. rbind (get_i32 buf) (\<lambda>records_count buf.
       Inr (\<lparr>bh_base_offset = base_offset, bh_batch_length = batch_length, bh_partition_leader_epoch = leader_epoch,
             bh_magic = magic, bh_crc = crc, bh_attributes = word_of_int attributes,
             bh_last_offset_delta = last_offset_delta, bh_base_timestamp = base_timestamp,
             bh_max_timestamp = max_timestamp, bh_producer_id = producer_id, bh_producer_epoch = producer_epoch,
             bh_base_sequence = base_sequence, bh_records_count = records_count\<rparr>, buf)))))))))))"

definition read_header :: "batch_header reader" where
  "read_header buf =
     rbind (get_i64 buf) (\<lambda>base_offset buf. rbind (get_i32 buf) (\<lambda>batch_length buf.
     rbind (get_i32 buf) (\<lambda>leader_epoch buf. read_header_tail base_offset batch_length leader_epoch buf)))"

definition ref_from_bytes :: "bytes \<Rightarrow> records_error + batch_header" where
  "ref_from_bytes bs = (case read_header bs of Inr (h, []) \<Rightarrow> Inr h | _ \<Rightarrow> Inl ZerocopyFailure)"

definition HEADER_TAIL_LEN :: int where
  "HEADER_TAIL_LEN = 49"

record record_batch =
  rb_base_offset :: int
  rb_partition_leader_epoch :: int
  rb_attributes :: attributes
  rb_last_offset_delta :: int
  rb_base_timestamp :: int
  rb_max_timestamp :: int
  rb_producer_id :: int
  rb_producer_epoch :: int
  rb_base_sequence :: int
  rb_records :: "log_record list"

definition record_batch_default :: record_batch where
  "record_batch_default = \<lparr>rb_base_offset = 0, rb_partition_leader_epoch = 0, rb_attributes = 0,
     rb_last_offset_delta = 0, rb_base_timestamp = 0, rb_max_timestamp = 0, rb_producer_id = - 1,
     rb_producer_epoch = - 1, rb_base_sequence = - 1, rb_records = []\<rparr>"

section \<open>The delete horizon\<close>

definition delete_horizon_ms :: "record_batch \<Rightarrow> int option" where
  "delete_horizon_ms b = (if has_delete_horizon (rb_attributes b) then Some (rb_base_timestamp b) else None)"

definition with_delete_horizon :: "record_batch \<Rightarrow> int \<Rightarrow> record_batch" where
  "with_delete_horizon b horizon_ms =
     (let old_base = rb_base_timestamp b;
          records = map (\<lambda>r. r\<lparr>r_timestamp_delta :=
             i64_saturating_sub (i64_saturating_add old_base (r_timestamp_delta r)) horizon_ms\<rparr>) (rb_records b)
      in b\<lparr>rb_records := records, rb_base_timestamp := horizon_ms,
           rb_attributes := attr_with_delete_horizon (rb_attributes b) True\<rparr>)"

section \<open>Encoding\<close>

fun encode_records :: "log_record list \<Rightarrow> records_error + bytes" where
  "encode_records [] = Inr []"
| "encode_records (r # rs) = then_put (encode_record r) (encode_records rs)"

text \<open>The CRC-covered part of the header.\<close>

definition covered_head :: "record_batch \<Rightarrow> int \<Rightarrow> bytes" where
  "covered_head b records_count =
     put_i16 (sint (rb_attributes b)) @ put_i32 (rb_last_offset_delta b) @ put_i64 (rb_base_timestamp b)
     @ put_i64 (rb_max_timestamp b) @ put_i64 (rb_producer_id b) @ put_i16 (rb_producer_epoch b)
     @ put_i32 (rb_base_sequence b) @ put_i32 records_count"

text \<open>
  \<open>None\<close> is a panic inside \<open>compress\<close>. The addition \<open>HEADER_TAIL_LEN + body_len\<close> is an unchecked \<open>i32\<close>
  addition; \<open>put_i32\<close> writes its value modulo \<open>2^32\<close>, as the release build does.
\<close>

definition batch_encode :: "batch_lib \<Rightarrow> record_batch \<Rightarrow> (records_error + bytes) option" where
  "batch_encode lib b =
     (case encode_records (rb_records b) of
        Inl e \<Rightarrow> Some (Inl e)
      | Inr raw_body \<Rightarrow>
          (let codec = attr_compression (rb_attributes b);
               compressed = (if codec = CNone then Some (Inr raw_body) else compress (bl_codecs lib) codec raw_body)
           in case compressed of
                None \<Rightarrow> None
              | Some (Inl e) \<Rightarrow> Some (Inl (CompressionErr e))
              | Some (Inr body) \<Rightarrow>
                  (case len_i32 (length body) of
                     None \<Rightarrow> Some (Inl (RecordParse ''body length exceeds i32''))
                   | Some body_len \<Rightarrow>
                       (case len_i32 (length (rb_records b)) of
                          None \<Rightarrow> Some (Inl (RecordParse ''records_count exceeds i32''))
                        | Some records_count \<Rightarrow>
                            (let covered = covered_head b records_count;
                                 crc = bl_crc32c_append lib (bl_crc32c lib covered) body
                             in Some (Inr (put_i64 (rb_base_offset b) @ put_i32 (HEADER_TAIL_LEN + body_len)
                                  @ put_i32 (rb_partition_leader_epoch b) @ put_i8 2 @ put_u32 crc @ covered @ body)))))))"

definition batch_encoded_len :: "record_batch \<Rightarrow> nat" where
  "batch_encoded_len b = HEADER_LEN + sum_list (map record_encoded_len (rb_records b))"

section \<open>Decoding\<close>

text \<open>
  The eager decoder \<open>decode_with_policy\<close> of \<open>owned.rs\<close>. Its first steps take the header off the buffer,
  check magic, declared length and CRC, and give the header, the raw body and what follows the batch.
\<close>

definition decode_frame :: "batch_lib \<Rightarrow> bytes \<Rightarrow> records_error + batch_header \<times> bytes \<times> bytes" where
  "decode_frame lib buf =
     (if length buf < HEADER_LEN then Inl (HeaderTooShort (HEADER_LEN - length buf))
      else let hdr_bytes = take HEADER_LEN buf; buf = drop HEADER_LEN buf in
        case ref_from_bytes hdr_bytes of
          Inl e \<Rightarrow> Inl e
        | Inr hdr \<Rightarrow>
            if bh_magic hdr \<noteq> 2 then Inl (UnsupportedMagic (bh_magic hdr))
            else case Option.bind (i32_checked_sub (bh_batch_length hdr) HEADER_TAIL_LEN) usize_try_from of
                   None \<Rightarrow> Inl (RecordParse ''negative or oversized batch_length'')
                 | Some body_len \<Rightarrow>
                     if length buf < body_len then Inl (BodyTooShort (body_len - length buf))
                     else let body = take body_len buf; buf = drop body_len buf;
                              computed = bl_crc32c lib (drop 21 hdr_bytes);
                              computed = bl_crc32c_append lib computed body in
                       if computed \<noteq> bh_crc hdr then Inl (CrcMismatch (bh_crc hdr) computed)
                       else Inr (hdr, body, buf))"

definition plain_body :: "batch_lib \<Rightarrow> batch_header \<Rightarrow> bytes \<Rightarrow> records_error + bytes" where
  "plain_body lib hdr body =
     (let codec = attr_compression (bh_attributes hdr) in
      if codec = CNone then Inr body
      else case decompress (bl_codecs lib) codec body (bl_output_limit lib (length body)) of
             Inl e \<Rightarrow> Inl (CompressionErr e)
           | Inr out \<Rightarrow> Inr out)"

text \<open>The loop over the declared records; each one is materialised as views into the shared body.\<close>

definition view_record :: "log_record \<Rightarrow> log_record" where
  "view_record r = \<lparr>r_attributes = r_attributes r, r_timestamp_delta = r_timestamp_delta r, r_offset_delta = r_offset_delta r,
     r_key = r_key r, r_value = r_value r,
     r_headers = map (\<lambda>h. \<lparr>rh_key = rh_key h, rh_value = rh_value h\<rparr>) (r_headers r)\<rparr>"

fun decode_records :: "nat \<Rightarrow> bytes \<Rightarrow> records_error + log_record list \<times> bytes" where
  "decode_records 0 body_cur = Inr ([], body_cur)"
| "decode_records (Suc k) body_cur =
     (case parse_one_record body_cur of
        Inl e \<Rightarrow> Inl (RecordParse ''record'')
      | Inr (r, body_cur) \<Rightarrow>
          (case decode_records k body_cur of
             Inl e \<Rightarrow> Inl e
           | Inr (records, body_cur) \<Rightarrow> Inr (view_record r # records, body_cur)))"

definition batch_of :: "batch_header \<Rightarrow> log_record list \<Rightarrow> record_batch" where
  "batch_of h records = \<lparr>rb_base_offset = bh_base_offset h, rb_partition_leader_epoch = bh_partition_leader_epoch h,
     rb_attributes = bh_attributes h, rb_last_offset_delta = bh_last_offset_delta h,
     rb_base_timestamp = bh_base_timestamp h, rb_max_timestamp = bh_max_timestamp h,
     rb_producer_id = bh_producer_id h, rb_producer_epoch = bh_producer_epoch h,
     rb_base_sequence = bh_base_sequence h, rb_records = records\<rparr>"

definition batch_decode :: "batch_lib \<Rightarrow> record_batch rreader" where
  "batch_decode lib buf =
     (case decode_frame lib buf of
        Inl e \<Rightarrow> Inl e
      | Inr (hdr, body, buf) \<Rightarrow>
          (case plain_body lib hdr body of
             Inl e \<Rightarrow> Inl e
           | Inr body_for_records \<Rightarrow>
               (let cnt = bh_records_count hdr in
                if cnt < 0 then Inl (RecordParse ''negative records_count'')
                else case decode_records (nat cnt) body_for_records of
                       Inl e \<Rightarrow> Inl e
                     | Inr (records, body_cur) \<Rightarrow>
                         if body_cur \<noteq> [] then Inl (RecordParse ''trailing bytes after records'')
                         else Inr (batch_of hdr records, buf))))"

section \<open>The borrowed batch\<close>

datatype record_body = Borrowed bytes | Owned bytes

record borrowed_batch =
  bb_header :: batch_header
  bb_body :: record_body

text \<open>The lazy decoder of \<open>borrowed.rs\<close> has its own framing, by splitting slices.\<close>

definition borrow_frame :: "batch_lib \<Rightarrow> bytes \<Rightarrow> records_error + batch_header \<times> bytes \<times> bytes" where
  "borrow_frame lib buf =
     (if length buf < HEADER_LEN then Inl (HeaderTooShort (HEADER_LEN - length buf))
      else let (hdr_slice, rest) = (take HEADER_LEN buf, drop HEADER_LEN buf) in
        case ref_from_bytes hdr_slice of
          Inl e \<Rightarrow> Inl e
        | Inr hdr \<Rightarrow>
            if bh_magic hdr \<noteq> 2 then Inl (UnsupportedMagic (bh_magic hdr))
            else case Option.bind (i32_checked_sub (bh_batch_length hdr) HEADER_TAIL_LEN) usize_try_from of
                   None \<Rightarrow> Inl (RecordParse ''negative or oversized batch_length'')
                 | Some body_len \<Rightarrow>
                     if length rest < body_len then Inl (BodyTooShort (body_len - length rest))
                     else let (raw_body, after) = (take body_len rest, drop body_len rest);
                              computed = bl_crc32c_append lib (bl_crc32c lib (drop 21 hdr_slice)) raw_body in
                       if computed \<noteq> bh_crc hdr then Inl (CrcMismatch (bh_crc hdr) computed)
                       else Inr (hdr, raw_body, after))"

definition decode_borrow :: "batch_lib \<Rightarrow> borrowed_batch rreader" where
  "decode_borrow lib buf =
     (case borrow_frame lib buf of
        Inl e \<Rightarrow> Inl e
      | Inr (hdr, raw_body, after) \<Rightarrow>
          (let codec = attr_compression (bh_attributes hdr) in
           if codec = CNone then Inr (\<lparr>bb_header = hdr, bb_body = Borrowed raw_body\<rparr>, after)
           else case decompress (bl_codecs lib) codec raw_body (bl_output_limit lib (length raw_body)) of
                  Inl e \<Rightarrow> Inl (CompressionErr e)
                | Inr out \<Rightarrow> Inr (\<lparr>bb_header = hdr, bb_body = Owned out\<rparr>, after)))"

text \<open>
  The iterator over the records (\<open>iter\<close>, \<open>RecordIter::next\<close>): as many as the header declares, none for
  a negative count. After an error the position is not used again, since \<open>to_owned\<close> returns.
\<close>

record record_iter =
  ri_remaining :: bytes
  ri_count :: nat
  ri_index :: nat

definition batch_iter :: "borrowed_batch \<Rightarrow> record_iter" where
  "batch_iter b = \<lparr>ri_remaining = (case bb_body b of Borrowed s \<Rightarrow> s | Owned s \<Rightarrow> s),
     ri_count = nat (max 0 (bh_records_count (bb_header b))), ri_index = 0\<rparr>"

definition iter_next :: "record_iter \<Rightarrow> ((records_error + log_record) \<times> record_iter) option" where
  "iter_next it =
     (if ri_index it \<ge> ri_count it then None
      else let it = it\<lparr>ri_index := ri_index it + 1\<rparr> in
        case parse_one_record (ri_remaining it) of
          Inl e \<Rightarrow> Some (Inl e, it)
        | Inr (r, rest) \<Rightarrow> Some (Inr r, it\<lparr>ri_remaining := rest\<rparr>))"

definition copy_record :: "log_record \<Rightarrow> log_record" where
  "copy_record r = \<lparr>r_attributes = r_attributes r, r_timestamp_delta = r_timestamp_delta r, r_offset_delta = r_offset_delta r,
     r_key = r_key r, r_value = r_value r,
     r_headers = map (\<lambda>h. \<lparr>rh_key = rh_key h, rh_value = rh_value h\<rparr>) (r_headers r)\<rparr>"

text \<open>The \<open>for\<close> loop of \<open>to_owned\<close> drains the iterator. It does not look at bytes left after the last record.\<close>

function owned_loop :: "record_iter \<Rightarrow> records_error + log_record list" where
  "owned_loop it =
     (case iter_next it of
        None \<Rightarrow> Inr []
      | Some (Inl e, _) \<Rightarrow> Inl e
      | Some (Inr r, it') \<Rightarrow> (case owned_loop it' of Inl e \<Rightarrow> Inl e | Inr records \<Rightarrow> Inr (copy_record r # records)))"
  by pat_completeness auto
termination
  by (relation "measure (\<lambda>it. ri_count it - ri_index it)")
     (auto simp: iter_next_def Let_def split: if_splits sum.splits prod.splits)

declare owned_loop.simps [simp del]

definition to_owned :: "borrowed_batch \<Rightarrow> records_error + record_batch" where
  "to_owned b =
     (case owned_loop (batch_iter b) of
        Inl e \<Rightarrow> Inl e
      | Inr records \<Rightarrow>
          Inr \<lparr>rb_base_offset = bh_base_offset (bb_header b), rb_partition_leader_epoch = bh_partition_leader_epoch (bb_header b),
             rb_attributes = bh_attributes (bb_header b), rb_last_offset_delta = bh_last_offset_delta (bb_header b),
             rb_base_timestamp = bh_base_timestamp (bb_header b), rb_max_timestamp = bh_max_timestamp (bb_header b),
             rb_producer_id = bh_producer_id (bb_header b), rb_producer_epoch = bh_producer_epoch (bb_header b),
             rb_base_sequence = bh_base_sequence (bb_header b), rb_records = records\<rparr>)"

section \<open>Produce-path validation\<close>

record validated_batch =
  vb_header :: batch_header
  vb_total_len :: nat
  vb_raw_body :: bytes

text \<open>The checks of \<open>validate_one_v2_batch\<close>, a third copy of the framing; it also gives the bytes after the batch.\<close>

definition checked_frame :: "batch_lib \<Rightarrow> bytes \<Rightarrow> records_error + batch_header \<times> bytes \<times> bytes" where
  "checked_frame lib buf =
     (if length buf < HEADER_LEN then Inl (HeaderTooShort (HEADER_LEN - length buf))
      else let hdr_bytes = take HEADER_LEN buf; rest = drop HEADER_LEN buf in
        case ref_from_bytes hdr_bytes of
          Inl e \<Rightarrow> Inl e
        | Inr hdr \<Rightarrow>
            if bh_magic hdr \<noteq> 2 then Inl (UnsupportedMagic (bh_magic hdr))
            else if \<not> i32_ok (bh_batch_length hdr - HEADER_TAIL_LEN) \<or> bh_batch_length hdr - HEADER_TAIL_LEN < 0
              then Inl (RecordParse ''negative or oversized batch_length'')
            else let body_len = nat (bh_batch_length hdr - HEADER_TAIL_LEN) in
              if length rest < body_len then Inl (BodyTooShort (body_len - length rest))
              else let body = take body_len rest;
                       computed = bl_crc32c_append lib (bl_crc32c lib (drop CRC_COVERAGE_START hdr_bytes)) body in
                if computed \<noteq> bh_crc hdr then Inl (CrcMismatch (bh_crc hdr) computed)
                else Inr (hdr, body, drop body_len rest))"

definition validate_one_v2_batch :: "batch_lib \<Rightarrow> bytes \<Rightarrow> records_error + validated_batch" where
  "validate_one_v2_batch lib buf =
     (case checked_frame lib buf of
        Inl e \<Rightarrow> Inl e
      | Inr (hdr, raw_body, rest) \<Rightarrow>
          Inr \<lparr>vb_header = hdr, vb_total_len = HEADER_LEN + length raw_body, vb_raw_body = raw_body\<rparr>)"

text \<open>The second stage: the declared number of records is parsed and dropped.\<close>

fun validate_loop :: "nat \<Rightarrow> bytes \<Rightarrow> records_error + bytes" where
  "validate_loop 0 remaining = Inr remaining"
| "validate_loop (Suc k) remaining =
     (case parse_one_record remaining of
        Inl e \<Rightarrow> Inl (RecordParse ''record'')
      | Inr (_, remaining) \<Rightarrow> validate_loop k remaining)"

definition validate_records :: "batch_lib \<Rightarrow> validated_batch \<Rightarrow> records_error + unit" where
  "validate_records lib v =
     (let cnt = bh_records_count (vb_header v) in
      if cnt < 0 then Inl (RecordParse ''negative records_count'')
      else let codec = attr_compression (bh_attributes (vb_header v));
               decompressed = (if codec = CNone then Inr None
                 else map_sum CompressionErr Some
                   (decompress (bl_codecs lib) codec (vb_raw_body v) (bl_output_limit lib (length (vb_raw_body v))))) in
        case decompressed of
          Inl e \<Rightarrow> Inl e
        | Inr out \<Rightarrow>
            (case validate_loop (nat cnt) (case out of None \<Rightarrow> vb_raw_body v | Some bytes \<Rightarrow> bytes) of
               Inl e \<Rightarrow> Inl e
             | Inr remaining \<Rightarrow>
                 if remaining \<noteq> [] then Inl (RecordParse ''trailing bytes after records'') else Inr ()))"

text \<open>The metrics helper. \<open>total_len\<close> is at least the header, so every round shortens the slice.\<close>

function count_loop :: "bytes \<Rightarrow> nat \<Rightarrow> nat" where
  "count_loop remaining total_cnt =
     (if length remaining < HEADER_LEN then total_cnt
      else if remaining ! 16 \<noteq> 2 then total_cnt
      else case ref_from_bytes (take HEADER_LEN remaining) of
             Inl _ \<Rightarrow> total_cnt
           | Inr hdr \<Rightarrow>
               if bh_batch_length hdr < 0 then total_cnt
               else if 12 + nat (bh_batch_length hdr) < HEADER_LEN \<or> 12 + nat (bh_batch_length hdr) > length remaining
               then total_cnt
               else count_loop (drop (12 + nat (bh_batch_length hdr)) remaining)
                      (total_cnt + nat (max 0 (bh_records_count hdr))))"
  by pat_completeness auto
termination
  by (relation "measure (\<lambda>(bs, n). length bs)") (auto simp: HEADER_LEN_def)

declare count_loop.simps [simp del]

definition count_records_in_v2_batches :: "bytes \<Rightarrow> nat" where
  "count_records_in_v2_batches buf = (if length buf \<le> 16 \<or> buf ! 16 \<noteq> 2 then 0 else count_loop buf 0)"

section \<open>Batches in memory\<close>

definition batch_ok :: "record_batch \<Rightarrow> bool" where
  "batch_ok b \<longleftrightarrow> i64_ok (rb_base_offset b) \<and> i32_ok (rb_partition_leader_epoch b) \<and> i32_ok (rb_last_offset_delta b)
     \<and> i64_ok (rb_base_timestamp b) \<and> i64_ok (rb_max_timestamp b) \<and> i64_ok (rb_producer_id b)
     \<and> i16_ok (rb_producer_epoch b) \<and> i32_ok (rb_base_sequence b) \<and> list_all record_ok (rb_records b)"

section \<open>Framing lemmas\<close>

text \<open>The three framings accept the same bytes, and the three record loops parse the same records.\<close>

lemma decode_frame_checked: "decode_frame lib buf = checked_frame lib buf"
  by (simp add: decode_frame_def checked_frame_def i32_checked_sub_def usize_try_from_def CRC_COVERAGE_START_def Let_def
      split: sum.splits)

lemma borrow_frame_checked: "borrow_frame lib buf = checked_frame lib buf"
  by (simp add: borrow_frame_def checked_frame_def i32_checked_sub_def usize_try_from_def CRC_COVERAGE_START_def Let_def
      split: sum.splits)

lemma record_copies [simp]: "view_record r = r" "copy_record r = r"
  by (cases r; simp add: view_record_def copy_record_def map_idI)+

lemma decode_records_repeat: "decode_records k buf = labelled ''record'' (repeat_read parse_one_record k buf)"
  by (induction k arbitrary: buf) (auto simp: rbind_def labelled_def split: sum.splits prod.splits)

lemma validate_loop_repeat: "validate_loop k buf = map_sum id snd (labelled ''record'' (repeat_read parse_one_record k buf))"
  by (induction k arbitrary: buf) (auto simp: rbind_def labelled_def split: sum.splits prod.splits)

lemma owned_loop_repeat:
  "owned_loop \<lparr>ri_remaining = buf, ri_count = i + k, ri_index = i\<rparr> = map_sum id fst (repeat_read parse_one_record k buf)"
proof (induction k arbitrary: buf i)
  case 0
  then show ?case by (simp add: owned_loop.simps iter_next_def)
next
  case (Suc k)
  show ?case using Suc [of _ "Suc i"]
    by (subst owned_loop.simps) (auto simp: iter_next_def Let_def rbind_def split: sum.splits prod.splits)
qed

lemma batch_decode_frame:
  "batch_decode lib buf =
     (case checked_frame lib buf of
        Inl e \<Rightarrow> Inl e
      | Inr (hdr, body, rest) \<Rightarrow>
          (case plain_body lib hdr body of
             Inl e \<Rightarrow> Inl e
           | Inr body_for_records \<Rightarrow>
               if bh_records_count hdr < 0 then Inl (RecordParse ''negative records_count'')
               else rbind (labelled ''record'' (repeat_read parse_one_record (nat (bh_records_count hdr)) body_for_records))
                 (\<lambda>records left.
                    if left \<noteq> [] then Inl (RecordParse ''trailing bytes after records'')
                    else Inr (batch_of hdr records, rest))))"
  by (simp add: batch_decode_def decode_frame_checked decode_records_repeat rbind_def Let_def split: sum.splits prod.splits)

lemma i16_ok_sint: "i16_ok (sint (a :: 16 word))"
  using sint_lt [of a] sint_ge [of a] by (simp add: i16_ok_def)

definition head_fields :: "u32 \<Rightarrow> record_batch \<Rightarrow> int \<Rightarrow> int \<Rightarrow> batch_header" where
  "head_fields crc b bl cnt = \<lparr>bh_base_offset = rb_base_offset b, bh_batch_length = bl,
     bh_partition_leader_epoch = rb_partition_leader_epoch b, bh_magic = 2, bh_crc = crc,
     bh_attributes = rb_attributes b, bh_last_offset_delta = rb_last_offset_delta b,
     bh_base_timestamp = rb_base_timestamp b, bh_max_timestamp = rb_max_timestamp b,
     bh_producer_id = rb_producer_id b, bh_producer_epoch = rb_producer_epoch b,
     bh_base_sequence = rb_base_sequence b, bh_records_count = cnt\<rparr>"

definition put_head :: "u32 \<Rightarrow> record_batch \<Rightarrow> int \<Rightarrow> int \<Rightarrow> bytes" where
  "put_head crc b bl cnt = put_i64 (rb_base_offset b) @ put_i32 bl @ put_i32 (rb_partition_leader_epoch b)
     @ put_i8 2 @ put_u32 crc @ covered_head b cnt"

lemma length_covered_head [simp]: "length (covered_head b cnt) = 40"
  by (simp add: covered_head_def)

lemma length_put_head [simp]: "length (put_head crc b bl cnt) = 61"
  by (simp add: put_head_def)

lemma drop_put_head: "drop 21 (put_head crc b bl cnt) = covered_head b cnt"
proof -
  have "put_head crc b bl cnt = (put_i64 (rb_base_offset b) @ put_i32 bl @ put_i32 (rb_partition_leader_epoch b)
     @ put_i8 2 @ put_u32 crc) @ covered_head b cnt" by (simp add: put_head_def)
  moreover have "length (put_i64 (rb_base_offset b) @ put_i32 bl @ put_i32 (rb_partition_leader_epoch b)
     @ put_i8 2 @ put_u32 crc) = 21" by simp
  ultimately show ?thesis by (metis append_eq_conv_conj)
qed

lemma read_put_head:
  assumes "batch_ok b" and "i32_ok bl" and "i32_ok cnt"
  shows "read_header (put_head crc b bl cnt @ rest) = Inr (head_fields crc b bl cnt, rest)"
  using assms by (simp add: read_header_def read_header_tail_def put_head_def covered_head_def head_fields_def
      batch_ok_def i16_ok_sint i8_ok_def)

lemma ref_put_head:
  assumes "batch_ok b" and "i32_ok bl" and "i32_ok cnt"
  shows "ref_from_bytes (put_head crc b bl cnt) = Inr (head_fields crc b bl cnt)"
  using read_put_head [OF assms, of crc "[]"] by (simp add: ref_from_bytes_def)

lemma take_drop_prefix: "length h = n \<Longrightarrow> take n (h @ t) = h \<and> drop n (h @ t) = t"
  by simp

lemma checked_frame_put:
  assumes "batch_ok b" and "i32_ok (49 + int (length body))" and "i32_ok cnt"
    and crc: "crc = bl_crc32c_append lib (bl_crc32c lib (covered_head b cnt)) body"
  shows "checked_frame lib (put_head crc b (49 + int (length body)) cnt @ body @ rest) =
    Inr (head_fields crc b (49 + int (length body)) cnt, body, rest)"
proof -
  have "i32_ok (int (length body))" using assms(2) by (simp add: int_width)
  then show ?thesis
    using ref_put_head [OF assms(1-3), of crc] drop_put_head [of crc b "49 + int (length body)" cnt]
    by (simp add: checked_frame_def HEADER_LEN_def CRC_COVERAGE_START_def HEADER_TAIL_LEN_def Let_def head_fields_def crc)
qed

lemma batch_encode_Inr:
  assumes "batch_encode lib b = Some (Inr out)"
  obtains raw body where "encode_records (rb_records b) = Inr raw"
    "attr_compression (rb_attributes b) = CNone \<longrightarrow> body = raw"
    "attr_compression (rb_attributes b) \<noteq> CNone \<longrightarrow>
       compress (bl_codecs lib) (attr_compression (rb_attributes b)) raw = Some (Inr body)"
    "length body \<le> 2147483647" "length (rb_records b) \<le> 2147483647"
    "out = put_head (bl_crc32c_append lib (bl_crc32c lib (covered_head b (int (length (rb_records b))))) body) b
       (49 + int (length body)) (int (length (rb_records b))) @ body"
  using assms
  by (auto simp: batch_encode_def Let_def len_i32_def HEADER_TAIL_LEN_def put_head_def
      split: sum.splits if_splits option.splits)

lemma parse_encode_records:
  "list_all record_ok rs \<Longrightarrow> encode_records rs = Inr out \<Longrightarrow>
   repeat_read parse_one_record (length rs) (out @ rest) = Inr (rs, rest)"
proof (induction rs arbitrary: out)
  case (Cons r rs)
  then obtain x y where "encode_record r = Inr x" "encode_records rs = Inr y" "out = x @ y"
    by (auto simp: then_put_Inr)
  then show ?case using Cons parse_encode_record(1) [of r x] by simp
qed simp

lemma length_encode_records:
  "list_all record_ok rs \<Longrightarrow> encode_records rs = Inr out \<Longrightarrow> length out = sum_list (map record_encoded_len rs)"
proof (induction rs arbitrary: out)
  case (Cons r rs)
  then obtain x y where "encode_record r = Inr x" "encode_records rs = Inr y" "out = x @ y"
    by (auto simp: then_put_Inr)
  then show ?case using Cons parse_encode_record(2) [of r x] by simp
qed simp

lemma batch_of_head: "batch_of (head_fields crc b bl cnt) (rb_records b) = b"
  by (simp add: batch_of_def head_fields_def)

lemma batch_decode_encode:
  assumes "batch_ok b" and "batch_encode lib b = Some (Inr out)" and "length out \<le> 2147483659"
    and "codec_laws (bl_codecs lib)"
    and "sum_list (map record_encoded_len (rb_records b)) \<le> bl_output_limit lib (length out - 61)"
  shows "batch_decode lib (out @ rest) = Inr (b, rest)"
proof -
  let ?cnt = "int (length (rb_records b))"
  obtain raw body where raw: "encode_records (rb_records b) = Inr raw"
    and plain: "attr_compression (rb_attributes b) = CNone \<longrightarrow> body = raw"
    and packed: "attr_compression (rb_attributes b) \<noteq> CNone \<longrightarrow>
       compress (bl_codecs lib) (attr_compression (rb_attributes b)) raw = Some (Inr body)"
    and small: "length body \<le> 2147483647" "length (rb_records b) \<le> 2147483647"
    and out: "out = put_head (bl_crc32c_append lib (bl_crc32c lib (covered_head b ?cnt)) body) b
       (49 + int (length body)) ?cnt @ body"
    using assms(2) by (rule batch_encode_Inr)
  have fits: "i32_ok (49 + int (length body))" "i32_ok ?cnt" using assms(3) small by (simp_all add: out int_width)
  note frame = checked_frame_put [OF assms(1) fits refl]
  have "length raw \<le> bl_output_limit lib (length body)"
    using assms(1,5) length_encode_records [OF _ raw] by (simp add: out batch_ok_def)
  then have "decompress (bl_codecs lib) (attr_compression (rb_attributes b)) body (bl_output_limit lib (length body)) = Inr raw"
    if "attr_compression (rb_attributes b) \<noteq> CNone"
    using compress_decompress [OF assms(4)] packed that by blast
  then have body: "plain_body lib (head_fields crc b bl cnt) body = Inr raw" for crc bl cnt
    using plain by (simp add: plain_body_def Let_def head_fields_def)
  have "repeat_read parse_one_record (length (rb_records b)) raw = Inr (rb_records b, [])"
    using parse_encode_records [OF _ raw, of "[]"] assms(1) by (simp add: batch_ok_def)
  moreover have "bh_records_count (head_fields crc b bl ?cnt) = ?cnt" for crc bl by (simp add: head_fields_def)
  ultimately show ?thesis by (simp add: batch_decode_frame out frame body batch_of_head)
qed

text \<open>
  C17. Batch round trip: a batch whose fields have their widths is decoded to itself from what \<open>encode\<close>
  wrote, with any codec that decodes what it encodes and any bytes after it, as long as the batch is
  small enough for its \<open>i32\<close> length field and the decompression policy allows its records.
\<close>

theorem batch_roundtrip:
  assumes "batch_ok b" and "batch_encode lib b = Some (Inr out)" and "length out \<le> 2147483659"
    and "codec_laws (bl_codecs lib)"
    and "sum_list (map record_encoded_len (rb_records b)) \<le> bl_output_limit lib (length out - 61)"
  shows "batch_decode lib (out @ rest) = Inr (b, rest)"
  using assms by (rule batch_decode_encode)

text \<open>Instances for the witnesses: a constant checksum, stored codecs and no output limit below 1 GiB.\<close>

definition plain_lib :: batch_lib where
  "plain_lib = \<lparr>bl_crc32c = \<lambda>bs. 7, bl_crc32c_append = \<lambda>c bs. c, bl_codecs = stored_lib, bl_output_limit = \<lambda>n. 1073741824\<rparr>"

definition gzip_batch :: record_batch where
  "gzip_batch = record_batch_default\<lparr>rb_attributes := 1\<rparr>"

lemma encode_gzip_batch:
  "batch_encode plain_lib gzip_batch = Some (Inr (put_head 7 gzip_batch 50 0 @ [1]))"
  by (simp add: batch_encode_def gzip_batch_def record_batch_default_def attr_compression_def from_attribute_bits_def
      plain_lib_def stored_lib_def compress_def gzip_compress_def len_i32_def Let_def put_head_def HEADER_TAIL_LEN_def)

lemma gzip_batch_ok: "batch_ok gzip_batch"
  by (simp add: gzip_batch_def record_batch_default_def batch_ok_def int_width i16_ok_def)

theorem batch_roundtrip_witness:
  "batch_decode plain_lib ((put_head 7 gzip_batch 50 0 @ [1]) @ [9]) = Inr (gzip_batch, [9])"
  by (rule batch_roundtrip [OF gzip_batch_ok encode_gzip_batch])
     (simp_all add: plain_lib_def stored_lib_laws gzip_batch_def record_batch_default_def)

section \<open>The unchecked length addition\<close>

text \<open>
  C40. The one hole of the encoder: a batch whose body is longer than \<open>i32::MAX - 49\<close> bytes (but still
  fits an \<open>i32\<close>) is encoded without an error, with a batch length that has wrapped to a negative
  number, and no decoder accepts it again.
\<close>

theorem oversized_batch_unreadable:
  assumes "batch_ok b" and "batch_encode lib b = Some (Inr out)" and "2147483659 < length out"
  shows "batch_decode lib (out @ rest) = Inl (RecordParse ''negative or oversized batch_length'')"
proof -
  let ?cnt = "int (length (rb_records b))"
  obtain raw body where small: "length body \<le> 2147483647" "length (rb_records b) \<le> 2147483647"
    and out: "out = put_head (bl_crc32c_append lib (bl_crc32c lib (covered_head b ?cnt)) body) b
       (49 + int (length body)) ?cnt @ body"
    using assms(2) by (rule batch_encode_Inr)
  let ?bl = "49 + int (length body) - 2 ^ 32"
  have big: "2147483598 < length body" using assms(3) by (simp add: out)
  have wrap: "put_head crc b (49 + int (length body)) cnt = put_head crc b ?bl cnt" for crc cnt
  proof -
    have "(word_of_int (49 + int (length body)) :: 32 word) = word_of_int ?bl"
      by simp
    then show ?thesis by (simp only: put_head_def put_i32_def)
  qed
  have "i32_ok ?bl" "i32_ok ?cnt" using big small by (simp_all add: int_width)
  from ref_put_head [OF assms(1) this]
  have "checked_frame lib (put_head crc b ?bl ?cnt @ body @ rest) =
      Inl (RecordParse ''negative or oversized batch_length'')" for crc
    using small(1) by (simp add: checked_frame_def HEADER_LEN_def HEADER_TAIL_LEN_def Let_def head_fields_def)
  then show ?thesis unfolding batch_decode_frame out wrap by simp
qed

definition two_gigabytes :: record_batch where
  "two_gigabytes = record_batch_default\<lparr>rb_records :=
     [\<lparr>r_attributes = 0, r_timestamp_delta = 0, r_offset_delta = 0, r_key = None,
       r_value = Some (replicate 2147483600 0), r_headers = []\<rparr>]\<rparr>"

lemma encode_two_gigabytes:
  obtains out where "batch_encode plain_lib two_gigabytes = Some (Inr out)" and "2147483659 < length out"
proof -
  let ?r = "hd (rb_records two_gigabytes)"
  have len: "1 \<le> varlong_len v" "varlong_len v \<le> 10" "1 \<le> varint_len w" "varint_len w \<le> 5" for v w
    using varlong_len_range varint_len_range by blast+
  have r: "rb_records two_gigabytes = [?r]" "r_value ?r = Some (replicate 2147483600 0)" "r_headers ?r = []" "r_key ?r = None"
    by (simp_all add: two_gigabytes_def)
  obtain body where body: "encode_body ?r = Inr body"
    using r by (simp add: encode_body_def then_put_def put_nullable_sized_def put_sized_def put_count_def len_i32_def)
  have bl: "record_body_len ?r = length body" using length_encode_body [OF body] by simp
  have range: "2147483603 \<le> record_body_len ?r" "record_body_len ?r \<le> 2147483631"
    using len(1,2) [of 0] len(3,4) [of 0] len(3,4) [of "- 1"] len(3,4) [of 2147483600]
    by (simp_all add: record_body_len_def two_gigabytes_def sized_len_def len_or_max_def len_i32_def)
  obtain x where x: "encode_record ?r = Inr x"
    using range body by (simp add: encode_record_def then_put_def int_width)
  have "length x = record_encoded_len ?r"
    using parse_encode_record(2) [OF _ x] by (simp add: two_gigabytes_def record_ok_def i8_ok_def int_width)
  then have x_len: "2147483599 \<le> length x" "length x \<le> 2147483641"
    using range len(2) [of "int (record_body_len ?r)"] by (simp_all add: record_encoded_len_def)
  have "encode_records (rb_records two_gigabytes) = Inr x" using x r(1) by (metis append_Nil2 encode_records.simps then_put_Inr)
  moreover have "attr_compression (rb_attributes two_gigabytes) = CNone" "length (rb_records two_gigabytes) = 1"
    by (simp_all add: two_gigabytes_def record_batch_default_def attr_compression_def from_attribute_bits_def)
  ultimately have "\<exists>h. batch_encode plain_lib two_gigabytes = Some (Inr (h @ x)) \<and> length h = 61"
    using x_len by (simp add: batch_encode_def Let_def len_i32_def)
  then show thesis using that x_len by auto
qed

lemma two_gigabytes_ok: "batch_ok two_gigabytes"
  by (simp add: two_gigabytes_def record_batch_default_def batch_ok_def record_ok_def int_width i8_ok_def i16_ok_def)

theorem oversized_batch_unreadable_witness:
  "\<exists>out. batch_encode plain_lib two_gigabytes = Some (Inr out) \<and>
     batch_decode plain_lib (out @ []) = Inl (RecordParse ''negative or oversized batch_length'')"
  using encode_two_gigabytes oversized_batch_unreadable [OF two_gigabytes_ok] by metis

section \<open>The three decoders\<close>

lemma checked_frame_rest:
  assumes "checked_frame lib buf = Inr f" and "f = (hdr, body, rest)"
  shows "rest = drop (HEADER_LEN + length body) buf"
  using assms by (auto simp: checked_frame_def Let_def min_def add.commute split: if_splits sum.splits)

lemma repeat_read_length: "repeat_read f k buf = Inr (xs, rest) \<Longrightarrow> length xs = k"
  by (induction k arbitrary: buf xs) (auto simp: rbind_def split: sum.splits prod.splits)

lemma checked_frame_facts:
  assumes "checked_frame lib buf = Inr (hdr, body, rest)"
  shows "bh_magic hdr = 2" and "bh_batch_length hdr = 49 + int (length body)"
    and "bh_crc hdr = bl_crc32c_append lib (bl_crc32c lib (take 40 (drop 21 buf))) body" and "rest = drop (HEADER_LEN + length body) buf"
  using assms checked_frame_rest [OF assms refl]
  by (auto simp: checked_frame_def Let_def HEADER_TAIL_LEN_def HEADER_LEN_def CRC_COVERAGE_START_def drop_take
      split: if_splits sum.splits)

lemma batch_of_header: "bh_magic h = 2 \<Longrightarrow> head_fields (bh_crc h) (batch_of h rs) (bh_batch_length h) (bh_records_count h) = h"
  by (simp add: head_fields_def batch_of_def)

text \<open>
  C20. Produce-path validation is exact: a batch passes \<open>validate_one_v2_batch\<close> and \<open>validate_records\<close> if
  and only if the full decoder accepts it. Then the validated length is what the decoder consumes, the
  validated header carries every field of the decoded batch, version 2, the number of its records and
  the length of the body, and its CRC is that of the covered bytes.
\<close>

theorem validation_exact:
  "(case validate_one_v2_batch lib buf of
      Inl e \<Rightarrow> batch_decode lib buf = Inl e
    | Inr v \<Rightarrow>
        (case validate_records lib v of
           Inl e \<Rightarrow> (\<exists>e'. batch_decode lib buf = Inl e')
         | Inr _ \<Rightarrow> (\<exists>b. batch_decode lib buf = Inr (b, drop (vb_total_len v) buf)
               \<and> vb_header v = head_fields (bh_crc (vb_header v)) b (int (vb_total_len v) - 12) (int (length (rb_records b)))
               \<and> bh_crc (vb_header v) = bl_crc32c_append lib (bl_crc32c lib (take 40 (drop 21 buf))) (vb_raw_body v))))"
proof (cases "checked_frame lib buf")
  case (Inr f)
  obtain hdr body rest where f: "f = (hdr, body, rest)" by (cases f)
  note facts = checked_frame_facts [OF Inr [unfolded f]]
  define v where "v = \<lparr>vb_header = hdr, vb_total_len = HEADER_LEN + length body, vb_raw_body = body\<rparr>"
  have v: "validate_one_v2_batch lib buf = Inr v" using Inr f by (simp add: validate_one_v2_batch_def v_def)
  let ?records = "\<lambda>out. labelled ''record'' (repeat_read parse_one_record (nat (bh_records_count hdr)) out)"
  have head: "head_fields (bh_crc hdr) (batch_of hdr rs) (int (HEADER_LEN + length body) - 12) (bh_records_count hdr) = hdr" for rs
    using batch_of_header [OF facts(1), of rs] facts(2) by (simp add: HEADER_LEN_def)
  have stage: "validate_records lib v =
      (if bh_records_count hdr < 0 then Inl (RecordParse ''negative records_count'')
       else case plain_body lib hdr body of
         Inl e \<Rightarrow> Inl e
       | Inr out \<Rightarrow> (case ?records out of
           Inl e \<Rightarrow> Inl e
         | Inr (rs, left) \<Rightarrow> if left \<noteq> [] then Inl (RecordParse ''trailing bytes after records'') else Inr ()))"
    by (simp add: v_def validate_records_def plain_body_def validate_loop_repeat Let_def split: sum.splits prod.splits)
  show ?thesis
  proof (cases "\<exists>out rs. 0 \<le> bh_records_count hdr \<and> plain_body lib hdr body = Inr out \<and> ?records out = Inr (rs, [])")
    case True
    then obtain out rs where ok: "0 \<le> bh_records_count hdr" "plain_body lib hdr body = Inr out" "?records out = Inr (rs, [])" by blast
    then have "int (length rs) = bh_records_count hdr"
      using repeat_read_length [of parse_one_record "nat (bh_records_count hdr)" out rs "[]"] by (auto simp: labelled_def split: sum.splits)
    then show ?thesis using ok head [of rs] facts(3,4) Inr f v stage
      by (simp add: batch_decode_frame v_def batch_of_def)
  next
    case False
    then show ?thesis using Inr f v stage
      by (auto simp: batch_decode_frame rbind_def not_less split: sum.splits prod.splits if_splits)
  qed
qed (simp add: validate_one_v2_batch_def batch_decode_frame)

text \<open>
  C27. The lazily parsed batch agrees with the eager decoder: whatever \<open>RecordBatch::decode\<close> accepts,
  the borrowed decode followed by \<open>to_owned\<close> gives as the same batch, with the same bytes left over. The
  two have their own framing, decompression, record loop and field copies.
\<close>

theorem borrowed_batch_agrees:
  assumes "batch_decode lib buf = Inr (b, rest)"
  shows "\<exists>bb. decode_borrow lib buf = Inr (bb, rest) \<and> to_owned bb = Inr b"
proof -
  obtain hdr body out rs where frame: "checked_frame lib buf = Inr (hdr, body, rest)" and out: "plain_body lib hdr body = Inr out"
    and cnt: "0 \<le> bh_records_count hdr"
    and rs: "repeat_read parse_one_record (nat (bh_records_count hdr)) out = Inr (rs, [])" and b: "b = batch_of hdr rs"
    using assms by (auto simp: batch_decode_frame rbind_def labelled_def not_less split: sum.splits prod.splits if_splits)
  obtain bb where bb: "decode_borrow lib buf = Inr (bb, rest)" "bb_header bb = hdr"
    "(case bb_body bb of Borrowed s \<Rightarrow> s | Owned s \<Rightarrow> s) = out"
    using frame out by (auto simp: decode_borrow_def borrow_frame_checked plain_body_def Let_def split: if_splits sum.splits)
  have "owned_loop (batch_iter bb) = Inr rs"
    using owned_loop_repeat [of out 0 "nat (bh_records_count hdr)"] rs cnt bb by (simp add: batch_iter_def)
  then show ?thesis using bb b by (simp add: to_owned_def batch_of_def)
qed

theorem borrowed_batch_agrees_witness:
  "\<exists>bb. decode_borrow plain_lib (put_head 7 gzip_batch 50 0 @ [1]) = Inr (bb, []) \<and> to_owned bb = Inr gzip_batch"
proof (rule borrowed_batch_agrees)
  have "checked_frame plain_lib (put_head 7 gzip_batch 50 0 @ [1]) = Inr (head_fields 7 gzip_batch 50 0, [1], [])"
    using checked_frame_put [OF gzip_batch_ok, of "[1]" 0 7 plain_lib "[]"] by (simp add: int_width plain_lib_def)
  then show "batch_decode plain_lib (put_head 7 gzip_batch 50 0 @ [1]) = Inr (gzip_batch, [])"
    by (simp add: batch_decode_frame plain_body_def Let_def head_fields_def attr_compression_def from_attribute_bits_def
        gzip_batch_def record_batch_default_def plain_lib_def decompress_def gzip_decompress_def stored_lib_def
        cap_output_def read_limited_def batch_of_def)
qed

section \<open>The in-place patch\<close>

lemma read_header_split:
  assumes "length A = 8" and "length L = 4" and "length E = 4"
  shows "read_header (A @ L @ E @ T) =
    read_header_tail (sint (be_word A :: 64 word)) (sint (be_word L :: 32 word)) (sint (be_word E :: 32 word)) T"
  using assms by (simp add: read_header_def get_i64_def get_i32_def)

lemma read_header_tail_fields:
  "read_header_tail bo bl le T = Inr (h, r) \<Longrightarrow>
   read_header_tail bo' bl le' T = Inr (h\<lparr>bh_base_offset := bo', bh_partition_leader_epoch := le'\<rparr>, r)"
  unfolding read_header_tail_def by (auto simp: rbind_def split: sum.splits prod.splits)

lemma ref_from_bytes_patch:
  assumes "ref_from_bytes (A @ L @ E @ T) = Inr hdr" and "length A = 8" and "length L = 4" and "length E = 4"
    and "i64_ok bo" and "i32_ok le"
  shows "ref_from_bytes (put_i64 bo @ L @ put_i32 le @ T) =
    Inr (hdr\<lparr>bh_base_offset := bo, bh_partition_leader_epoch := le\<rparr>)"
proof -
  have "read_header (A @ L @ E @ T) = Inr (hdr, [])"
    using assms(1) by (auto simp: ref_from_bytes_def split: sum.splits prod.splits list.splits)
  then have *: "read_header_tail bo (sint (be_word L :: 32 word)) le T =
      Inr (hdr\<lparr>bh_base_offset := bo, bh_partition_leader_epoch := le\<rparr>, [])"
    unfolding read_header_split [OF assms(2-4)] by (rule read_header_tail_fields)
  have "sint (be_word (put_i64 bo) :: 64 word) = bo" "sint (be_word (put_i32 le) :: 32 word) = le"
    using assms(5,6) by (simp_all add: put_i64_def put_i32_def be_word_be_bytes_full sint_of_int_ok int_width)
  then have "read_header (put_i64 bo @ L @ put_i32 le @ T) =
      Inr (hdr\<lparr>bh_base_offset := bo, bh_partition_leader_epoch := le\<rparr>, [])"
    using read_header_split [of "put_i64 bo" L "put_i32 le" T] assms(3) * by simp
  then show ?thesis by (simp add: ref_from_bytes_def)
qed

lemma patch_parts:
  assumes "length A = 8" and "length L = 4" and "length E = 4" and "45 \<le> length T"
  shows "patch_base_offset_and_leader_epoch (A @ L @ E @ T) bo le = Some (put_i64 bo @ L @ put_i32 le @ T)"
  using assms by (simp add: patch_base_offset_and_leader_epoch_def HEADER_LEN_def Let_def)

lemma header_parts:
  assumes "HEADER_LEN \<le> length buf"
  obtains A L E T where "buf = A @ L @ E @ T" "length A = 8" "length L = 4" "length E = 4" "45 \<le> length T"
proof
  show "buf = take 8 buf @ take 4 (drop 8 buf) @ take 4 (drop 12 buf) @ drop 16 buf"
    using append_take_drop_id [of 4 "drop 12 buf"] append_take_drop_id [of 4 "drop 8 buf"] by simp
qed (use assms in \<open>simp_all add: HEADER_LEN_def\<close>)

lemma checked_frame_patch:
  assumes "checked_frame lib buf = Inr (hdr, body, rest)" and "i64_ok base_offset" and "i32_ok leader_epoch"
  shows "\<exists>buf'. patch_base_offset_and_leader_epoch buf base_offset leader_epoch = Some buf' \<and>
     checked_frame lib buf' =
       Inr (hdr\<lparr>bh_base_offset := base_offset, bh_partition_leader_epoch := leader_epoch\<rparr>, body, rest)"
proof -
  have "HEADER_LEN \<le> length buf" using assms(1) by (auto simp: checked_frame_def split: if_splits)
  then obtain A L E T where parts: "buf = A @ L @ E @ T" "length A = 8" "length L = 4" "length E = 4" "45 \<le> length T"
    by (rule header_parts)
  have take: "take 61 (X @ L @ Y @ T) = X @ L @ Y @ take 45 T" "drop 61 (X @ L @ Y @ T) = drop 45 T"
    "drop 21 (X @ L @ Y @ take 45 T) = drop 5 (take 45 T)" if "length X = 8" "length Y = 4" for X Y :: bytes
    using that parts by simp_all
  let ?hdr = "hdr\<lparr>bh_base_offset := base_offset, bh_partition_leader_epoch := leader_epoch\<rparr>"
  have ref: "ref_from_bytes (A @ L @ E @ take 45 T) = Inr hdr"
    using assms(1) parts take(1) [of A E]
    by (auto simp: checked_frame_def HEADER_LEN_def Let_def split: if_splits sum.splits)
  have ref': "ref_from_bytes (put_i64 base_offset @ L @ put_i32 leader_epoch @ take 45 T) = Inr ?hdr"
    by (rule ref_from_bytes_patch [OF ref parts(2-4) assms(2,3)])
  have "checked_frame lib (put_i64 base_offset @ L @ put_i32 leader_epoch @ T) = Inr (?hdr, body, rest)"
    using assms(1) parts ref ref' take [of A E] take [of "put_i64 base_offset" "put_i32 leader_epoch"]
    by (simp add: checked_frame_def HEADER_LEN_def CRC_COVERAGE_START_def Let_def split: if_splits)
  then show ?thesis using patch_parts [OF parts(2-5)] parts(1) by blast
qed

text \<open>
  C26. Stamping the assigned base offset and the leader epoch into a validated batch changes those two
  header fields and nothing else: the patched bytes pass the same CRC check with the same body and
  the same bytes after it.
\<close>

theorem patch_keeps_crc:
  assumes "checked_frame lib buf = Inr (hdr, body, rest)" and "i64_ok base_offset" and "i32_ok leader_epoch"
  shows "\<exists>buf'. patch_base_offset_and_leader_epoch buf base_offset leader_epoch = Some buf' \<and>
     checked_frame lib buf' =
       Inr (hdr\<lparr>bh_base_offset := base_offset, bh_partition_leader_epoch := leader_epoch\<rparr>, body, rest)"
  using assms by (rule checked_frame_patch)

theorem patch_keeps_crc_witness:
  "\<exists>buf'. patch_base_offset_and_leader_epoch (put_head 7 gzip_batch 50 0 @ [1] @ []) 500 3 = Some buf' \<and>
     checked_frame plain_lib buf' = Inr ((head_fields 7 gzip_batch 50 0)
        \<lparr>bh_base_offset := 500, bh_partition_leader_epoch := 3\<rparr>, [1], [])"
proof -
  have "checked_frame plain_lib (put_head 7 gzip_batch 50 0 @ [1] @ []) = Inr (head_fields 7 gzip_batch 50 0, [1], [])"
    using checked_frame_put [OF gzip_batch_ok, of "[1]" 0 7 plain_lib "[]"] by (simp add: int_width plain_lib_def)
  from patch_keeps_crc [OF this, of 500 3] show ?thesis by (simp add: int_width)
qed

section \<open>Delete horizon\<close>

definition absolute_timestamps :: "record_batch \<Rightarrow> int list" where
  "absolute_timestamps b = map (\<lambda>r. rb_base_timestamp b + r_timestamp_delta r) (rb_records b)"

lemma horizon_flags:
  "is_control_batch (attr_with_delete_horizon a b) = is_control_batch a" "has_delete_horizon (attr_with_delete_horizon a True)"
  by (simp_all add: attr_flags attr_with_delete_horizon_def bit_or_iff bit_and_iff)

text \<open>
  Stamping a delete horizon keeps every record's absolute timestamp, its key, value, offset and
  headers, sets the horizon that is read back, and leaves codec, control and transactional bits alone,
  whenever the timestamps and their distance to the horizon are \<open>i64\<close> values.
\<close>

theorem delete_horizon_keeps_timestamps:
  assumes "list_all (\<lambda>t. i64_ok t \<and> i64_ok (t - horizon)) (absolute_timestamps b)"
    and "b' = with_delete_horizon b horizon"
  shows "absolute_timestamps b' = absolute_timestamps b \<and> delete_horizon_ms b' = Some horizon
    \<and> map r_key (rb_records b') = map r_key (rb_records b)
    \<and> map r_value (rb_records b') = map r_value (rb_records b)
    \<and> map r_offset_delta (rb_records b') = map r_offset_delta (rb_records b)
    \<and> is_control_batch (rb_attributes b') = is_control_batch (rb_attributes b)
    \<and> attr_compression (rb_attributes b') = attr_compression (rb_attributes b)"
  using assms(1)
  by (auto simp: assms(2) absolute_timestamps_def with_delete_horizon_def Let_def list_all_iff
      i64_saturating_add_def i64_saturating_sub_def delete_horizon_ms_def attr_compression_keep
      horizon_flags)

theorem delete_horizon_keeps_timestamps_witness:
  "absolute_timestamps (with_delete_horizon (record_batch_default\<lparr>rb_base_timestamp := 1000, rb_records :=
     [\<lparr>r_attributes = 0, r_timestamp_delta = 5, r_offset_delta = 0, r_key = None, r_value = None, r_headers = []\<rparr>]\<rparr>) 9999)
   = [1005]"
  using delete_horizon_keeps_timestamps [OF _ refl, of 9999 "record_batch_default\<lparr>rb_base_timestamp := 1000, rb_records :=
     [\<lparr>r_attributes = 0, r_timestamp_delta = 5, r_offset_delta = 0, r_key = None, r_value = None, r_headers = []\<rparr>]\<rparr>"]
  by (simp add: absolute_timestamps_def record_batch_default_def int_width)

section \<open>Counting without decoding\<close>

lemma put_head_magic: "(put_head crc b bl cnt @ rest) ! 16 = 2"
  by (simp add: put_head_def nth_append put_i8_single)

definition encodes :: "batch_lib \<Rightarrow> record_batch \<Rightarrow> bytes \<Rightarrow> bool" where
  "encodes lib b out \<longleftrightarrow> batch_ok b \<and> batch_encode lib b = Some (Inr out) \<and> length out \<le> 2147483659"

lemma count_loop_step:
  assumes "encodes lib b out"
  shows "count_loop (out @ rest) n = count_loop rest (n + length (rb_records b))"
    and "16 < length out" and "(out @ rest) ! 16 = 2"
proof -
  let ?cnt = "int (length (rb_records b))"
  obtain raw body where small: "length body \<le> 2147483647" "length (rb_records b) \<le> 2147483647"
    and out: "out = put_head (bl_crc32c_append lib (bl_crc32c lib (covered_head b ?cnt)) body) b
       (49 + int (length body)) ?cnt @ body"
    using assms unfolding encodes_def by (blast elim: batch_encode_Inr)
  have fits: "i32_ok (49 + int (length body))" "i32_ok ?cnt"
    using assms small by (simp_all add: encodes_def out int_width)
  have ok: "batch_ok b" using assms by (simp add: encodes_def)
  show "count_loop (out @ rest) n = count_loop rest (n + length (rb_records b))"
    using ref_put_head [OF ok fits] put_head_magic
    by (subst count_loop.simps) (simp add: out HEADER_LEN_def head_fields_def nat_add_distrib)
  show "16 < length out" "(out @ rest) ! 16 = 2" using put_head_magic by (simp_all add: out)
qed

text \<open>
  The metrics helper counts exactly: over any concatenation of encoded batches it returns the
  number of records in them, without looking into a body.
\<close>

theorem count_records_exact:
  assumes "list_all2 (encodes lib) bs outs"
  shows "count_records_in_v2_batches (concat outs) = sum_list (map (\<lambda>b. length (rb_records b)) bs)"
proof -
  have loop: "count_loop (concat outs) n = n + sum_list (map (\<lambda>b. length (rb_records b)) bs)" for n
    using assms
  proof (induction arbitrary: n rule: list_all2_induct)
    case Nil
    then show ?case by (simp add: count_loop.simps HEADER_LEN_def)
  next
    case (Cons b bs out outs)
    then show ?case using count_loop_step(1) [OF Cons.hyps(1)] by simp
  qed
  show ?thesis
  proof (cases outs)
    case Nil
    then show ?thesis using assms by (simp add: count_records_in_v2_batches_def)
  next
    case (Cons out more_outs)
    then obtain b where "encodes lib b out" using assms by (auto simp: list_all2_Cons2)
    then show ?thesis
      using count_loop_step(2) [of lib b out] count_loop_step(3) [of lib b out "concat more_outs"] Cons loop [of 0]
      by (simp add: count_records_in_v2_batches_def)
  qed
qed

definition sample_batch :: record_batch where
  "sample_batch = record_batch_default\<lparr>rb_records := [sample_record]\<rparr>"

lemma encodes_sample_batch:
  "encodes plain_lib sample_batch (put_head 7 sample_batch 59 1 @ [18, 0, 34, 4, 2, 107, 4, 104, 105, 0])"
proof -
  have "batch_encode plain_lib sample_batch =
      Some (Inr (put_head 7 sample_batch 59 1 @ [18, 0, 34, 4, 2, 107, 4, 104, 105, 0]))"
    by (simp add: batch_encode_def sample_batch_def record_batch_default_def attr_compression_def from_attribute_bits_def
        encode_sample_record then_put_def plain_lib_def len_i32_def Let_def put_head_def HEADER_TAIL_LEN_def)
  moreover have "batch_ok sample_batch"
    by (simp add: sample_batch_def record_batch_default_def batch_ok_def sample_record_ok int_width i16_ok_def)
  ultimately show ?thesis by (simp add: encodes_def)
qed

theorem count_records_exact_witness:
  "count_records_in_v2_batches (concat [put_head 7 sample_batch 59 1 @ [18, 0, 34, 4, 2, 107, 4, 104, 105, 0],
     put_head 7 sample_batch 59 1 @ [18, 0, 34, 4, 2, 107, 4, 104, 105, 0]]) = 2"
proof -
  let ?out = "put_head 7 sample_batch 59 1 @ [18, 0, 34, 4, 2, 107, 4, 104, 105, 0]"
  have "list_all2 (encodes plain_lib) [sample_batch, sample_batch] [?out, ?out]"
    using encodes_sample_batch by (simp only: list_all2_Cons list_all2_Nil)
  moreover have "sum_list (map (\<lambda>b. length (rb_records b)) [sample_batch, sample_batch]) = 2"
    by (simp add: sample_batch_def)
  ultimately show ?thesis using count_records_exact [of plain_lib "[sample_batch, sample_batch]" "[?out, ?out]"]
    by (simp only:)
qed

end
