(* ===== verification/Verified_Kernels.thy ===== *)
theory Verified_Kernels
  imports Prelude
begin

text \<open>
  The remaining decision kernels of \<open>crates/verified/src\<close>: the binary search of the offset index
  (\<open>log_index.rs\<close>), the offset reservation of the diskless sequencer (\<open>offset_allocator.rs\<close>), the
  Fetch and DeleteRecords arithmetic of the broker (\<open>broker.rs\<close>) and the KIP-534 retain decision of
  the log cleaner (\<open>compaction.rs\<close>). An \<open>i64\<close> is an \<open>int\<close> with the saturating operations of the
  prelude, a \<open>u32\<close> a 32-bit word.
\<close>

section \<open>Offset-index lookup\<close>

text \<open>The \<open>while lo < hi\<close> loop; it returns the final \<open>lo\<close>.\<close>

function oil_loop :: "(u32 \<times> u32) list \<Rightarrow> u32 \<Rightarrow> nat \<Rightarrow> nat \<Rightarrow> nat" where
  "oil_loop entries target lo hi =
     (if lo < hi then
        let mid = lo + (hi - lo) div 2
        in if fst (entries ! mid) \<le> target then oil_loop entries target (mid + 1) hi
           else oil_loop entries target lo mid
      else lo)"
  by pat_completeness auto
termination
  by (relation "measure (\<lambda>(_, _, lo, hi). hi - lo)") (auto simp: Let_def)

declare oil_loop.simps [simp del]

definition offset_index_lookup :: "(u32 \<times> u32) list \<Rightarrow> u32 \<Rightarrow> u32" where
  "offset_index_lookup entries target =
     (let lo = oil_loop entries target 0 (length entries)
      in if lo = 0 then 0 else snd (entries ! (lo - 1)))"

text \<open>The loop ends between the entries at or below the target and those above it.\<close>

lemma oil_loop_partition:
  assumes "lo \<le> hi" and "hi \<le> length entries"
    and "sorted_wrt (<) (map fst entries)"
    and "\<forall>i < lo. fst (entries ! i) \<le> target"
    and "\<forall>i. hi \<le> i \<longrightarrow> i < length entries \<longrightarrow> target < fst (entries ! i)"
  shows "oil_loop entries target lo hi \<le> length entries \<and>
    (\<forall>i < oil_loop entries target lo hi. fst (entries ! i) \<le> target) \<and>
    (\<forall>i. oil_loop entries target lo hi \<le> i \<longrightarrow> i < length entries \<longrightarrow> target < fst (entries ! i))"
  using assms
proof (induction entries target lo hi rule: oil_loop.induct)
  case (1 entries target lo hi)
  let ?mid = "lo + (hi - lo) div 2"
  have mono: "fst (entries ! i) < fst (entries ! j)" if "i < j" "j < length entries" for i j
    using sorted_wrt_nth_less [OF "1.prems"(3), of i j] that by simp
  show ?case
  proof (cases "lo < hi")
    case False
    then have "oil_loop entries target lo hi = lo" by (simp add: oil_loop.simps)
    then show ?thesis using "1.prems" False by simp
  next
    case True
    then have mid: "?mid < hi" "lo \<le> ?mid" by auto
    show ?thesis
    proof (cases "fst (entries ! ?mid) \<le> target")
      case le: True
      have "fst (entries ! i) \<le> target" if "i < ?mid + 1" for i
      proof (cases "i = ?mid")
        case False
        then have "fst (entries ! i) < fst (entries ! ?mid)"
          using that mid "1.prems"(2) by (intro mono) auto
        then show ?thesis using le by order
      qed (use le in simp)
      moreover have "oil_loop entries target lo hi = oil_loop entries target (?mid + 1) hi"
        using True le by (subst oil_loop.simps) (simp add: Let_def)
      ultimately show ?thesis
        using "1.IH"(1) [OF True refl le _ "1.prems"(2,3)] "1.prems"(5) mid by auto
    next
      case gt: False
      have "target < fst (entries ! i)" if "?mid \<le> i" "i < length entries" for i
      proof (cases "i = ?mid")
        case False
        then have "fst (entries ! ?mid) < fst (entries ! i)" using that by (intro mono) auto
        then show ?thesis using gt by order
      qed (use gt in simp)
      moreover have "oil_loop entries target lo hi = oil_loop entries target lo ?mid"
        using True gt by (subst oil_loop.simps) (simp add: Let_def)
      ultimately show ?thesis
        using "1.IH"(2) [OF True refl gt mid(2) _ "1.prems"(3,4)] "1.prems"(2) mid by auto
    qed
  qed
qed

text \<open>The linear reference: the position of the last entry at or below the target, else 0.\<close>

definition floor_position :: "(u32 \<times> u32) list \<Rightarrow> u32 \<Rightarrow> u32" where
  "floor_position entries target =
     (let hits = filter (\<lambda>(rel, _). rel \<le> target) entries
      in if hits = [] then 0 else snd (last hits))"

lemma filter_prefix:
  assumes "k \<le> length xs" and "\<forall>i < k. P (xs ! i)" and "\<forall>i. k \<le> i \<longrightarrow> i < length xs \<longrightarrow> \<not> P (xs ! i)"
  shows "filter P xs = take k xs"
proof -
  have "filter P (take k xs) = take k xs"
    using assms(1,2) by (auto simp: filter_id_conv in_set_conv_nth)
  moreover have "filter P (drop k xs) = []"
    using assms by (auto simp: filter_empty_conv in_set_conv_nth)
  ultimately show ?thesis using filter_append [of P "take k xs" "drop k xs"] by simp
qed

lemma offset_index_lookup_eq:
  assumes "sorted_wrt (<) (map fst entries)"
  shows "offset_index_lookup entries target = floor_position entries target"
proof -
  let ?k = "oil_loop entries target 0 (length entries)"
  have k: "?k \<le> length entries" "\<forall>i < ?k. fst (entries ! i) \<le> target"
    "\<forall>i. ?k \<le> i \<longrightarrow> i < length entries \<longrightarrow> target < fst (entries ! i)"
    using oil_loop_partition [of 0 "length entries" entries target] assms by auto
  have "filter (\<lambda>(rel, _). rel \<le> target) entries = take ?k entries"
    by (rule filter_prefix) (use k in \<open>auto simp: split_def not_le\<close>)
  then show ?thesis
    using k(1)
    by (cases ?k) (auto simp: floor_position_def offset_index_lookup_def Let_def last_conv_nth min_def)
qed

text \<open>
  The binary search of the offset index agrees with a linear scan: on entries that are
  strictly increasing in their relative offset it returns the position of the last entry at or
  below the target, and 0 when there is none. The search always ends, as the window shrinks.
\<close>

theorem offset_index_lookup_floor:
  assumes "sorted_wrt (<) (map fst entries)"
  shows "offset_index_lookup entries target = floor_position entries target"
  using assms by (rule offset_index_lookup_eq)

theorem offset_index_lookup_floor_witness:
  "offset_index_lookup [(0, 0), (100, 4096), (200, 8192)] 150 = 4096"
  using offset_index_lookup_floor [of "[(0, 0), (100, 4096), (200, 8192)]" 150]
  by (simp add: floor_position_def)

section \<open>Offset reservation\<close>

definition reserve_offsets :: "int \<Rightarrow> int \<Rightarrow> int \<times> int" where
  "reserve_offsets next cnt = (next, i64_saturating_add next cnt)"

text \<open>A sequence of reservations, each starting where the previous one ended.\<close>

fun reserve_all :: "int \<Rightarrow> int list \<Rightarrow> (int \<times> int) list" where
  "reserve_all next [] = []"
| "reserve_all next (c # cs) = (let r = reserve_offsets next c in r # reserve_all (snd r) cs)"

lemma reserve_all_from:
  "\<forall>c \<in> set cs. 0 \<le> c \<Longrightarrow> next \<le> i64_MAX \<Longrightarrow> i64_MIN \<le> next \<Longrightarrow>
   \<forall>(b, n) \<in> set (reserve_all next cs). next \<le> b \<and> b \<le> n"
proof (induction cs arbitrary: "next")
  case (Cons c cs)
  have "next \<le> i64_saturating_add next c" "i64_saturating_add next c \<le> i64_MAX"
    "i64_MIN \<le> i64_saturating_add next c"
    using Cons.prems by (auto simp: int_width)
  then show ?case
    using Cons.IH [of "i64_saturating_add next c"] Cons.prems
    by (fastforce simp: reserve_offsets_def Let_def)
qed simp

text \<open>
  Reservations of the diskless sequencer never overlap: any sequence of non-negative
  reservations hands out ranges that are ordered and pairwise disjoint, also when the 64-bit counter
  saturates (the later ranges are then empty).
\<close>

theorem reserve_all_disjoint:
  assumes "\<forall>c \<in> set cs. 0 \<le> c" and "i64_ok next"
  shows "sorted_wrt (\<lambda>(b1, n1) (b2, n2). n1 \<le> b2) (reserve_all next cs)"
  using assms
proof (induction cs arbitrary: "next")
  case (Cons c cs)
  let ?n = "i64_saturating_add next c"
  have ok: "i64_ok ?n" using Cons.prems by (auto simp: int_width)
  then have "\<forall>(b, n) \<in> set (reserve_all ?n cs). ?n \<le> b \<and> b \<le> n"
    using reserve_all_from [of cs ?n] Cons.prems by (auto simp: i64_ok_def)
  then show ?case
    using Cons.IH [OF _ ok] Cons.prems by (auto simp: reserve_offsets_def Let_def)
qed simp

theorem reserve_all_disjoint_witness:
  "sorted_wrt (\<lambda>(b1, n1) (b2, n2). n1 \<le> b2) (reserve_all 9223372036854775800 [5, 0, 10])"
  by (rule reserve_all_disjoint) (simp_all add: int_width)

section \<open>Fetch visibility and DeleteRecords\<close>

record fetch_visibility_result =
  fv_out_of_range :: bool
  fv_empty :: bool
  fv_limit_offset :: int
  fv_effective_lso :: int
  fv_read_committed_aborts :: bool
  fv_response_hw :: int
  fv_response_lso :: int

definition fetch_visibility ::
  "bool \<Rightarrow> bool \<Rightarrow> int \<Rightarrow> int \<Rightarrow> int \<Rightarrow> int \<Rightarrow> int \<Rightarrow> fetch_visibility_result" where
  "fetch_visibility is_follower read_committed log_start hw lso log_end fetch_offset =
     (let upper_bound = (if is_follower then log_end else hw);
          effective_lso = (if read_committed \<and> \<not> is_follower then (if lso < hw then lso else hw) else lso);
          response_hw = (if is_follower then log_end else hw);
          response_lso = (if read_committed \<and> \<not> is_follower then effective_lso
                          else if is_follower then log_end else hw);
          limit_offset = (if is_follower then log_end else if read_committed then effective_lso else hw);
          out_of_range = fetch_offset < log_start
      in \<lparr>fv_out_of_range = out_of_range,
          fv_empty = (\<not> out_of_range \<and> fetch_offset \<ge> upper_bound),
          fv_limit_offset = limit_offset,
          fv_effective_lso = effective_lso,
          fv_read_committed_aborts = (read_committed \<and> \<not> is_follower),
          fv_response_hw = response_hw,
          fv_response_lso = response_lso\<rparr>)"

definition delete_records_target :: "int \<Rightarrow> int \<Rightarrow> int" where
  "delete_records_target requested_offset high_watermark =
     (if requested_offset = -1 then high_watermark else requested_offset)"

definition delete_records_offset_out_of_range :: "int \<Rightarrow> int \<Rightarrow> bool" where
  "delete_records_offset_out_of_range target log_end_offset \<longleftrightarrow> target < 0 \<or> target > log_end_offset"

definition effective_share_backlog :: "int \<Rightarrow> int \<Rightarrow> int \<Rightarrow> int" where
  "effective_share_backlog hwm spso log_start =
     (let base = (if spso \<ge> 0 \<and> spso > log_start then spso else log_start);
          difference = i64_saturating_sub hwm base
      in if difference > 0 then difference else 0)"

text \<open>The offsets a Fetch may return under a visibility window.\<close>

definition visible :: "fetch_visibility_result \<Rightarrow> int \<Rightarrow> int \<Rightarrow> bool" where
  "visible v fetch_offset off \<longleftrightarrow>
     \<not> fv_out_of_range v \<and> \<not> fv_empty v \<and> fetch_offset \<le> off \<and> off < fv_limit_offset v"

text \<open>
  C35. Fetch isolation: a consumer never sees an offset at or above the high watermark, and under
  read-committed isolation none at or above the last stable offset; a follower may read up to the
  log end; every visible offset is retained (not below the log start), and the watermarks reported
  to a consumer never exceed the high watermark.
\<close>

theorem fetch_visibility_isolation:
  assumes "0 \<le> log_start" and "log_start \<le> hw" and "hw \<le> log_end"
    and "v = fetch_visibility is_follower read_committed log_start hw lso log_end fetch_offset"
  shows "(visible v fetch_offset off \<longrightarrow>
            log_start \<le> off \<and> off < log_end \<and>
            (\<not> is_follower \<longrightarrow> off < hw) \<and>
            (\<not> is_follower \<longrightarrow> read_committed \<longrightarrow> off < lso)) \<and>
         (\<not> is_follower \<longrightarrow> fv_response_hw v \<le> hw \<and> fv_response_lso v \<le> hw) \<and>
         (\<not> is_follower \<longrightarrow> \<not> read_committed \<longrightarrow> log_start \<le> fetch_offset \<longrightarrow>
            (fetch_offset \<le> off \<and> off < hw \<longrightarrow> visible v fetch_offset off))"
  using assms by (auto simp: fetch_visibility_def Let_def visible_def)

theorem fetch_visibility_isolation_witness:
  "visible (fetch_visibility False True 0 10 7 12 3) 3 6 \<and> \<not> visible (fetch_visibility False True 0 10 7 12 3) 3 7"
proof -
  have "visible (fetch_visibility False True 0 10 7 12 3) 3 7 \<longrightarrow> (7::int) < 7"
    using fetch_visibility_isolation [of 0 10 12 _ False True 7 3 7, OF _ _ _ refl] by simp
  then show ?thesis by (simp add: visible_def fetch_visibility_def Let_def)
qed

section \<open>The retain decision of the log cleaner\<close>

record record_meta =
  rm_has_key :: bool
  rm_has_value :: bool

record batch_meta =
  bm_is_control :: bool
  bm_producer_id :: int
  bm_existing_horizon :: "int option"

datatype txn_data_state = NotTransactional | DataSurvives | DataFullyGone

datatype retain_outcome = Keep | SetHorizon int | Delete

definition compute_horizon :: "int \<Rightarrow> int \<Rightarrow> int" where
  "compute_horizon now_ms delete_retention_ms = i64_saturating_add now_ms delete_retention_ms"

definition retain_decision ::
  "record_meta \<Rightarrow> batch_meta \<Rightarrow> bool \<Rightarrow> txn_data_state \<Rightarrow> int \<Rightarrow> int \<Rightarrow> retain_outcome" where
  "retain_decision rec batch is_newest_for_key txn now_ms delete_retention_ms =
     (if bm_is_control batch then
        (case txn of
           DataSurvives \<Rightarrow> Keep
         | NotTransactional \<Rightarrow> Keep
         | DataFullyGone \<Rightarrow>
             (case bm_existing_horizon batch of
                Some h \<Rightarrow> if now_ms \<ge> h then Delete else Keep
              | None \<Rightarrow> SetHorizon (compute_horizon now_ms delete_retention_ms)))
      else if \<not> rm_has_key rec then Delete
      else if \<not> is_newest_for_key then Delete
      else if rm_has_value rec then Keep
      else (case bm_existing_horizon batch of
              Some h \<Rightarrow> if now_ms \<ge> h then Delete else Keep
            | None \<Rightarrow> SetHorizon (compute_horizon now_ms delete_retention_ms)))"

text \<open>
  The life of a tombstone or of an orphaned marker over cleaner passes at times \<open>ts\<close>: the first pass
  stamps the batch, the later ones compare the clock with the stamp.
\<close>

fun cleaner_passes :: "record_meta \<Rightarrow> batch_meta \<Rightarrow> txn_data_state \<Rightarrow> int \<Rightarrow> int list \<Rightarrow> batch_meta option" where
  "cleaner_passes rec batch txn retention [] = Some batch"
| "cleaner_passes rec batch txn retention (t # ts) =
     (case retain_decision rec batch True txn t retention of
        Delete \<Rightarrow> None
      | Keep \<Rightarrow> cleaner_passes rec batch txn retention ts
      | SetHorizon h \<Rightarrow> cleaner_passes rec (batch\<lparr>bm_existing_horizon := Some h\<rparr>) txn retention ts)"

definition ages_out :: "record_meta \<Rightarrow> batch_meta \<Rightarrow> txn_data_state \<Rightarrow> bool" where
  "ages_out rec batch txn \<longleftrightarrow>
     (if bm_is_control batch then txn = DataFullyGone else rm_has_key rec \<and> \<not> rm_has_value rec)"

lemma cleaner_passes_stamped:
  assumes "bm_existing_horizon batch = Some h" and "ages_out rec batch txn"
  shows "cleaner_passes rec batch txn retention ts = (if \<exists>t \<in> set ts. h \<le> t then None else Some batch)"
  using assms(1)
proof (induction ts)
  case (Cons t ts)
  have "retain_decision rec batch True txn t retention = (if h \<le> t then Delete else Keep)"
    using assms by (auto simp: retain_decision_def ages_out_def split: if_splits)
  then show ?case using Cons by auto
qed simp

text \<open>
  The delete horizon: a newest-for-key tombstone, and a marker whose transaction has lost all its
  data, is kept by every pass before its first pass plus \<open>delete.retention.ms\<close> and is gone after the
  first pass at or past that time (saturated at the last \<open>i64\<close>).
\<close>

theorem tombstone_retention:
  assumes "bm_existing_horizon batch = None" and "ages_out rec batch txn"
  shows "(cleaner_passes rec batch txn retention (t # ts) = None) \<longleftrightarrow>
    (\<exists>u \<in> set ts. compute_horizon t retention \<le> u)"
proof -
  have "retain_decision rec batch True txn t retention = SetHorizon (compute_horizon t retention)"
    using assms by (auto simp: retain_decision_def ages_out_def split: if_splits)
  moreover have "ages_out rec (batch\<lparr>bm_existing_horizon := Some (compute_horizon t retention)\<rparr>) txn"
    using assms(2) by (simp add: ages_out_def)
  ultimately show ?thesis by (simp add: cleaner_passes_stamped)
qed

theorem tombstone_retention_witness:
  "cleaner_passes \<lparr>rm_has_key = True, rm_has_value = False\<rparr>
      \<lparr>bm_is_control = False, bm_producer_id = - 1, bm_existing_horizon = None\<rparr> NotTransactional 50 [100, 149, 150] = None"
  using tombstone_retention [of "\<lparr>bm_is_control = False, bm_producer_id = - 1, bm_existing_horizon = None\<rparr>"
      "\<lparr>rm_has_key = True, rm_has_value = False\<rparr>" NotTransactional 50 100 "[149, 150]"]
  by (simp add: ages_out_def compute_horizon_def int_width)

end
