(* ===== verification/Log_Index.thy ===== *)
theory Log_Index
  imports Wire_Primitives Verified_Kernels
begin

text \<open>
  The sidecar indexes of a segment (\<open>crates/log/src/index.rs\<close>, \<open>crates/log/src/txn_index.rs\<close>): the
  sparse offset index, the time index and the index of aborted transactions. Each keeps the bytes of
  its file next to the entries it holds in memory. The binary search is the loop of the standard
  library's \<open>binary_search_by_key\<close>, which fixes the choice between equal keys that its documentation
  leaves open.
\<close>

section \<open>Fixed-width rows\<close>

fun rows_of :: "nat \<Rightarrow> bytes \<Rightarrow> bytes list" where
  "rows_of n bs = (if n = 0 \<or> length bs < n then [] else take n bs # rows_of n (drop n bs))"

declare rows_of.simps [simp del]

text \<open>Loading stops at the first row whose key does not increase.\<close>

fun keep_increasing :: "('a \<Rightarrow> 'k::linorder) \<Rightarrow> 'k option \<Rightarrow> 'a list \<Rightarrow> 'a list" where
  "keep_increasing key prev [] = []"
| "keep_increasing key prev (r # rs) =
     (if (case prev of None \<Rightarrow> False | Some p \<Rightarrow> key r \<le> p) then []
      else r # keep_increasing key (Some (key r)) rs)"

function bs_loop :: "('a \<Rightarrow> 'k::linorder) \<Rightarrow> 'k \<Rightarrow> 'a list \<Rightarrow> nat \<Rightarrow> nat \<Rightarrow> nat" where
  "bs_loop key target xs base sz =
     (if sz \<le> 1 then base
      else let half = sz div 2; mid = base + half in
        bs_loop key target xs (if target < key (xs ! mid) then base else mid) (sz - half))"
  by pat_completeness auto
termination
  by (relation "measure (\<lambda>(k, t, xs, b, n). n)") auto

declare bs_loop.simps [simp del]

text \<open>\<open>Inr\<close> is \<open>Ok\<close>, the index of a match; \<open>Inl\<close> is \<open>Err\<close>, the insertion point.\<close>

definition binary_search_by_key :: "('a \<Rightarrow> 'k::linorder) \<Rightarrow> 'k \<Rightarrow> 'a list \<Rightarrow> nat + nat" where
  "binary_search_by_key key target xs =
     (if xs = [] then Inl 0
      else let base = bs_loop key target xs 0 (length xs); k = key (xs ! base) in
        if k = target then Inr base else Inl (base + (if k < target then 1 else 0)))"

section \<open>The offset index\<close>

definition OFFSET_ENTRY_SIZE :: nat where
  "OFFSET_ENTRY_SIZE = 8"

record offset_index =
  oi_file :: bytes
  oi_entries :: "(u32 \<times> u32) list"

definition offset_entry_of :: "bytes \<Rightarrow> u32 \<times> u32" where
  "offset_entry_of r = (be_word (take 4 r), be_word (drop 4 r))"

definition oi_open :: "bytes \<Rightarrow> offset_index" where
  "oi_open file = \<lparr>oi_file = file,
     oi_entries = keep_increasing snd None (map offset_entry_of (rows_of OFFSET_ENTRY_SIZE file))\<rparr>"

definition oi_append :: "offset_index \<Rightarrow> u32 \<Rightarrow> u32 \<Rightarrow> offset_index" where
  "oi_append ix relative_offset position =
     ix\<lparr>oi_file := oi_file ix @ put_u32 relative_offset @ put_u32 position,
        oi_entries := oi_entries ix @ [(relative_offset, position)]\<rparr>"

definition oi_lookup :: "offset_index \<Rightarrow> u32 \<Rightarrow> u32" where
  "oi_lookup ix target = offset_index_lookup (oi_entries ix) target"

text \<open>\<open>set_len\<close> cuts the file, or fills it up with zeros.\<close>

definition set_len :: "bytes \<Rightarrow> nat \<Rightarrow> bytes" where
  "set_len file n = take n file @ replicate (n - length file) 0"

definition oi_truncate_by_position :: "offset_index \<Rightarrow> u32 \<Rightarrow> offset_index" where
  "oi_truncate_by_position ix max_position_exclusive =
     (let new_len = length (takeWhile (\<lambda>(_, pos). pos < max_position_exclusive) (oi_entries ix))
      in ix\<lparr>oi_entries := take new_len (oi_entries ix),
            oi_file := set_len (oi_file ix) (new_len * OFFSET_ENTRY_SIZE)\<rparr>)"

definition oi_position_at_or_after :: "offset_index \<Rightarrow> u32 \<Rightarrow> u32 option" where
  "oi_position_at_or_after ix target =
     (case binary_search_by_key fst target (oi_entries ix) of
        Inr i \<Rightarrow> Some (snd (oi_entries ix ! i))
      | Inl i \<Rightarrow> if i < length (oi_entries ix) then Some (snd (oi_entries ix ! i)) else None)"

definition oi_last_entry :: "offset_index \<Rightarrow> (u32 \<times> u32) option" where
  "oi_last_entry ix = (if oi_entries ix = [] then None else Some (last (oi_entries ix)))"

section \<open>The time index\<close>

definition TIME_ENTRY_SIZE :: nat where
  "TIME_ENTRY_SIZE = 12"

record time_index =
  ti_file :: bytes
  ti_entries :: "(int \<times> u32) list"

definition time_entry_of :: "bytes \<Rightarrow> int \<times> u32" where
  "time_entry_of r = (sint (be_word (take 8 r) :: 64 word), be_word (drop 8 r))"

definition ti_open :: "bytes \<Rightarrow> time_index" where
  "ti_open file = \<lparr>ti_file = file,
     ti_entries = keep_increasing snd None (map time_entry_of (rows_of TIME_ENTRY_SIZE file))\<rparr>"

definition ti_append :: "time_index \<Rightarrow> int \<Rightarrow> u32 \<Rightarrow> time_index" where
  "ti_append ix timestamp relative_offset =
     ix\<lparr>ti_file := ti_file ix @ put_i64 timestamp @ put_u32 relative_offset,
        ti_entries := ti_entries ix @ [(timestamp, relative_offset)]\<rparr>"

definition ti_lookup :: "time_index \<Rightarrow> int \<Rightarrow> u32" where
  "ti_lookup ix target_timestamp =
     (case binary_search_by_key fst target_timestamp (ti_entries ix) of
        Inr i \<Rightarrow> snd (ti_entries ix ! i)
      | Inl i \<Rightarrow> if i = 0 then 0 else snd (ti_entries ix ! (i - 1)))"

definition ti_truncate_by_relative_offset :: "time_index \<Rightarrow> u32 \<Rightarrow> time_index" where
  "ti_truncate_by_relative_offset ix max_rel_exclusive =
     (let new_len = length (takeWhile (\<lambda>(_, rel). rel < max_rel_exclusive) (ti_entries ix))
      in ix\<lparr>ti_entries := take new_len (ti_entries ix),
            ti_file := set_len (ti_file ix) (new_len * TIME_ENTRY_SIZE)\<rparr>)"

section \<open>The index of aborted transactions\<close>

definition ENTRY_BYTES :: nat where
  "ENTRY_BYTES = 24"

record aborted_txn =
  at_start_offset :: int
  at_last_offset :: int
  at_producer_id :: int

record txn_index =
  tx_file :: bytes
  tx_entries :: "aborted_txn list"

definition aborted_of :: "bytes \<Rightarrow> aborted_txn" where
  "aborted_of r = \<lparr>at_start_offset = sint (be_word (take 8 r) :: 64 word),
     at_last_offset = sint (be_word (take 8 (drop 8 r)) :: 64 word),
     at_producer_id = sint (be_word (drop 16 r) :: 64 word)\<rparr>"

text \<open>\<open>None\<close> is the \<open>Corrupt\<close> error; a missing file is read as an empty one.\<close>

definition tx_open :: "bytes \<Rightarrow> txn_index option" where
  "tx_open file =
     (if length file mod ENTRY_BYTES \<noteq> 0 then None
      else Some \<lparr>tx_file = file, tx_entries = map aborted_of (rows_of ENTRY_BYTES file)\<rparr>)"

definition tx_append :: "txn_index \<Rightarrow> aborted_txn \<Rightarrow> txn_index" where
  "tx_append ix e =
     ix\<lparr>tx_file := tx_file ix @ put_i64 (at_start_offset e) @ put_i64 (at_last_offset e) @ put_i64 (at_producer_id e),
        tx_entries := tx_entries ix @ [e]\<rparr>"

definition tx_aborted_in_range :: "txn_index \<Rightarrow> int \<Rightarrow> int \<Rightarrow> aborted_txn list" where
  "tx_aborted_in_range ix start_off end_off =
     filter (\<lambda>e. at_start_offset e < end_off \<and> start_off \<le> at_last_offset e) (tx_entries ix)"

section \<open>Rows are read back\<close>

lemma rows_of_append:
  "0 < n \<Longrightarrow> length r = n \<Longrightarrow> rows_of n (r @ bs) = r # rows_of n bs"
  by (subst rows_of.simps) simp

lemma rows_of_short: "length bs < n \<Longrightarrow> rows_of n bs = []"
  by (subst rows_of.simps) simp

lemma rows_of_concat:
  "0 < n \<Longrightarrow> list_all (\<lambda>r. length r = n) rs \<Longrightarrow> length t < n \<Longrightarrow> rows_of n (concat rs @ t) = rs"
  by (induction rs) (simp_all add: rows_of_append rows_of_short)

lemma rows_of_snoc:
  "0 < n \<Longrightarrow> length bs mod n = 0 \<Longrightarrow> length r = n \<Longrightarrow> rows_of n (bs @ r) = rows_of n bs @ [r]"
proof (induction "length bs" arbitrary: bs rule: less_induct)
  case less
  show ?case
  proof (cases "length bs < n")
    case True
    then have "bs = []" using less.prems by simp
    then show ?thesis using less.prems rows_of_append [of n r "[]"] by (simp add: rows_of_short)
  next
    case False
    then have "length (drop n bs) mod n = 0" using less.prems by (simp add: le_mod_geq)
    then have "rows_of n (drop n bs @ r) = rows_of n (drop n bs) @ [r]" using less False by simp
    then have "rows_of n (take n bs @ drop n bs @ r) = take n bs # rows_of n (drop n bs) @ [r]"
      using False less.prems rows_of_append [of n "take n bs" "drop n bs @ r"] by simp
    moreover have "rows_of n (take n bs @ drop n bs) = take n bs # rows_of n (drop n bs)"
      using False less.prems by (intro rows_of_append) simp_all
    ultimately show ?thesis by (metis append_Cons append_assoc append_take_drop_id)
  qed
qed

lemma keep_increasing_sorted:
  "sorted_wrt (\<lambda>a b. key a < key b) rs \<Longrightarrow> (case prev of None \<Rightarrow> True | Some p \<Rightarrow> (\<forall>r \<in> set rs. p < key r)) \<Longrightarrow>
   keep_increasing key prev rs = rs"
  by (induction key prev rs rule: keep_increasing.induct) (auto split: option.splits)

definition offset_row :: "u32 \<times> u32 \<Rightarrow> bytes" where
  "offset_row e = put_u32 (fst e) @ put_u32 (snd e)"

definition time_row :: "int \<times> u32 \<Rightarrow> bytes" where
  "time_row e = put_i64 (fst e) @ put_u32 (snd e)"

definition aborted_row :: "aborted_txn \<Rightarrow> bytes" where
  "aborted_row e = put_i64 (at_start_offset e) @ put_i64 (at_last_offset e) @ put_i64 (at_producer_id e)"

lemma length_rows [simp]: "length (offset_row e) = 8" "length (time_row te) = 12" "length (aborted_row a) = 24"
  by (simp_all add: offset_row_def time_row_def aborted_row_def)

lemma be_word_put [simp]:
  "be_word (put_u32 w) = w" "i64_ok v \<Longrightarrow> sint (be_word (put_i64 v) :: 64 word) = v"
  by (simp_all add: put_u32_def put_i64_def be_word_be_bytes_full sint_of_int_ok int_width)

lemma offset_row_back [simp]: "offset_entry_of (offset_row e) = e"
  by (simp add: offset_entry_of_def offset_row_def)

lemma time_row_back: "i64_ok (fst e) \<Longrightarrow> time_entry_of (time_row e) = e"
  by (simp add: time_entry_of_def time_row_def)

lemma aborted_row_back:
  "i64_ok (at_start_offset e) \<Longrightarrow> i64_ok (at_last_offset e) \<Longrightarrow> i64_ok (at_producer_id e) \<Longrightarrow> aborted_of (aborted_row e) = e"
  by (simp add: aborted_of_def aborted_row_def)

text \<open>A file in step with the entries: exactly their rows, with ascending keys.\<close>

definition oi_synced :: "offset_index \<Rightarrow> bool" where
  "oi_synced ix \<longleftrightarrow> oi_file ix = concat (map offset_row (oi_entries ix)) \<and> sorted_wrt (\<lambda>a b. snd a < snd b) (oi_entries ix)"

definition ti_synced :: "time_index \<Rightarrow> bool" where
  "ti_synced ix \<longleftrightarrow> ti_file ix = concat (map time_row (ti_entries ix)) \<and> sorted_wrt (\<lambda>a b. snd a < snd b) (ti_entries ix)
     \<and> list_all (\<lambda>e. i64_ok (fst e)) (ti_entries ix)"

lemma rows_map_back:
  "0 < n \<Longrightarrow> (\<And>e. e \<in> set es \<Longrightarrow> length (row e) = n \<and> back (row e) = e) \<Longrightarrow> length t < n \<Longrightarrow>
   map back (rows_of n (concat (map row es) @ t)) = es"
  by (subst rows_of_concat) (auto simp: list_all_iff intro: map_idI)

lemma oi_open_synced: "oi_synced ix \<Longrightarrow> oi_open (oi_file ix) = ix"
  using rows_map_back [of 8 "oi_entries ix" offset_row offset_entry_of "[]"]
  by (simp add: oi_synced_def oi_open_def OFFSET_ENTRY_SIZE_def keep_increasing_sorted)

lemma ti_open_synced: "ti_synced ix \<Longrightarrow> ti_open (ti_file ix) = ix"
  using rows_map_back [of 12 "ti_entries ix" time_row time_entry_of "[]"]
  by (simp add: ti_synced_def ti_open_def TIME_ENTRY_SIZE_def keep_increasing_sorted list_all_iff time_row_back)

lemma tx_open_append:
  assumes "tx_open (tx_file ix) = Some ix"
    and "i64_ok (at_start_offset e)" and "i64_ok (at_last_offset e)" and "i64_ok (at_producer_id e)"
  shows "tx_open (tx_file (tx_append ix e)) = Some (tx_append ix e)"
proof -
  have "length (tx_file ix) mod 24 = 0" "tx_entries ix = map aborted_of (rows_of 24 (tx_file ix))"
    using assms(1) by (cases ix; simp add: tx_open_def ENTRY_BYTES_def split: if_splits)+
  then show ?thesis
    using rows_of_snoc [of 24 "tx_file ix" "aborted_row e"] aborted_row_back [OF assms(2-4)]
    by (cases ix) (simp add: tx_open_def tx_append_def ENTRY_BYTES_def aborted_row_def mod_add_left_eq)
qed

lemma oi_synced_append:
  "oi_synced ix \<Longrightarrow> \<forall>e \<in> set (oi_entries ix). snd e < pos \<Longrightarrow> oi_synced (oi_append ix rel pos)"
  by (auto simp: oi_synced_def oi_append_def offset_row_def sorted_wrt_append)

lemma take_concat_rows:
  "(\<And>e. length (row e) = n) \<Longrightarrow> take (k * n) (concat (map row es)) = concat (map row (take k es))"
  by (induction k arbitrary: es) (auto simp: take_Cons' split: list.splits, case_tac es, auto)

lemma length_concat_rows: "(\<And>e. length (row e) = n) \<Longrightarrow> length (concat (map row es)) = length es * n"
  by (induction es) simp_all

lemma oi_synced_truncate: "oi_synced ix \<Longrightarrow> oi_synced (oi_truncate_by_position ix pos)"
proof -
  assume "oi_synced ix"
  let ?k = "length (takeWhile (\<lambda>(_, p). p < pos) (oi_entries ix))"
  have "?k \<le> length (oi_entries ix)" by (rule length_takeWhile_le)
  then have "set_len (oi_file ix) (?k * 8) = concat (map offset_row (take ?k (oi_entries ix)))"
    using \<open>oi_synced ix\<close> take_concat_rows [of offset_row 8 ?k "oi_entries ix"] length_concat_rows [of offset_row 8 "oi_entries ix"]
    by (simp add: oi_synced_def set_len_def)
  then show ?thesis
    using \<open>oi_synced ix\<close>
    by (simp add: oi_synced_def oi_truncate_by_position_def OFFSET_ENTRY_SIZE_def sorted_wrt_take Let_def)
qed

text \<open>A torn row: the entry appended after it is not the entry that the next start reads.\<close>

lemma torn_index_append:
  assumes "oi_file ix = [0]" and "oi_entries ix = []"
  shows "oi_entries (oi_append ix 1 5) = [(1, 5)] \<and> oi_entries (oi_open (oi_file (oi_append ix 1 5))) = [(0, 16777216)]"
proof -
  have "rows_of 8 ([0] @ [0, 0, 0, 1, 0, 0, 0, 5]) = [[0, 0, 0, 0, 1, 0, 0, 0]]"
    using rows_of_append [of 8 "[0, 0, 0, 0, 1, 0, 0, 0]" "[5]"] by (simp add: rows_of_short)
  moreover have "put_u32 1 @ put_u32 5 = [0, 0, 0, 1, 0, 0, 0, 5]" by code_simp
  moreover have "offset_entry_of [0, 0, 0, 0, 1, 0, 0, 0] = (0, 16777216)" by code_simp
  ultimately show ?thesis using assms
    by (simp add: oi_append_def oi_open_def OFFSET_ENTRY_SIZE_def)
qed

section \<open>The binary search\<close>

lemma bs_loop_step:
  assumes "\<not> sz \<le> 1"
  shows "bs_loop key target xs base sz =
    bs_loop key target xs (if target < key (xs ! (base + sz div 2)) then base else base + sz div 2) (sz - sz div 2)"
  using assms by (subst bs_loop.simps) (simp add: Let_def)

text \<open>
  On keys in ascending order the loop ends at the last entry at or below the target, if there is one:
  what lies before the result is at or below the target, what lies after it is above.
\<close>

definition split_at :: "('a \<Rightarrow> 'k::linorder) \<Rightarrow> 'k \<Rightarrow> 'a list \<Rightarrow> nat \<Rightarrow> nat \<Rightarrow> bool" where
  "split_at key target xs base n \<longleftrightarrow> (0 < base \<longrightarrow> key (xs ! base) \<le> target) \<and>
     (\<forall>i. base + n \<le> i \<longrightarrow> i < length xs \<longrightarrow> target < key (xs ! i))"

lemma bs_loop_split:
  assumes "sorted (map key xs)"
  shows "0 < sz \<Longrightarrow> base + sz \<le> length xs \<Longrightarrow> split_at key target xs base sz \<Longrightarrow>
    split_at key target xs (bs_loop key target xs base sz) 1 \<and> bs_loop key target xs base sz < length xs"
proof (induction sz arbitrary: base rule: less_induct)
  case (less sz)
  show ?case
  proof (cases "sz \<le> 1")
    case True
    then have "sz = 1" using less.prems by simp
    then show ?thesis using less.prems by (simp add: bs_loop.simps)
  next
    case False
    let ?m = "base + sz div 2"
    have mono: "key (xs ! i) \<le> key (xs ! j)" if "i \<le> j" "j < length xs" for i j
      using assms that sorted_nth_mono [of "map key xs" i j] by simp
    have sz: "sz - sz div 2 < sz" "0 < sz - sz div 2" "?m + (sz - sz div 2) = base + sz" "?m < length xs" "0 < ?m"
      using False less.prems by auto
    show ?thesis
    proof (cases "target < key (xs ! ?m)")
      case True
      then have "split_at key target xs base (sz - sz div 2)"
        using less.prems(3) mono [of ?m] sz by (auto simp: split_at_def intro: less_le_trans)
      then show ?thesis using less.IH [OF sz(1,2), of base] less.prems False True by (simp add: bs_loop_step)
    next
      case above: False
      then have "split_at key target xs ?m (sz - sz div 2)" using less.prems(3) sz by (auto simp: split_at_def)
      then show ?thesis using less.IH [OF sz(1,2), of ?m] less.prems False above sz by (simp add: bs_loop_step)
    qed
  qed
qed

lemma binary_search_cases:
  assumes "sorted (map key xs)"
  shows "case binary_search_by_key key target xs of
      Inr i \<Rightarrow> i < length xs \<and> key (xs ! i) = target
    | Inl i \<Rightarrow> i \<le> length xs \<and> (\<forall>j < i. key (xs ! j) < target) \<and> (\<forall>j. i \<le> j \<longrightarrow> j < length xs \<longrightarrow> target < key (xs ! j))"
proof (cases "xs = []")
  case False
  let ?b = "bs_loop key target xs 0 (length xs)"
  have b: "split_at key target xs ?b 1" "?b < length xs"
    using bs_loop_split [OF assms, of "length xs" 0 target] False by (auto simp: split_at_def)
  have mono: "key (xs ! i) \<le> key (xs ! j)" if "i \<le> j" "j < length xs" for i j
    using assms that sorted_nth_mono [of "map key xs" i j] by simp
  consider "key (xs ! ?b) = target" | "key (xs ! ?b) < target" | "target < key (xs ! ?b)" by (rule linorder_cases)
  then show ?thesis
  proof cases
    case 1
    then show ?thesis using False b(2) by (simp add: binary_search_by_key_def Let_def)
  next
    case 2
    have "key (xs ! j) < target" if "j \<le> ?b" for j using mono [OF that b(2)] 2 by simp
    then show ?thesis using False b 2 by (simp add: binary_search_by_key_def Let_def split_at_def less_Suc_eq_le Suc_le_eq)
  next
    case 3
    then have "?b = 0" using b(1) by (auto simp: split_at_def not_less [symmetric])
    moreover have "target < key (xs ! j)" if "j < length xs" for j using mono [of 0 j] 3 that \<open>?b = 0\<close> by simp
    ultimately show ?thesis using False 3 by (simp add: binary_search_by_key_def Let_def Suc_le_eq)
  qed
qed (simp add: binary_search_by_key_def)

text \<open>\<open>position_at_or_after\<close> finds the first entry at or after the target, \<open>lookup\<close> the last one at or before it.\<close>

lemma position_at_or_after_Some:
  assumes "sorted_wrt (\<lambda>a b. fst a < fst b) (oi_entries ix)" and "oi_position_at_or_after ix target = Some pos"
  obtains i where "i < length (oi_entries ix)" "snd (oi_entries ix ! i) = pos" "target \<le> fst (oi_entries ix ! i)"
    "\<forall>j < i. fst (oi_entries ix ! j) < target"
proof -
  have asc: "sorted (map fst (oi_entries ix))"
    using assms(1) by (simp add: sorted_map) (metis (mono_tags, lifting) less_imp_le sorted_wrt_mono_rel)
  have strict: "fst (oi_entries ix ! j) < fst (oi_entries ix ! i)" if "j < i" "i < length (oi_entries ix)" for i j
    using sorted_wrt_nth_less [OF assms(1) that] .
  note spec = binary_search_cases [OF asc, of target]
  show thesis
  proof (cases "binary_search_by_key fst target (oi_entries ix)")
    case (Inr i)
    then show thesis using that [of i] spec assms(2) strict by (auto simp: oi_position_at_or_after_def)
  next
    case (Inl i)
    then show thesis using that [of i] spec assms(2)
      by (auto simp: oi_position_at_or_after_def less_imp_le split: if_splits)
  qed
qed

end
