(* ===== verification/Log_Segment.thy ===== *)
theory Log_Segment
  imports Record_Batch Log_Index "HOL-Library.Sublist"
begin

text \<open>
  A log segment (\<open>crates/log/src/segment.rs\<close>): the bytes of its \<open>.log\<close> file with the sparse offset and
  time indexes. Appends (encoded and verbatim), tail recovery, decoded and raw reads, the descriptor
  form of a raw read, timestamp scans and truncation. File operations are taken to succeed; a byte
  budget (\<open>ByteSize\<close>, a float) is a natural number. An outer \<open>None\<close> is a panic.
\<close>

definition i64_wrapping_add :: "int \<Rightarrow> int \<Rightarrow> int" where
  "i64_wrapping_add a b = sint (word_of_int (a + b) :: 64 word)"

definition i64_wrapping_sub :: "int \<Rightarrow> int \<Rightarrow> int" where
  "i64_wrapping_sub a b = sint (word_of_int (a - b) :: 64 word)"

lemma i64_wrapping_add_ok [simp]: "i64_ok (a + b) \<Longrightarrow> i64_wrapping_add a b = a + b"
  using sint_of_int_ok [where 'a = 64, of "a + b"] by (simp add: i64_wrapping_add_def int_width)

lemma i64_wrapping_sub_ok [simp]: "i64_ok (a - b) \<Longrightarrow> i64_wrapping_sub a b = a - b"
  using sint_of_int_ok [where 'a = 64, of "a - b"] by (simp add: i64_wrapping_sub_def int_width)

datatype log_error =
    Io string
  | PartialBatch int nat
  | LogCrcMismatch int nat u32 u32
  | OffsetTooLow int int
  | Records records_error
  | BadSegmentName string
  | OffsetMismatch int int
  | Corrupt string
  | InvalidArgument string

record segment =
  sg_base_offset :: int
  sg_log :: bytes
  sg_offset_index :: offset_index
  sg_time_index :: time_index
  sg_sealed :: bool
  sg_max_timestamp :: int
  sg_last_offset :: int

record segment_files =
  sf_log :: bytes
  sf_index :: bytes
  sf_timeindex :: bytes

definition files_of :: "segment \<Rightarrow> segment_files" where
  "files_of s = \<lparr>sf_log = sg_log s, sf_index = oi_file (sg_offset_index s), sf_timeindex = ti_file (sg_time_index s)\<rparr>"

text \<open>\<open>u32::try_from\<close> on an \<open>i64\<close> or a \<open>u64\<close>.\<close>

definition u32_try_from :: "int \<Rightarrow> u32 option" where
  "u32_try_from n = (if 0 \<le> n \<and> n < 2 ^ 32 then Some (word_of_int n) else None)"

definition batch_last :: "record_batch \<Rightarrow> int" where
  "batch_last b = i64_wrapping_add (rb_base_offset b) (rb_last_offset_delta b)"

section \<open>Decoding a run of batches\<close>

lemma batch_decode_shorter:
  "batch_decode lib buf = Inr (b, rest) \<Longrightarrow> rest = drop (length buf - length rest) buf \<and> length rest + 61 \<le> length buf"
  by (auto simp: batch_decode_frame checked_frame_def rbind_def labelled_def HEADER_LEN_def Let_def
      split: sum.splits if_splits prod.splits)

text \<open>
  The loop \<open>while !cur.is_empty() { let Ok(batch) = RecordBatch::decode(&mut cur) else { break }; .. }\<close>
  that recovery, truncation and decoded reads share: the batches it sees, each with the bytes it took.
\<close>

function decode_run :: "batch_lib \<Rightarrow> bytes \<Rightarrow> (record_batch \<times> nat) list" where
  "decode_run lib cur =
     (if cur = [] then []
      else case batch_decode lib cur of
             Inl _ \<Rightarrow> []
           | Inr (b, rest) \<Rightarrow> (b, length cur - length rest) # decode_run lib rest)"
  by pat_completeness auto
termination
  by (relation "measure (\<lambda>(lib, cur). length cur)") (auto dest: batch_decode_shorter)

declare decode_run.simps [simp del]

section \<open>Creating, opening and recovering\<close>

definition seg_create :: "int \<Rightarrow> segment" where
  "seg_create base_offset = \<lparr>sg_base_offset = base_offset, sg_log = [], sg_offset_index = oi_open [],
     sg_time_index = ti_open [], sg_sealed = False, sg_max_timestamp = i64_MIN,
     sg_last_offset = i64_wrapping_sub base_offset 1\<rparr>"

definition seg_open :: "int \<Rightarrow> segment_files \<Rightarrow> segment" where
  "seg_open base_offset files = \<lparr>sg_base_offset = base_offset, sg_log = sf_log files,
     sg_offset_index = oi_open (sf_index files), sg_time_index = ti_open (sf_timeindex files), sg_sealed = False,
     sg_max_timestamp = i64_MIN, sg_last_offset = i64_wrapping_sub base_offset 1\<rparr>"

definition recover_active_tail :: "batch_lib \<Rightarrow> segment \<Rightarrow> segment" where
  "recover_active_tail lib s =
     (let scan_start = (case oi_last_entry (sg_offset_index s) of None \<Rightarrow> 0 | Some (_, pos) \<Rightarrow> unat pos) in
      if length (sg_log s) \<le> scan_start then s
      else let run = decode_run lib (drop scan_start (sg_log s));
               consumed = sum_list (map snd run);
               valid_end = scan_start + consumed
           in s\<lparr>sg_log := take valid_end (sg_log s),
                sg_last_offset := (if run = [] then sg_last_offset s else batch_last (fst (last run))),
                sg_max_timestamp := fold (\<lambda>(b, _) ts. max ts (rb_max_timestamp b)) run (sg_max_timestamp s)\<rparr>)"

definition seg_open_active :: "batch_lib \<Rightarrow> int \<Rightarrow> segment_files \<Rightarrow> bool \<Rightarrow> segment" where
  "seg_open_active lib base_offset files validate =
     (let s = seg_open base_offset files in if validate then recover_active_tail lib s else s)"

definition seg_seal :: "segment \<Rightarrow> segment" where
  "seg_seal s = s\<lparr>sg_sealed := True\<rparr>"

definition seg_seal_at :: "segment \<Rightarrow> int \<Rightarrow> segment" where
  "seg_seal_at s l = s\<lparr>sg_sealed := True, sg_last_offset := l\<rparr>"

section \<open>Appending\<close>

text \<open>
  What \<open>append\<close> and \<open>append_verbatim\<close> do with the bytes of a batch once they are known: write them, move
  the end and the largest timestamp, and add index entries when the last one is far enough behind.
  An index error is returned after the bytes are written.
\<close>

definition write_batch ::
  "segment \<Rightarrow> bytes \<Rightarrow> int \<Rightarrow> int \<Rightarrow> int \<Rightarrow> nat \<Rightarrow> (log_error + nat) \<times> segment" where
  "write_batch s bs base_offset last_off max_timestamp index_interval =
     (let position = length (sg_log s);
          s1 = s\<lparr>sg_log := sg_log s @ bs, sg_last_offset := last_off,
                 sg_max_timestamp := (if sg_max_timestamp s < max_timestamp then max_timestamp else sg_max_timestamp s)\<rparr>;
          should_index = (case oi_last_entry (sg_offset_index s) of
                            None \<Rightarrow> True | Some (_, last_pos) \<Rightarrow> index_interval \<le> position - unat last_pos)
      in if \<not> should_index then (Inr position, s1)
         else case u32_try_from (i64_wrapping_sub base_offset (sg_base_offset s)) of
                None \<Rightarrow> (Inl (BadSegmentName ''offset overflow in segment''), s1)
              | Some rel \<Rightarrow>
                  (case u32_try_from (int position) of
                     None \<Rightarrow> (Inl (BadSegmentName ''position overflow in segment''), s1)
                   | Some pos \<Rightarrow>
                       (Inr position, s1\<lparr>sg_offset_index := oi_append (sg_offset_index s) rel pos,
                                         sg_time_index := ti_append (sg_time_index s) (sg_max_timestamp s1) rel\<rparr>)))"

definition seg_append :: "batch_lib \<Rightarrow> segment \<Rightarrow> record_batch \<Rightarrow> nat \<Rightarrow> ((log_error + nat) \<times> segment) option" where
  "seg_append lib s b index_interval =
     (if sg_sealed s then Some (Inl (Io ''segment is sealed''), s)
      else case batch_encode lib b of
             None \<Rightarrow> None
           | Some (Inl e) \<Rightarrow> Some (Inl (Records e), s)
           | Some (Inr bs) \<Rightarrow>
               Some (write_batch s bs (rb_base_offset b) (batch_last b) (rb_max_timestamp b) index_interval))"

definition seg_append_verbatim ::
  "segment \<Rightarrow> bytes \<Rightarrow> int \<Rightarrow> int \<Rightarrow> int \<Rightarrow> int \<Rightarrow> nat \<Rightarrow> ((log_error + nat) \<times> segment) option" where
  "seg_append_verbatim s bs base_offset last_offset_delta max_timestamp leader_epoch index_interval =
     (if sg_sealed s then Some (Inl (Io ''segment is sealed''), s)
      else if length bs < HEADER_LEN then Some (Inl (Corrupt ''verbatim batch shorter than v2 header''), s)
      else case patch_base_offset_and_leader_epoch (take HEADER_LEN bs) base_offset leader_epoch of
             None \<Rightarrow> None
           | Some header \<Rightarrow>
               Some (write_batch s (header @ drop HEADER_LEN bs) base_offset
                       (i64_wrapping_add base_offset last_offset_delta) max_timestamp index_interval))"

section \<open>Decoded reads\<close>

definition read_log_range :: "segment \<Rightarrow> nat \<Rightarrow> nat \<Rightarrow> bytes" where
  "read_log_range s start_pos max_bytes =
     (let available = length (sg_log s) - start_pos; to_read = min available max_bytes
      in take to_read (drop start_pos (sg_log s)))"

fun read_loop :: "int \<Rightarrow> nat \<Rightarrow> nat \<Rightarrow> (record_batch \<times> nat) list \<Rightarrow> record_batch list" where
  "read_loop offset max_bytes tot [] = []"
| "read_loop offset max_bytes tot ((b, consumed) # run) =
     (if offset \<le> batch_last b
      then b # (if max_bytes \<le> tot + consumed then [] else read_loop offset max_bytes (tot + consumed) run)
      else read_loop offset max_bytes tot run)"

definition target_rel :: "segment \<Rightarrow> int \<Rightarrow> u32 option" where
  "target_rel s offset = u32_try_from (max 0 (i64_wrapping_sub offset (sg_base_offset s)))"

definition seg_read :: "batch_lib \<Rightarrow> segment \<Rightarrow> int \<Rightarrow> nat \<Rightarrow> log_error + record_batch list" where
  "seg_read lib s offset max_bytes =
     (if sg_last_offset s < offset then Inr []
      else case target_rel s offset of
             None \<Rightarrow> Inl (BadSegmentName ''target offset out of range'')
           | Some rel \<Rightarrow>
               (let start_pos = unat (oi_lookup (sg_offset_index s) rel);
                    buf = read_log_range s start_pos max_bytes
                in Inr (read_loop offset max_bytes 0 (decode_run lib buf))))"

section \<open>Raw reads\<close>

record raw_segment_read =
  rsr_start_offset :: int
  rsr_last_offset :: int
  rsr_bytes :: bytes

definition rsr_empty :: raw_segment_read where
  "rsr_empty = \<lparr>rsr_start_offset = 0, rsr_last_offset = - 1, rsr_bytes = []\<rparr>"

definition rsr_is_empty :: "raw_segment_read \<Rightarrow> bool" where
  "rsr_is_empty r \<longleftrightarrow> rsr_bytes r = []"

text \<open>The local variables of the boundary walk.\<close>

record raw_walk =
  rw_pos :: nat
  rw_range_start :: "nat option"
  rw_range_end :: nat
  rw_start_offset :: int
  rw_last_offset :: int

definition walk_start :: "int \<Rightarrow> raw_walk" where
  "walk_start fetch_offset = \<lparr>rw_pos = 0, rw_range_start = None, rw_range_end = 0,
     rw_start_offset = fetch_offset, rw_last_offset = i64_wrapping_sub fetch_offset 1\<rparr>"

definition header_len :: "batch_header \<Rightarrow> nat" where
  "header_len hdr = 12 + nat (max 0 (bh_batch_length hdr))"

definition header_last :: "batch_header \<Rightarrow> int" where
  "header_last hdr = i64_wrapping_add (bh_base_offset hdr) (bh_last_offset_delta hdr)"

text \<open>A batch that lies inside the window is added to the range.\<close>

definition walk_take :: "raw_walk \<Rightarrow> batch_header \<Rightarrow> raw_walk" where
  "walk_take w hdr =
     (let tot = header_len hdr in
      w\<lparr>rw_range_start := (case rw_range_start w of None \<Rightarrow> Some (rw_pos w) | Some s \<Rightarrow> Some s),
        rw_start_offset := (case rw_range_start w of None \<Rightarrow> bh_base_offset hdr | Some _ \<Rightarrow> rw_start_offset w),
        rw_range_end := rw_pos w + tot, rw_last_offset := header_last hdr, rw_pos := rw_pos w + tot\<rparr>)"

definition raw_finish :: "bytes \<Rightarrow> raw_walk \<Rightarrow> raw_segment_read" where
  "raw_finish buf w =
     (case rw_range_start w of
        Some s \<Rightarrow> \<lparr>rsr_start_offset = rw_start_offset w, rsr_last_offset = rw_last_offset w,
                   rsr_bytes = take (rw_range_end w - s) (drop s buf)\<rparr>
      | None \<Rightarrow> rsr_empty)"

function raw_loop :: "segment \<Rightarrow> nat \<Rightarrow> bytes \<Rightarrow> int \<Rightarrow> int \<Rightarrow> nat \<Rightarrow> raw_walk \<Rightarrow> log_error + raw_segment_read" where
  "raw_loop s start_pos buf fetch_offset limit_offset max_bytes w =
     (if length buf < rw_pos w + HEADER_LEN then Inr (raw_finish buf w)
      else case ref_from_bytes (take HEADER_LEN (drop (rw_pos w) buf)) of
             Inl _ \<Rightarrow> Inl (Corrupt ''record batch header'')
           | Inr hdr \<Rightarrow>
               let tot = header_len hdr in
               if header_last hdr < fetch_offset
               then raw_loop s start_pos buf fetch_offset limit_offset max_bytes (w\<lparr>rw_pos := rw_pos w + tot\<rparr>)
               else if limit_offset \<le> bh_base_offset hdr then Inr (raw_finish buf w)
               else if length buf < rw_pos w + tot then
                 (if rw_range_start w = None then
                    (let one = read_log_range s (start_pos + rw_pos w) tot in
                     if length one < tot then Inr (raw_finish buf w)
                     else Inr \<lparr>rsr_start_offset = bh_base_offset hdr, rsr_last_offset = header_last hdr, rsr_bytes = one\<rparr>)
                  else Inr (raw_finish buf w))
               else let w' = walk_take w hdr in
                 if max_bytes \<le> rw_range_end w' - the (rw_range_start w') then Inr (raw_finish buf w')
                 else raw_loop s start_pos buf fetch_offset limit_offset max_bytes w')"
  by pat_completeness auto
termination
  by (relation "measure (\<lambda>(s, p, buf, f, l, m, w). length buf + 1 - rw_pos w)")
     (auto simp: walk_take_def Let_def header_len_def HEADER_LEN_def)

declare raw_loop.simps [simp del]

definition seg_read_raw :: "segment \<Rightarrow> int \<Rightarrow> int \<Rightarrow> nat \<Rightarrow> log_error + raw_segment_read" where
  "seg_read_raw s fetch_offset limit_offset max_bytes =
     (if sg_last_offset s < fetch_offset \<or> limit_offset \<le> fetch_offset then Inr rsr_empty
      else case target_rel s fetch_offset of
             None \<Rightarrow> Inl (Corrupt ''read_raw target offset out of range'')
           | Some rel \<Rightarrow>
               (let start_pos = unat (oi_lookup (sg_offset_index s) rel);
                    buf = read_log_range s start_pos (max max_bytes HEADER_LEN)
                in raw_loop s start_pos buf fetch_offset limit_offset max_bytes (walk_start fetch_offset)))"

section \<open>The descriptor form of a raw read\<close>

record file_region =
  fr_offset :: nat
  fr_len :: nat

record raw_segment_desc =
  rsd_start_offset :: int
  rsd_last_offset :: int
  rsd_region :: "file_region option"

definition rsd_empty :: raw_segment_desc where
  "rsd_empty = \<lparr>rsd_start_offset = 0, rsd_last_offset = - 1, rsd_region = None\<rparr>"

definition rsd_len :: "raw_segment_desc \<Rightarrow> nat" where
  "rsd_len d = (case rsd_region d of None \<Rightarrow> 0 | Some r \<Rightarrow> fr_len r)"

definition rsd_is_empty :: "raw_segment_desc \<Rightarrow> bool" where
  "rsd_is_empty d \<longleftrightarrow> rsd_region d = None"

definition desc_finish :: "nat \<Rightarrow> raw_walk \<Rightarrow> raw_segment_desc" where
  "desc_finish start_pos w =
     (case rw_range_start w of
        Some s \<Rightarrow> \<lparr>rsd_start_offset = rw_start_offset w, rsd_last_offset = rw_last_offset w,
                   rsd_region = Some \<lparr>fr_offset = start_pos + s, fr_len = rw_range_end w - s\<rparr>\<rparr>
      | None \<Rightarrow> rsd_empty)"

text \<open>\<open>read_full_at\<close> of a header: what the file holds there, up to the header length.\<close>

definition read_header_at :: "segment \<Rightarrow> nat \<Rightarrow> bytes" where
  "read_header_at s pos = take HEADER_LEN (drop pos (sg_log s))"

function desc_loop :: "segment \<Rightarrow> nat \<Rightarrow> nat \<Rightarrow> int \<Rightarrow> int \<Rightarrow> nat \<Rightarrow> raw_walk \<Rightarrow> log_error + raw_segment_desc" where
  "desc_loop s start_pos window fetch_offset limit_offset max_bytes w =
     (if window < rw_pos w + HEADER_LEN then Inr (desc_finish start_pos w)
      else let hdr_buf = read_header_at s (start_pos + rw_pos w) in
        if length hdr_buf < HEADER_LEN then Inr (desc_finish start_pos w)
        else case ref_from_bytes hdr_buf of
               Inl _ \<Rightarrow> Inl (Corrupt ''record batch header'')
             | Inr hdr \<Rightarrow>
                 let tot = header_len hdr in
                 if header_last hdr < fetch_offset
                 then desc_loop s start_pos window fetch_offset limit_offset max_bytes (w\<lparr>rw_pos := rw_pos w + tot\<rparr>)
                 else if limit_offset \<le> bh_base_offset hdr then Inr (desc_finish start_pos w)
                 else if window < rw_pos w + tot then
                   (if rw_range_start w = None then
                      (if length (sg_log s) < start_pos + rw_pos w + tot then Inr (desc_finish start_pos w)
                       else Inr \<lparr>rsd_start_offset = bh_base_offset hdr, rsd_last_offset = header_last hdr,
                                 rsd_region = Some \<lparr>fr_offset = start_pos + rw_pos w, fr_len = tot\<rparr>\<rparr>)
                    else Inr (desc_finish start_pos w))
                 else let w' = walk_take w hdr in
                   if max_bytes \<le> rw_range_end w' - the (rw_range_start w') then Inr (desc_finish start_pos w')
                   else desc_loop s start_pos window fetch_offset limit_offset max_bytes w')"
  by pat_completeness auto
termination
  by (relation "measure (\<lambda>(s, p, window, f, l, m, w). window + 1 - rw_pos w)")
     (auto simp: walk_take_def Let_def header_len_def HEADER_LEN_def)

declare desc_loop.simps [simp del]

definition seg_read_raw_desc :: "segment \<Rightarrow> int \<Rightarrow> int \<Rightarrow> nat \<Rightarrow> log_error + raw_segment_desc" where
  "seg_read_raw_desc s fetch_offset limit_offset max_bytes =
     (if sg_last_offset s < fetch_offset \<or> limit_offset \<le> fetch_offset then Inr rsd_empty
      else case target_rel s fetch_offset of
             None \<Rightarrow> Inl (Corrupt ''read_raw_desc target offset out of range'')
           | Some rel \<Rightarrow>
               (let start_pos = unat (oi_lookup (sg_offset_index s) rel);
                    first_read = max max_bytes HEADER_LEN;
                    available = length (sg_log s) - start_pos;
                    window = min first_read available
                in desc_loop s start_pos window fetch_offset limit_offset max_bytes (walk_start fetch_offset)))"

section \<open>Truncation\<close>

definition truncate_to_relative :: "batch_lib \<Rightarrow> segment \<Rightarrow> u32 \<Rightarrow> (log_error + unit) \<times> segment" where
  "truncate_to_relative lib s rel =
     (let read_limit = (case oi_position_at_or_after (sg_offset_index s) rel of None \<Rightarrow> length (sg_log s) | Some p \<Rightarrow> unat p);
          buf = read_log_range s 0 read_limit;
          target_abs = i64_wrapping_add (sg_base_offset s) (uint rel);
          kept = takeWhile (\<lambda>(b, _). batch_last b < target_abs) (decode_run lib buf);
          pos = sum_list (map snd kept);
          s1 = s\<lparr>sg_log := set_len (sg_log s) pos,
                 sg_last_offset := (if kept = [] then i64_wrapping_sub (sg_base_offset s) 1 else batch_last (fst (last kept))),
                 sg_max_timestamp := fold (\<lambda>(b, _) ts. max ts (rb_max_timestamp b)) kept i64_MIN\<rparr>
      in case u32_try_from (int pos) of
           None \<Rightarrow> (Inl (BadSegmentName ''position overflow''), s1)
         | Some pos_u32 \<Rightarrow>
             (Inr (), s1\<lparr>sg_offset_index := oi_truncate_by_position (sg_offset_index s) pos_u32,
                         sg_time_index := ti_truncate_by_relative_offset (sg_time_index s) rel,
                         sg_sealed := False\<rparr>))"

section \<open>Timestamp scans\<close>

fun first_match :: "(int \<Rightarrow> bool) \<Rightarrow> record_batch list \<Rightarrow> (int \<times> int) option" where
  "first_match p [] = None"
| "first_match p (b # bs) =
     (case find (\<lambda>r. p (i64_wrapping_add (rb_base_timestamp b) (r_timestamp_delta r))) (rb_records b) of
        Some r \<Rightarrow> Some (i64_wrapping_add (rb_base_offset b) (r_offset_delta r), i64_wrapping_add (rb_base_timestamp b) (r_timestamp_delta r))
      | None \<Rightarrow> first_match p bs)"

text \<open>
  The loop doubles its window whenever the batch at the cursor does not fit. On a segment whose bytes
  do not decode it never returns, so it is a partial function; the outer \<open>None\<close> is not returning.
\<close>

partial_function (option) scan_loop ::
  "batch_lib \<Rightarrow> segment \<Rightarrow> (int \<Rightarrow> bool) \<Rightarrow> int \<Rightarrow> nat \<Rightarrow> (int \<times> int) option option" where
  "scan_loop lib s p cursor window =
     (if sg_last_offset s < cursor then Some None
      else case seg_read lib s cursor window of
             Inl _ \<Rightarrow> Some None
           | Inr batches \<Rightarrow>
               if batches = [] then scan_loop lib s p cursor (2 * window)
               else case first_match p batches of
                      Some hit \<Rightarrow> Some (Some hit)
                    | None \<Rightarrow> scan_loop lib s p (i64_wrapping_add (batch_last (last batches)) 1) window)"

definition scan_from_floor_windowed ::
  "batch_lib \<Rightarrow> segment \<Rightarrow> int \<Rightarrow> nat \<Rightarrow> (int \<Rightarrow> bool) \<Rightarrow> (int \<times> int) option option" where
  "scan_from_floor_windowed lib s floor_offset window_size p = scan_loop lib s p floor_offset (max window_size 1)"

definition better_timestamp :: "record_batch \<Rightarrow> log_record \<Rightarrow> (int \<times> int) option \<Rightarrow> (int \<times> int) option" where
  "better_timestamp b r best =
     (let ts = i64_wrapping_add (rb_base_timestamp b) (r_timestamp_delta r) in
      if (case best of None \<Rightarrow> True | Some (_, best_ts) \<Rightarrow> best_ts < ts)
      then Some (i64_wrapping_add (rb_base_offset b) (r_offset_delta r), ts) else best)"

partial_function (option) scan_max_loop ::
  "batch_lib \<Rightarrow> segment \<Rightarrow> int \<Rightarrow> nat \<Rightarrow> (int \<times> int) option \<Rightarrow> (int \<times> int) option option" where
  "scan_max_loop lib s cursor window best =
     (if sg_last_offset s < cursor then Some best
      else case seg_read lib s cursor window of
             Inl _ \<Rightarrow> Some None
           | Inr batches \<Rightarrow>
               if batches = [] then scan_max_loop lib s cursor (2 * window) best
               else scan_max_loop lib s (i64_wrapping_add (batch_last (last batches)) 1) window
                      (fold (\<lambda>b. fold (better_timestamp b) (rb_records b)) batches best))"

definition scan_max_timestamp_windowed :: "batch_lib \<Rightarrow> segment \<Rightarrow> nat \<Rightarrow> (int \<times> int) option option" where
  "scan_max_timestamp_windowed lib s window_size = scan_max_loop lib s (sg_base_offset s) (max window_size 1) None"

definition offset_for_timestamp_with_window :: "batch_lib \<Rightarrow> segment \<Rightarrow> int \<Rightarrow> nat \<Rightarrow> (int \<times> int) option option" where
  "offset_for_timestamp_with_window lib s target_ts scan_window =
     (let scan_from = i64_wrapping_add (sg_base_offset s) (uint (ti_lookup (sg_time_index s) target_ts))
      in scan_from_floor_windowed lib s scan_from scan_window (\<lambda>ts. target_ts \<le> ts))"

definition offset_of_max_timestamp_with_window :: "batch_lib \<Rightarrow> segment \<Rightarrow> nat \<Rightarrow> (int \<times> int) option option" where
  "offset_of_max_timestamp_with_window lib s scan_window =
     (if sg_max_timestamp s = i64_MIN then scan_max_timestamp_windowed lib s scan_window
      else let scan_from = i64_wrapping_add (sg_base_offset s) (uint (ti_lookup (sg_time_index s) (sg_max_timestamp s)))
           in scan_from_floor_windowed lib s scan_from scan_window (\<lambda>ts. ts = sg_max_timestamp s))"

section \<open>Both raw reads select the same bytes\<close>

definition region_bytes :: "segment \<Rightarrow> raw_segment_desc \<Rightarrow> bytes" where
  "region_bytes s d = (case rsd_region d of None \<Rightarrow> [] | Some r \<Rightarrow> take (fr_len r) (drop (fr_offset r) (sg_log s)))"

definition same_read :: "segment \<Rightarrow> raw_segment_read \<Rightarrow> raw_segment_desc \<Rightarrow> bool" where
  "same_read s r d \<longleftrightarrow> rsd_start_offset d = rsr_start_offset r \<and> rsd_last_offset d = rsr_last_offset r
     \<and> region_bytes s d = rsr_bytes r \<and> rsd_len d = length (rsr_bytes r) \<and> (rsd_is_empty d \<longleftrightarrow> rsr_is_empty r)"

definition walk_ok :: "nat \<Rightarrow> raw_walk \<Rightarrow> bool" where
  "walk_ok window w \<longleftrightarrow> (\<forall>a. rw_range_start w = Some a \<longrightarrow> a < rw_range_end w \<and> rw_range_end w \<le> rw_pos w \<and> rw_range_end w \<le> window)"

lemma window_slice:
  "pos + n \<le> window \<Longrightarrow> take n (drop pos (take window (drop start_pos xs))) = take n (drop (start_pos + pos) xs)"
  by (simp add: drop_take add.commute)

lemma finish_same:
  assumes "walk_ok window w" and "window \<le> length (sg_log s) - start_pos" and "buf = take window (drop start_pos (sg_log s))"
  shows "same_read s (raw_finish buf w) (desc_finish start_pos w)"
proof (cases "rw_range_start w")
  case None
  then show ?thesis
    by (simp add: same_read_def raw_finish_def desc_finish_def rsr_empty_def rsd_empty_def region_bytes_def
        rsd_len_def rsd_is_empty_def rsr_is_empty_def)
next
  case (Some a)
  then have a: "a < rw_range_end w" "rw_range_end w \<le> window" using assms(1) by (auto simp: walk_ok_def)
  then have "take (rw_range_end w - a) (drop a buf) = take (rw_range_end w - a) (drop (start_pos + a) (sg_log s))"
    using window_slice [of a "rw_range_end w - a" window start_pos "sg_log s"] by (simp add: assms(3))
  then show ?thesis using Some a assms(2)
    by (simp add: same_read_def raw_finish_def desc_finish_def region_bytes_def rsd_len_def rsd_is_empty_def rsr_is_empty_def)
qed

lemma walk_ok_skip: "walk_ok window w \<Longrightarrow> walk_ok window (w\<lparr>rw_pos := rw_pos w + n\<rparr>)"
  by (auto simp: walk_ok_def)

lemma walk_ok_take: "walk_ok window w \<Longrightarrow> rw_pos w + header_len hdr \<le> window \<Longrightarrow> walk_ok window (walk_take w hdr)"
  by (auto simp: walk_ok_def walk_take_def Let_def header_len_def split: option.splits)

definition agrees :: "segment \<Rightarrow> log_error + raw_segment_read \<Rightarrow> log_error + raw_segment_desc \<Rightarrow> bool" where
  "agrees s x y \<longleftrightarrow> (case x of Inl e \<Rightarrow> y = Inl e | Inr r \<Rightarrow> (\<exists>d. y = Inr d \<and> same_read s r d))"

lemma loops_agree:
  assumes "window \<le> length (sg_log s) - start_pos" and "buf = take window (drop start_pos (sg_log s))" and "walk_ok window w"
  shows "agrees s (raw_loop s start_pos buf f l m w) (desc_loop s start_pos window f l m w)"
  using assms
proof (induction s start_pos buf f l m w rule: raw_loop.induct)
  case (1 s start_pos buf f l m w)
  have len: "length buf = window" using "1.prems" by simp
  note fin = finish_same [OF _ "1.prems"(1,2)]
  show ?case
  proof (cases "window < rw_pos w + HEADER_LEN")
    case True
    then show ?thesis using fin [OF "1.prems"(3)] len by (simp add: raw_loop.simps desc_loop.simps agrees_def)
  next
    case False
    have hdr_buf: "read_header_at s (start_pos + rw_pos w) = take HEADER_LEN (drop (rw_pos w) buf)"
      "length (read_header_at s (start_pos + rw_pos w)) = HEADER_LEN"
      using False window_slice [of "rw_pos w" HEADER_LEN window start_pos "sg_log s"] "1.prems"
      by (simp_all add: read_header_at_def)
    show ?thesis
    proof (cases "ref_from_bytes (take HEADER_LEN (drop (rw_pos w) buf))")
      case (Inl e)
      then show ?thesis using False len hdr_buf by (simp add: raw_loop.simps desc_loop.simps agrees_def)
    next
      case (Inr hdr)
      note unfold = raw_loop.simps [of s start_pos buf f l m w] desc_loop.simps [of s start_pos window f l m w]
      consider (skip) "header_last hdr < f"
        | (limit) "\<not> header_last hdr < f" "l \<le> bh_base_offset hdr"
        | (straddle) "\<not> header_last hdr < f" "\<not> l \<le> bh_base_offset hdr" "window < rw_pos w + header_len hdr"
        | (stop) "\<not> header_last hdr < f" "\<not> l \<le> bh_base_offset hdr" "\<not> window < rw_pos w + header_len hdr"
            "m \<le> rw_range_end (walk_take w hdr) - the (rw_range_start (walk_take w hdr))"
        | (go) "\<not> header_last hdr < f" "\<not> l \<le> bh_base_offset hdr" "\<not> window < rw_pos w + header_len hdr"
            "\<not> m \<le> rw_range_end (walk_take w hdr) - the (rw_range_start (walk_take w hdr))"
        by blast
      then show ?thesis
      proof cases
        case skip
        let ?w = "w\<lparr>rw_pos := rw_pos w + header_len hdr\<rparr>"
        have "raw_loop s start_pos buf f l m w = raw_loop s start_pos buf f l m ?w"
          "desc_loop s start_pos window f l m w = desc_loop s start_pos window f l m ?w"
          using skip False len hdr_buf Inr by (simp_all add: unfold Let_def)
        then show ?thesis
          using "1.IH"(1) [OF _ Inr refl skip "1.prems"(1,2) walk_ok_skip [OF "1.prems"(3)]] False len by simp
      next
        case limit
        then show ?thesis using fin [OF "1.prems"(3)] False len hdr_buf Inr by (simp add: unfold Let_def agrees_def)
      next
        case straddle
        let ?one = "read_log_range s (start_pos + rw_pos w) (header_len hdr)"
        have "length ?one < header_len hdr \<longleftrightarrow> length (sg_log s) < start_pos + rw_pos w + header_len hdr"
          by (auto simp: read_log_range_def Let_def header_len_def)
        moreover have "same_read s \<lparr>rsr_start_offset = bh_base_offset hdr, rsr_last_offset = header_last hdr, rsr_bytes = ?one\<rparr>
            \<lparr>rsd_start_offset = bh_base_offset hdr, rsd_last_offset = header_last hdr,
             rsd_region = Some \<lparr>fr_offset = start_pos + rw_pos w, fr_len = header_len hdr\<rparr>\<rparr>"
          if "\<not> length (sg_log s) < start_pos + rw_pos w + header_len hdr"
          using that by (auto simp: same_read_def region_bytes_def rsd_len_def rsd_is_empty_def rsr_is_empty_def
              read_log_range_def Let_def min_def header_len_def)
        ultimately show ?thesis using straddle fin [OF "1.prems"(3)] False len hdr_buf Inr by (simp add: unfold Let_def agrees_def)
      next
        case stop
        then show ?thesis using fin [OF walk_ok_take [OF "1.prems"(3)]] False len hdr_buf Inr
          by (simp add: unfold Let_def not_less agrees_def)
      next
        case go
        let ?w = "walk_take w hdr"
        have "raw_loop s start_pos buf f l m w = raw_loop s start_pos buf f l m ?w"
          "desc_loop s start_pos window f l m w = desc_loop s start_pos window f l m ?w"
          using go False len hdr_buf Inr by (simp_all add: unfold Let_def)
        then show ?thesis
          using "1.IH"(2) [OF _ Inr refl go(1,2) _ refl go(4) "1.prems"(1,2) walk_ok_take [OF "1.prems"(3)]] False len go(3) by simp
      qed
    qed
  qed
qed

text \<open>
  C25. The zero-copy fetch path serves what the copying path serves: for every segment, offset range
  and byte budget, \<open>read_raw_desc\<close> describes a file region whose bytes are exactly the bytes of
  \<open>read_raw\<close>, with the same start and last offset, and fails exactly when \<open>read_raw\<close> fails.
\<close>

theorem read_raw_desc_agrees:
  "case seg_read_raw s fetch_offset limit_offset max_bytes of
     Inl _ \<Rightarrow> (\<exists>e. seg_read_raw_desc s fetch_offset limit_offset max_bytes = Inl e)
   | Inr r \<Rightarrow> (\<exists>d. seg_read_raw_desc s fetch_offset limit_offset max_bytes = Inr d \<and> same_read s r d)"
proof (cases "sg_last_offset s < fetch_offset \<or> limit_offset \<le> fetch_offset")
  case True
  then show ?thesis
    by (auto simp: seg_read_raw_def seg_read_raw_desc_def same_read_def rsr_empty_def rsd_empty_def region_bytes_def
        rsd_len_def rsd_is_empty_def rsr_is_empty_def)
next
  case False
  show ?thesis
  proof (cases "target_rel s fetch_offset")
    case None
    then show ?thesis using False by (simp add: seg_read_raw_def seg_read_raw_desc_def)
  next
    case (Some rel)
    let ?start = "unat (oi_lookup (sg_offset_index s) rel)"
    let ?window = "min (max max_bytes HEADER_LEN) (length (sg_log s) - ?start)"
    have buf: "read_log_range s ?start (max max_bytes HEADER_LEN) = take ?window (drop ?start (sg_log s))"
      by (simp add: read_log_range_def Let_def min.commute)
    have "walk_ok ?window (walk_start fetch_offset)" by (simp add: walk_ok_def walk_start_def)
    from loops_agree [OF _ buf this, of fetch_offset limit_offset max_bytes] False Some show ?thesis
      by (auto simp: seg_read_raw_def seg_read_raw_desc_def Let_def agrees_def split: sum.splits)
  qed
qed

section \<open>Segments that hold whole batches\<close>

text \<open>A batch as it is stored: its bytes decode to it, whatever follows them.\<close>

definition stored :: "batch_lib \<Rightarrow> record_batch \<Rightarrow> bytes \<Rightarrow> bool" where
  "stored lib b out \<longleftrightarrow> (\<forall>rest. batch_decode lib (out @ rest) = Inr (b, rest))"

lemma stored_length: "stored lib b out \<Longrightarrow> 61 \<le> length out"
  using batch_decode_shorter [of lib out b "[]"] by (auto simp: stored_def dest: spec [of _ "[]"])

lemma checked_frame_extend:
  assumes "checked_frame lib buf = Inr f" and "f = (hdr, body, rest)"
  shows "checked_frame lib (buf @ x) = Inr (hdr, body, rest @ x)"
  using assms by (auto simp: checked_frame_def Let_def not_less split: if_splits sum.splits)

lemma batch_decode_extend:
  assumes "batch_decode lib buf = Inr (b, rest)"
  shows "batch_decode lib (buf @ x) = Inr (b, rest @ x)"
proof (cases "checked_frame lib buf")
  case (Inr f)
  obtain hdr body r where f: "f = (hdr, body, r)" by (cases f)
  show ?thesis using assms Inr checked_frame_extend [OF Inr f, of x] f
    by (auto simp: batch_decode_frame rbind_def split: sum.splits if_splits prod.splits)
qed (use assms in \<open>simp add: batch_decode_frame\<close>)

text \<open>A torn batch does not decode.\<close>

lemma torn_fails:
  assumes "stored lib b out" and "n < length out"
  shows "\<exists>e. batch_decode lib (take n out) = Inl e"
proof (cases "batch_decode lib (take n out)")
  case (Inr br)
  obtain b' rest where br: "br = (b', rest)" by (cases br)
  have "batch_decode lib (take n out @ drop n out) = Inr (b', rest @ drop n out)"
    using Inr br by (intro batch_decode_extend) simp
  moreover have "batch_decode lib (out @ []) = Inr (b, [])" using assms(1) unfolding stored_def by blast
  ultimately show ?thesis using assms(2) by simp
qed simp

definition run_of :: "(record_batch \<times> bytes) list \<Rightarrow> (record_batch \<times> nat) list" where
  "run_of cs = map (\<lambda>(b, out). (b, length out)) cs"

definition cells_bytes :: "(record_batch \<times> bytes) list \<Rightarrow> bytes" where
  "cells_bytes cs = concat (map snd cs)"

definition start_of :: "(record_batch \<times> bytes) list \<Rightarrow> nat \<Rightarrow> nat" where
  "start_of cs k = length (cells_bytes (take k cs))"

lemma cells_bytes_simps [simp]: "cells_bytes [] = []" "cells_bytes (c # cs) = snd c @ cells_bytes cs"
  "cells_bytes (cs @ ds) = cells_bytes cs @ cells_bytes ds"
  by (simp_all add: cells_bytes_def)

lemma run_of_simps [simp]: "run_of [] = []" "run_of ((b, out) # cs) = (b, length out) # run_of cs"
  "run_of (cs @ ds) = run_of cs @ run_of ds"
  by (simp_all add: run_of_def)

lemma sum_run_of [simp]: "sum_list (map snd (run_of cs)) = length (cells_bytes cs)"
  by (induction cs) auto

lemma drop_start_of: "drop (start_of cs k) (cells_bytes cs) = cells_bytes (drop k cs)"
  by (metis append_eq_conv_conj append_take_drop_id cells_bytes_simps(3) start_of_def)

lemma decode_run_tail: "t = [] \<or> (\<exists>e. batch_decode lib t = Inl e) \<Longrightarrow> decode_run lib t = []"
  by (subst decode_run.simps) auto

lemma decode_run_cells:
  assumes "list_all (\<lambda>(b, out). stored lib b out) cs" and "t = [] \<or> (\<exists>e. batch_decode lib t = Inl e)"
  shows "decode_run lib (cells_bytes cs @ t) = run_of cs"
  using assms(1)
proof (induction cs)
  case Nil
  then show ?case using decode_run_tail [OF assms(2)] by simp
next
  case (Cons c cs)
  obtain b out where c: "c = (b, out)" by (cases c)
  have st: "stored lib b out" using Cons.prems c by simp
  then have "batch_decode lib (out @ cells_bytes cs @ t) = Inr (b, cells_bytes cs @ t)" by (simp add: stored_def)
  moreover have "out \<noteq> []" using stored_length [OF st] by auto
  ultimately have "decode_run lib (out @ cells_bytes cs @ t) = (b, length out) # decode_run lib (cells_bytes cs @ t)"
    by (subst decode_run.simps) simp
  then show ?case using Cons c by simp
qed

text \<open>A window of the file: the batches that end inside it, and a torn one after them.\<close>

fun fitting :: "nat \<Rightarrow> (record_batch \<times> bytes) list \<Rightarrow> (record_batch \<times> bytes) list" where
  "fitting n [] = []"
| "fitting n (c # cs) = (if length (snd c) \<le> n then c # fitting (n - length (snd c)) cs else [])"

lemma decode_run_window:
  "list_all (\<lambda>(b, out). stored lib b out) cs \<Longrightarrow> decode_run lib (take n (cells_bytes cs)) = run_of (fitting n cs)"
proof (induction n cs rule: fitting.induct)
  case (1 n)
  then show ?case by (simp add: decode_run_tail)
next
  case (2 n c cs)
  obtain b out where c: "c = (b, out)" by (cases c)
  have st: "stored lib b out" "list_all (\<lambda>(b, out). stored lib b out) cs" using "2.prems" c by simp_all
  show ?case
  proof (cases "length out \<le> n")
    case True
    have "batch_decode lib (out @ take (n - length out) (cells_bytes cs)) = Inr (b, take (n - length out) (cells_bytes cs))"
      using st(1) by (simp add: stored_def)
    moreover have "out \<noteq> []" using stored_length [OF st(1)] by auto
    ultimately show ?thesis using 2 True c st(2) by (subst decode_run.simps) simp
  next
    case False
    then show ?thesis using torn_fails [OF st(1), of n] c by (simp add: decode_run_tail)
  qed
qed

lemma fitting_prefix: "fitting n cs = take (length (fitting n cs)) cs"
  by (induction n cs rule: fitting.induct) auto

lemma fitting_all: "length (cells_bytes cs) \<le> n \<Longrightarrow> fitting n cs = cs"
  by (induction n cs rule: fitting.induct) auto

definition offsets_ok :: "int \<Rightarrow> (record_batch \<times> bytes) list \<Rightarrow> bool" where
  "offsets_ok base cs \<longleftrightarrow> sorted_wrt (\<lambda>x y. batch_last (fst x) < rb_base_offset (fst y)) cs
     \<and> list_all (\<lambda>(b, _). base \<le> rb_base_offset b \<and> rb_base_offset b \<le> batch_last b \<and> batch_last b < i64_MAX) cs"

definition end_of :: "int \<Rightarrow> (record_batch \<times> bytes) list \<Rightarrow> int" where
  "end_of base cs = (if cs = [] then base - 1 else batch_last (fst (last cs)))"

text \<open>An index entry points at the start of a batch.\<close>

definition points :: "int \<Rightarrow> (record_batch \<times> bytes) list \<Rightarrow> u32 \<times> u32 \<Rightarrow> bool" where
  "points base cs e \<longleftrightarrow> (\<exists>k < length cs. unat (snd e) = start_of cs k \<and> uint (fst e) = rb_base_offset (fst (cs ! k)) - base)"

definition index_ok :: "int \<Rightarrow> (record_batch \<times> bytes) list \<Rightarrow> (u32 \<times> u32) list \<Rightarrow> bool" where
  "index_ok base cs es \<longleftrightarrow> sorted_wrt (\<lambda>x y. fst x < fst y \<and> snd x < snd y) es
     \<and> list_all (points base cs) es"

definition seg_holds :: "batch_lib \<Rightarrow> segment \<Rightarrow> (record_batch \<times> bytes) list \<Rightarrow> bool" where
  "seg_holds lib s cs \<longleftrightarrow> 0 \<le> sg_base_offset s \<and> sg_base_offset s \<le> i64_MAX \<and> sg_log s = cells_bytes cs
     \<and> list_all (\<lambda>(b, out). stored lib b out) cs \<and> offsets_ok (sg_base_offset s) cs
     \<and> sg_last_offset s = end_of (sg_base_offset s) cs
     \<and> index_ok (sg_base_offset s) cs (oi_entries (sg_offset_index s)) \<and> oi_synced (sg_offset_index s)"

lemma index_okD:
  assumes "index_ok base cs es" and "e \<in> set es"
  obtains k where "k < length cs" "unat (snd e) = start_of cs k" "uint (fst e) = rb_base_offset (fst (cs ! k)) - base"
  using assms by (auto simp: index_ok_def list_all_iff points_def)

lemma seg_holdsD:
  assumes "seg_holds lib s cs"
  shows "0 \<le> sg_base_offset s" "sg_base_offset s \<le> i64_MAX" "sg_log s = cells_bytes cs"
    "list_all (\<lambda>(b, out). stored lib b out) cs" "offsets_ok (sg_base_offset s) cs"
    "sg_last_offset s = end_of (sg_base_offset s) cs" "index_ok (sg_base_offset s) cs (oi_entries (sg_offset_index s))"
    "oi_synced (sg_offset_index s)"
  using assms by (simp_all add: seg_holds_def)

lemma seg_holds_create: "0 \<le> base \<Longrightarrow> base \<le> i64_MAX \<Longrightarrow> seg_holds lib (seg_create base) []"
  by (simp add: seg_holds_def seg_create_def offsets_ok_def end_of_def index_ok_def oi_open_def rows_of_short
      OFFSET_ENTRY_SIZE_def oi_synced_def int_width)

lemma start_of_less:
  assumes "list_all (\<lambda>(b, out). stored lib b out) cs" and "j < k" and "k \<le> length cs"
  shows "start_of cs j < start_of cs k"
proof -
  have "take k cs = take j cs @ take (k - j) (drop j cs)" using assms by (metis le_add_diff_inverse nless_le take_add)
  moreover have "take (k - j) (drop j cs) = cs ! j # take (k - Suc j) (drop (Suc j) cs)"
    using assms by (metis Cons_nth_drop_Suc Suc_diff_Suc less_le_trans take_Suc_Cons)
  moreover have "snd (cs ! j) \<noteq> []" using assms stored_length [of lib "fst (cs ! j)" "snd (cs ! j)"]
    by (auto simp: list_all_length split_def)
  ultimately show ?thesis by (simp add: start_of_def)
qed

lemma start_of_length: "start_of cs (length cs) = length (cells_bytes cs)"
  by (simp add: start_of_def)

lemma start_of_append: "k \<le> length cs \<Longrightarrow> start_of (cs @ ds) k = start_of cs k"
  by (simp add: start_of_def)

lemma oi_last_entry_Some: "oi_last_entry ix = Some e \<Longrightarrow> e \<in> set (oi_entries ix)"
  by (auto simp: oi_last_entry_def split: if_splits)

lemma last_run_of: "cs \<noteq> [] \<Longrightarrow> fst (last (run_of cs)) = fst (last cs)"
  by (simp add: run_of_def last_map split_def)

lemma run_of_Nil [simp]: "run_of cs = [] \<longleftrightarrow> cs = []"
  by (simp add: run_of_def)

section \<open>Recovery\<close>

lemma recovered_tail:
  assumes "seg_holds lib s cs" and "t = [] \<or> (\<exists>e. batch_decode lib t = Inl e)"
    and "sg_log r = sg_log s @ t" and "sg_offset_index r = sg_offset_index s" and "sg_last_offset r = sg_base_offset s - 1"
    and "sg_base_offset r = sg_base_offset s"
  shows "sg_log (recover_active_tail lib r) = sg_log s" "sg_last_offset (recover_active_tail lib r) = sg_last_offset s"
proof -
  note h = seg_holdsD [OF assms(1)]
  obtain k where k: "(case oi_last_entry (sg_offset_index r) of None \<Rightarrow> 0 | Some (_, pos) \<Rightarrow> unat pos) = start_of cs k"
    and k_le: "k \<le> length cs" "cs \<noteq> [] \<Longrightarrow> k < length cs"
  proof (cases "oi_last_entry (sg_offset_index s)")
    case None
    then show thesis using that [of 0] assms(4) by (simp add: start_of_def)
  next
    case (Some e)
    obtain k where "k < length cs" "unat (snd e) = start_of cs k"
      using index_okD [OF h(7) oi_last_entry_Some [OF Some]] by metis
    then show thesis using that [of k] assms(4) Some by (simp add: split_def)
  qed
  have run: "decode_run lib (drop (start_of cs k) (sg_log r)) = run_of (drop k cs)"
  proof -
    have "start_of cs k \<le> length (cells_bytes cs)" using start_of_less [OF h(4), of k "length cs"] k_le start_of_length [of cs]
      by (cases "k = length cs") auto
    then have "drop (start_of cs k) (sg_log r) = cells_bytes (drop k cs) @ t"
      by (simp add: assms(3) h(3) drop_start_of)
    moreover have "list_all (\<lambda>(b, out). stored lib b out) (drop k cs)" using h(4) by (auto simp: list_all_iff dest: in_set_dropD)
    ultimately show ?thesis using decode_run_cells [OF _ assms(2)] by simp
  qed
  have len: "start_of cs k + length (cells_bytes (drop k cs)) = length (cells_bytes cs)"
    by (metis append_take_drop_id cells_bytes_simps(3) length_append start_of_def)
  show "sg_log (recover_active_tail lib r) = sg_log s"
  proof (cases "length (sg_log r) \<le> start_of cs k")
    case True
    then have "length t = 0" using len unfolding assms(3) h(3) length_append by linarith
    then show ?thesis using True k by (simp add: recover_active_tail_def Let_def assms(3))
  next
    case False
    then show ?thesis using run k len by (simp add: recover_active_tail_def Let_def assms(3) h(3))
  qed
  show "sg_last_offset (recover_active_tail lib r) = sg_last_offset s"
  proof (cases "cs = []")
    case True
    then show ?thesis using run k assms(5) h(6) by (simp add: recover_active_tail_def Let_def end_of_def)
  next
    case False
    then have "\<not> length (sg_log r) \<le> start_of cs k"
      using start_of_less [OF h(4) k_le(2) order_refl] start_of_length [of cs] by (simp add: assms(3) h(3))
    moreover have "last (drop k cs) = last cs" "drop k cs \<noteq> []" using k_le(2) [OF False] by simp_all
    ultimately show ?thesis using run k False h(6) last_run_of [of "drop k cs"]
      by (simp add: recover_active_tail_def Let_def end_of_def)
  qed
qed

section \<open>Appending and truncating\<close>

lemma u32_try_from_Some: "u32_try_from n = Some w \<Longrightarrow> 0 \<le> n \<and> uint w = n"
  by (auto simp: u32_try_from_def uint_word_of_int split: if_splits)

lemma u32_try_from_nat: "u32_try_from (int n) = Some w \<Longrightarrow> unat w = n"
  using u32_try_from_Some [of "int n" w] by (simp add: unat_eq_nat_uint)

lemma end_of_ge: "offsets_ok base cs \<Longrightarrow> x \<in> set cs \<Longrightarrow> batch_last (fst x) \<le> end_of base cs"
  by (cases cs rule: rev_cases) (auto simp: offsets_ok_def end_of_def sorted_wrt_append)

lemma end_of_base: "offsets_ok base cs \<Longrightarrow> base - 1 \<le> end_of base cs"
  by (cases cs rule: rev_cases) (auto simp: offsets_ok_def end_of_def)

lemma points_append: "points base cs e \<Longrightarrow> points base (cs @ ds) e"
  unfolding points_def by (auto simp: start_of_append nth_append intro: exI)

lemma index_ok_append: "index_ok base cs es \<Longrightarrow> index_ok base (cs @ ds) es"
  by (auto simp: index_ok_def list_all_iff points_append)

lemma index_ok_snoc:
  assumes "index_ok base cs es" and "offsets_ok base (cs @ [(b, out)])" and "list_all (\<lambda>(b, out). stored lib b out) cs"
    and "uint rel = rb_base_offset b - base" and "unat pos = length (cells_bytes cs)"
  shows "index_ok base (cs @ [(b, out)]) (es @ [(rel, pos)])"
proof -
  have below: "fst e < rel \<and> snd e < pos" if mem: "e \<in> set es" for e
  proof -
    obtain k where k: "k < length cs" "unat (snd e) = start_of cs k" "uint (fst e) = rb_base_offset (fst (cs ! k)) - base"
      using assms(1) mem by (rule index_okD)
    have "cs ! k \<in> set cs" using k(1) by simp
    then have "rb_base_offset (fst (cs ! k)) \<le> batch_last (fst (cs ! k))" "batch_last (fst (cs ! k)) < rb_base_offset b"
      using assms(2) by (simp_all add: offsets_ok_def sorted_wrt_append list_all_iff split_def)
    then have "fst e < rel" using k(3) assms(4) by (simp add: word_less_def)
    moreover have "snd e < pos"
      using start_of_less [OF assms(3) k(1) order_refl] k(2) assms(5) start_of_length [of cs] by (simp add: word_less_nat_alt)
    ultimately show ?thesis by simp
  qed
  have "points base (cs @ [(b, out)]) (rel, pos)"
    using assms(4,5) unfolding points_def by (intro exI [of _ "length cs"]) (simp add: start_of_append start_of_length)
  moreover have "sorted_wrt (\<lambda>x y. fst x < fst y \<and> snd x < snd y) (es @ [(rel, pos)])"
    using assms(1) below by (simp add: index_ok_def sorted_wrt_append)
  ultimately show ?thesis using index_ok_append [OF assms(1), of "[(b, out)]"] by (simp add: index_ok_def)
qed

text \<open>A batch that continues the segment is appended to what it holds.\<close>

lemma write_batch_holds:
  assumes "seg_holds lib s cs" and "stored lib b out" and "sg_last_offset s < rb_base_offset b"
    and "rb_base_offset b \<le> batch_last b" and "batch_last b < i64_MAX"
    and "write_batch s out (rb_base_offset b) (batch_last b) ts interval = (Inr pos, s')"
  shows "seg_holds lib s' (cs @ [(b, out)])" "sg_base_offset s' = sg_base_offset s" "sg_sealed s' = sg_sealed s"
proof -
  note h = seg_holdsD [OF assms(1)]
  have offs: "offsets_ok (sg_base_offset s) (cs @ [(b, out)])"
  proof -
    have "batch_last (fst x) < rb_base_offset b" if "x \<in> set cs" for x
      using end_of_ge [OF h(5) that] assms(3) h(6) by simp
    moreover have "sg_base_offset s \<le> rb_base_offset b"
      using assms(3) h(6) end_of_base [OF h(5)] by simp
    ultimately show ?thesis using h(5) assms(4,5) by (auto simp: offsets_ok_def sorted_wrt_append)
  qed
  have rel: "i64_wrapping_sub (rb_base_offset b) (sg_base_offset s) = rb_base_offset b - sg_base_offset s"
    using offs h(1) assms(4,5) by (intro i64_wrapping_sub_ok) (auto simp: offsets_ok_def int_width)
  let ?idx = "\<lambda>es ix. index_ok (sg_base_offset s) (cs @ [(b, out)]) es \<and> oi_synced ix"
  consider (plain) "sg_offset_index s' = sg_offset_index s"
    | (indexed) r p where "u32_try_from (rb_base_offset b - sg_base_offset s) = Some r"
        "u32_try_from (int (length (sg_log s))) = Some p" "sg_offset_index s' = oi_append (sg_offset_index s) r p"
    using assms(6) by (auto simp: write_batch_def Let_def rel split: option.splits if_splits)
  then have idx: "index_ok (sg_base_offset s) (cs @ [(b, out)]) (oi_entries (sg_offset_index s')) \<and> oi_synced (sg_offset_index s')"
  proof cases
    case plain
    then show ?thesis using index_ok_append [OF h(7)] h(8) by simp
  next
    case indexed
    have p: "unat p = length (cells_bytes cs)" "uint r = rb_base_offset b - sg_base_offset s"
      using u32_try_from_nat [OF indexed(2)] u32_try_from_Some [OF indexed(1)] h(3) by simp_all
    have new: "index_ok (sg_base_offset s) (cs @ [(b, out)]) (oi_entries (sg_offset_index s) @ [(r, p)])"
      using index_ok_snoc [OF h(7) offs h(4) p(2,1)] .
    then have "\<forall>e \<in> set (oi_entries (sg_offset_index s)). snd e < p" by (auto simp: index_ok_def sorted_wrt_append)
    from oi_synced_append [OF h(8) this] show ?thesis using new indexed(3) by (simp add: oi_append_def)
  qed
  have s': "sg_log s' = sg_log s @ out" "sg_last_offset s' = batch_last b" "sg_base_offset s' = sg_base_offset s"
    "sg_sealed s' = sg_sealed s"
    using assms(6) by (auto simp: write_batch_def Let_def split: option.splits if_splits)
  then show "seg_holds lib s' (cs @ [(b, out)])" using h idx offs assms(2)
    by (simp add: seg_holds_def end_of_def)
  show "sg_base_offset s' = sg_base_offset s" "sg_sealed s' = sg_sealed s" using s' by simp_all
qed

lemma run_of_takeWhile: "takeWhile (\<lambda>(b, _). P b) (run_of cs) = run_of (takeWhile (\<lambda>(b, _). P b) cs)"
  by (induction cs) (auto simp: run_of_def)

lemma takeWhile_take_stop: "k < length xs \<Longrightarrow> \<not> P (xs ! k) \<Longrightarrow> takeWhile P (take k xs) = takeWhile P xs"
  by (induction xs arbitrary: k) (auto simp: take_Cons' nth_Cons' split: if_splits)

lemma index_ok_take:
  assumes "index_ok base cs es" and "list_all (\<lambda>(b, out). stored lib b out) cs" and "m \<le> length cs"
    and "unat pos = start_of cs m"
  shows "index_ok base (take m cs) (take (length (takeWhile (\<lambda>(_, p). p < pos) es)) es)"
proof -
  let ?kept = "takeWhile (\<lambda>(_, p). p < pos) es"
  have kept: "take (length ?kept) es = ?kept" by (metis takeWhile_eq_take)
  have "points base (take m cs) e" if mem: "e \<in> set ?kept" for e
  proof -
    have e: "snd e < pos" "e \<in> set es" using set_takeWhileD [OF mem] by (simp_all add: split_def)
    obtain k where k: "k < length cs" "unat (snd e) = start_of cs k" "uint (fst e) = rb_base_offset (fst (cs ! k)) - base"
      using assms(1) e(2) by (rule index_okD)
    have "k < m"
    proof (rule ccontr)
      assume "\<not> k < m"
      then have "start_of cs m \<le> start_of cs k"
        using start_of_less [OF assms(2), of m k] k(1) by (cases "k = m") auto
      then show False using e(1) k(2) assms(4) by (simp add: word_less_nat_alt)
    qed
    then show ?thesis using k assms(3) unfolding points_def by (intro exI [of _ k]) (simp add: start_of_def min_def)
  qed
  moreover have "sorted_wrt (\<lambda>x y. fst x < fst y \<and> snd x < snd y) (take (length ?kept) es)"
    using assms(1) by (intro sorted_wrt_take) (simp add: index_ok_def)
  ultimately show ?thesis unfolding index_ok_def list_all_iff kept by blast
qed

lemma offsets_ok_take: "offsets_ok base cs \<Longrightarrow> offsets_ok base (take m cs)"
  by (auto simp: offsets_ok_def sorted_wrt_take list_all_iff dest: in_set_takeD)

text \<open>
  Truncation keeps exactly the batches that end below the target; the read limit that it takes from
  the index cuts none of them off.
\<close>

lemma truncate_reads_kept:
  assumes "seg_holds lib s cs"
    and "buf = read_log_range s 0 (case oi_position_at_or_after (sg_offset_index s) rel of None \<Rightarrow> length (sg_log s) | Some p \<Rightarrow> unat p)"
  shows "takeWhile (\<lambda>(b, _). batch_last b < sg_base_offset s + uint rel) (decode_run lib buf) =
    run_of (takeWhile (\<lambda>(b, _). batch_last b < sg_base_offset s + uint rel) cs)"
proof -
  note h = seg_holdsD [OF assms(1)]
  let ?P = "\<lambda>(b, _). batch_last b < sg_base_offset s + uint rel"
  show ?thesis
  proof (cases "oi_position_at_or_after (sg_offset_index s) rel")
    case None
    then have "buf = cells_bytes cs" using assms(2) h(3) by (simp add: read_log_range_def Let_def)
    then show ?thesis using decode_run_cells [OF h(4), of "[]"] by (simp add: run_of_takeWhile)
  next
    case (Some p)
    have sorted: "sorted_wrt (\<lambda>x y. fst x < fst y) (oi_entries (sg_offset_index s))"
      using h(7) by (auto simp: index_ok_def elim: sorted_wrt_mono_rel [rotated])
    obtain i where i: "i < length (oi_entries (sg_offset_index s))" "snd (oi_entries (sg_offset_index s) ! i) = p"
      "rel \<le> fst (oi_entries (sg_offset_index s) ! i)"
      using position_at_or_after_Some [OF sorted Some] by metis
    let ?e = "oi_entries (sg_offset_index s) ! i"
    obtain k where k: "k < length cs" "unat p = start_of cs k" "uint (fst ?e) = rb_base_offset (fst (cs ! k)) - sg_base_offset s"
      using index_okD [OF h(7) nth_mem [OF i(1)]] i(2) by metis
    have "start_of cs k \<le> length (cells_bytes cs)" using start_of_less [OF h(4) k(1)] start_of_length [of cs] by simp
    then have "buf = take (start_of cs k) (cells_bytes cs)"
      using assms(2) Some k(2) h(3) by (simp add: read_log_range_def Let_def)
    also have "\<dots> = cells_bytes (take k cs)"
      by (metis append_eq_conv_conj append_take_drop_id cells_bytes_simps(3) start_of_def)
    finally have buf: "decode_run lib buf = run_of (take k cs)"
      using decode_run_cells [of lib "take k cs" "[]"] h(4) by (auto simp: list_all_iff dest: in_set_takeD)
    have "rb_base_offset (fst (cs ! k)) \<le> batch_last (fst (cs ! k))" using h(5) k(1)
      by (simp add: offsets_ok_def list_all_length split_def)
    moreover have "uint rel \<le> uint (fst ?e)" using i(3) by (simp add: word_le_def)
    ultimately have "\<not> ?P (cs ! k)" using k(3) by (simp add: split_def)
    then show ?thesis using buf takeWhile_take_stop [of k cs ?P] k(1) by (simp add: run_of_takeWhile)
  qed
qed

lemma truncate_holds:
  assumes "seg_holds lib s cs" and "sg_base_offset s + uint rel \<le> i64_MAX"
    and "length (cells_bytes (takeWhile (\<lambda>(b, _). batch_last b < sg_base_offset s + uint rel) cs)) < 2 ^ 32"
  defines "kept \<equiv> takeWhile (\<lambda>(b, _). batch_last b < sg_base_offset s + uint rel) cs"
  obtains s' where "truncate_to_relative lib s rel = (Inr (), s')" "seg_holds lib s' kept"
    "sg_base_offset s' = sg_base_offset s" "\<not> sg_sealed s'"
proof -
  note h = seg_holdsD [OF assms(1)]
  define m where "m = length kept"
  have kept: "kept = take m cs" "m \<le> length cs"
    by (simp_all add: m_def kept_def takeWhile_eq_take [symmetric] length_takeWhile_le)
  have target: "i64_wrapping_add (sg_base_offset s) (uint rel) = sg_base_offset s + uint rel"
    using assms(2) h(1) by (intro i64_wrapping_add_ok) (simp add: i64_ok_def i64_MIN_def order_trans [OF _ add_nonneg_nonneg])
  let ?run = "takeWhile (\<lambda>(b, _). batch_last b < sg_base_offset s + uint rel)
      (decode_run lib (read_log_range s 0 (case oi_position_at_or_after (sg_offset_index s) rel of None \<Rightarrow> length (sg_log s) | Some p \<Rightarrow> unat p)))"
  have run: "?run = run_of kept" using truncate_reads_kept [OF assms(1) refl, of rel] by (simp add: kept_def)
  have pos: "length (cells_bytes kept) = start_of cs m" by (simp add: kept(1) start_of_def)
  have "start_of cs m \<le> length (cells_bytes cs)"
    using start_of_less [OF h(4), of m "length cs"] kept(2) start_of_length [of cs] by (cases "m = length cs") auto
  note fits = this
  obtain pos32 where pos32: "u32_try_from (int (start_of cs m)) = Some pos32"
    using pos assms(3) by (simp add: u32_try_from_def kept_def)
  have base1: "i64_wrapping_sub (sg_base_offset s) 1 = sg_base_offset s - 1"
    using h(1,2) by (intro i64_wrapping_sub_ok) (auto simp: int_width)
  let ?s1 = "s\<lparr>sg_log := set_len (sg_log s) (start_of cs m),
       sg_last_offset := (if kept = [] then sg_base_offset s - 1 else batch_last (fst (last kept))),
       sg_max_timestamp := fold (\<lambda>(b, _) ts. max ts (rb_max_timestamp b)) (run_of kept) i64_MIN,
       sg_offset_index := oi_truncate_by_position (sg_offset_index s) pos32,
       sg_time_index := ti_truncate_by_relative_offset (sg_time_index s) rel, sg_sealed := False\<rparr>"
  have "truncate_to_relative lib s rel = (Inr (), ?s1)"
    using run pos pos32 last_run_of [of kept] by (simp add: truncate_to_relative_def Let_def target base1)
  moreover have "seg_holds lib ?s1 kept"
  proof -
    have "set_len (sg_log s) (start_of cs m) = cells_bytes kept"
      using fits h(3) kept(1) by (simp add: set_len_def) (metis append_eq_conv_conj append_take_drop_id cells_bytes_simps(3) start_of_def)
    moreover have "index_ok (sg_base_offset s) kept (oi_entries (oi_truncate_by_position (sg_offset_index s) pos32))"
      using index_ok_take [OF h(7,4) kept(2) u32_try_from_nat [OF pos32]] by (simp add: kept(1) oi_truncate_by_position_def Let_def)
    moreover have "list_all (\<lambda>(b, out). stored lib b out) kept" using h(4) kept(1) by (auto simp: list_all_iff dest: in_set_takeD)
    ultimately show ?thesis using h oi_synced_truncate [OF h(8)] offsets_ok_take [OF h(5), of m] kept(1)
      by (simp add: seg_holds_def end_of_def)
  qed
  ultimately show thesis using that by simp
qed

section \<open>Decoded reads and timestamp scans\<close>

lemma read_loop_prefix:
  "prefix (read_loop off mx tot (run_of cs)) (filter (\<lambda>b. off \<le> batch_last b) (map fst cs))"
  by (induction cs arbitrary: tot) (auto simp: run_of_def)

lemma read_loop_some: "filter (\<lambda>b. off \<le> batch_last b) (map fst cs) \<noteq> [] \<Longrightarrow> read_loop off mx tot (run_of cs) \<noteq> []"
  by (induction cs arbitrary: tot) (auto simp: run_of_def split: if_splits)

lemma filter_prefix_take: "prefix (filter P (map f (take n xs))) (filter P (map f xs))"
  by (metis append_take_drop_id filter_append map_append Sublist.prefixI)

lemma offsets_ok_less:
  "offsets_ok base cs \<Longrightarrow> i < j \<Longrightarrow> j < length cs \<Longrightarrow> batch_last (fst (cs ! i)) < rb_base_offset (fst (cs ! j))"
  using sorted_wrt_nth_less [of "\<lambda>x y. batch_last (fst x) < rb_base_offset (fst y)" cs i j] by (simp add: offsets_ok_def)

lemma offsets_ok_mem:
  "offsets_ok base cs \<Longrightarrow> c \<in> set cs \<Longrightarrow>
   base \<le> rb_base_offset (fst c) \<and> rb_base_offset (fst c) \<le> batch_last (fst c) \<and> batch_last (fst c) < i64_MAX"
  by (auto simp: offsets_ok_def list_all_iff)

lemma lookup_start:
  assumes "seg_holds lib s cs" and "target_rel s offset = Some rel" and "0 \<le> offset" and "offset \<le> i64_MAX"
  obtains k where "unat (oi_lookup (sg_offset_index s) rel) = start_of cs k" "k \<le> length cs"
    "filter (\<lambda>b. offset \<le> batch_last b) (map fst cs) = filter (\<lambda>b. offset \<le> batch_last b) (map fst (drop k cs))"
proof -
  note h = seg_holdsD [OF assms(1)]
  let ?es = "oi_entries (sg_offset_index s)"
  have sorted: "sorted_wrt (<) (map fst ?es)"
    using h(7) by (auto simp: index_ok_def sorted_wrt_map elim: sorted_wrt_mono_rel [rotated])
  have lookup: "oi_lookup (sg_offset_index s) rel = floor_position ?es rel"
    by (simp add: oi_lookup_def offset_index_lookup_eq [OF sorted])
  have rel: "uint rel = max 0 (offset - sg_base_offset s)"
    using assms(2-4) h(1,2) u32_try_from_Some [of "max 0 (offset - sg_base_offset s)" rel]
    by (simp add: target_rel_def int_width)
  let ?below = "filter (\<lambda>(r, _). r \<le> rel) ?es"
  show thesis
  proof (cases "?below = []")
    case True
    then show thesis using that [of 0] lookup by (simp add: floor_position_def start_of_def)
  next
    case False
    have "last ?below \<in> set ?es" "fst (last ?below) \<le> rel" using last_in_set [OF False] by auto
    then obtain k where k: "k < length cs" "unat (snd (last ?below)) = start_of cs k"
      "uint (fst (last ?below)) = rb_base_offset (fst (cs ! k)) - sg_base_offset s"
      using index_okD [OF h(7)] by metis
    have "rb_base_offset (fst (cs ! k)) \<le> max offset (sg_base_offset s)"
      using k(3) \<open>fst (last ?below) \<le> rel\<close> rel by (simp add: word_le_def)
    note start = this
    have "\<not> offset \<le> batch_last (fst c)" if mem: "c \<in> set (take k cs)" for c
    proof -
      obtain i where i: "i < k" "c = cs ! i" using mem k(1) by (auto simp: in_set_conv_nth)
      then have "batch_last (fst c) < rb_base_offset (fst (cs ! k))" "sg_base_offset s \<le> batch_last (fst c)"
        using offsets_ok_less [OF h(5), of i k] offsets_ok_mem [OF h(5), of c] k(1) by simp_all
      then show ?thesis using start by linarith
    qed
    then have "filter (\<lambda>b. offset \<le> batch_last b) (map fst (take k cs)) = []" by (auto simp: filter_empty_conv)
    then have "filter (\<lambda>b. offset \<le> batch_last b) (map fst cs) = filter (\<lambda>b. offset \<le> batch_last b) (map fst (drop k cs))"
      by (metis append_Nil append_take_drop_id filter_append map_append)
    then show thesis using that [of k] k lookup False by (simp add: floor_position_def)
  qed
qed

text \<open>
  A decoded read returns the batches that reach the offset, in order and without a hole, and at least
  one of them when the window covers the file.
\<close>

lemma seg_read_holds:
  assumes "seg_holds lib s cs" and "0 \<le> offset" and "offset \<le> i64_MAX" and "seg_read lib s offset n = Inr out"
  shows "prefix out (filter (\<lambda>b. offset \<le> batch_last b) (map fst cs))"
    and "offset \<le> sg_last_offset s \<Longrightarrow> length (sg_log s) \<le> n \<Longrightarrow> cs \<noteq> [] \<Longrightarrow> out \<noteq> []"
proof -
  note h = seg_holdsD [OF assms(1)]
  let ?hits = "filter (\<lambda>b. offset \<le> batch_last b) (map fst cs)"
  have out: "prefix out ?hits \<and> (length (sg_log s) \<le> n \<longrightarrow> ?hits \<noteq> [] \<longrightarrow> out \<noteq> [])"
    if le: "offset \<le> sg_last_offset s"
  proof -
    obtain rel where rel: "target_rel s offset = Some rel" and
      run: "out = read_loop offset n 0 (decode_run lib (read_log_range s (unat (oi_lookup (sg_offset_index s) rel)) n))"
      using assms(4) le by (auto simp: seg_read_def Let_def split: option.splits)
    obtain k where k: "unat (oi_lookup (sg_offset_index s) rel) = start_of cs k" "k \<le> length cs"
      and hits: "?hits = filter (\<lambda>b. offset \<le> batch_last b) (map fst (drop k cs))"
      using lookup_start [OF assms(1) rel assms(2,3)] by metis
    have st: "list_all (\<lambda>(b, out). stored lib b out) (drop k cs)" using h(4) by (auto simp: list_all_iff dest: in_set_dropD)
    have "read_log_range s (start_of cs k) n = take n (cells_bytes (drop k cs))"
      by (simp add: read_log_range_def Let_def h(3) drop_start_of min_def) (metis drop_start_of length_drop linorder_not_le nle_le take_all)
    then have out: "out = read_loop offset n 0 (run_of (fitting n (drop k cs)))"
      using run k(1) decode_run_window [OF st] by simp
    have "prefix out (filter (\<lambda>b. offset \<le> batch_last b) (map fst (fitting n (drop k cs))))"
      unfolding out by (rule read_loop_prefix)
    also have "prefix \<dots> ?hits" unfolding hits by (subst fitting_prefix) (rule filter_prefix_take)
    finally have "prefix out ?hits" .
    moreover have "out \<noteq> []" if "length (sg_log s) \<le> n" "?hits \<noteq> []"
    proof -
      have "length (cells_bytes (drop k cs)) \<le> n" using that(1) h(3) by (metis drop_start_of length_drop diff_le_self order_trans)
      then show ?thesis using that(2) hits read_loop_some [of offset "drop k cs"] out by (simp add: fitting_all)
    qed
    ultimately show ?thesis by simp
  qed
  show "prefix out ?hits" using out assms(4) by (cases "offset \<le> sg_last_offset s") (auto simp: seg_read_def split: if_splits)
  show "out \<noteq> []" if "offset \<le> sg_last_offset s" "length (sg_log s) \<le> n" "cs \<noteq> []"
  proof -
    have "fst (last cs) \<in> set ?hits" using that h(6) by (simp add: end_of_def)
    then show ?thesis using out [OF that(1)] that(2) by (metis empty_iff list.set(1))
  qed
qed

lemma first_match_append:
  "first_match p (xs @ ys) = (case first_match p xs of Some hit \<Rightarrow> Some hit | None \<Rightarrow> first_match p ys)"
  by (induction xs) (auto split: option.splits)

lemma offsets_ok_filter:
  assumes "offsets_ok base cs" and "filter (\<lambda>b. cursor \<le> batch_last b) (map fst cs) = xs @ ys" and "xs \<noteq> []"
  shows "filter (\<lambda>b. batch_last (last xs) + 1 \<le> batch_last b) (map fst cs) = ys" and "cursor \<le> batch_last (last xs)"
proof -
  let ?hits = "filter (\<lambda>b. cursor \<le> batch_last b) (map fst cs)"
  have "sorted_wrt (\<lambda>x y. batch_last x < batch_last y) (map fst cs)"
  proof -
    have "sorted_wrt (\<lambda>x y. batch_last (fst x) < batch_last (fst y)) cs"
      using assms(1) offsets_ok_mem [OF assms(1)] unfolding offsets_ok_def
      by (elim conjE) (rule sorted_wrt_mono_rel [rotated], assumption, force)
    then show ?thesis by (simp add: sorted_wrt_map)
  qed
  then have "sorted_wrt (\<lambda>x y. batch_last x < batch_last y) (xs @ ys)"
    using sorted_wrt_filter [of _ "map fst cs" "\<lambda>b. cursor \<le> batch_last b"] assms(2) by simp
  then have above: "\<forall>y \<in> set ys. batch_last (last xs) < batch_last y" and below: "\<forall>x \<in> set xs. batch_last x \<le> batch_last (last xs)"
    using assms(3) by (cases xs rule: rev_cases; force simp: sorted_wrt_append)+
  show cursor: "cursor \<le> batch_last (last xs)"
  proof -
    have "last xs \<in> set ?hits" using assms(3) unfolding assms(2) by simp
    then show ?thesis by simp
  qed
  have "filter (\<lambda>b. batch_last (last xs) + 1 \<le> batch_last b) (map fst cs) =
      filter (\<lambda>b. batch_last (last xs) + 1 \<le> batch_last b) ?hits"
    using cursor by (auto simp: filter_filter intro!: filter_cong)
  also have "\<dots> = ys" unfolding assms(2) using above below by (auto simp: filter_empty_conv filter_id_conv not_le)
  finally show "filter (\<lambda>b. batch_last (last xs) + 1 \<le> batch_last b) (map fst cs) = ys" .
qed

lemma scan_loop_exact:
  assumes "seg_holds lib s cs" and "end_of (sg_base_offset s) cs - sg_base_offset s < 2 ^ 32"
  shows "sg_base_offset s \<le> cursor \<Longrightarrow> cursor \<le> i64_MAX \<Longrightarrow> 0 < window \<Longrightarrow>
    scan_loop lib s p cursor window = Some (first_match p (filter (\<lambda>b. cursor \<le> batch_last b) (map fst cs)))"
proof (induction "nat (sg_last_offset s + 1 - cursor)" arbitrary: cursor window rule: less_induct)
  case (less cursor)
  note h = seg_holdsD [OF assms(1)]
  let ?hits = "filter (\<lambda>b. cursor \<le> batch_last b) (map fst cs)"
  show ?case
  proof (cases "sg_last_offset s < cursor")
    case True
    then have "?hits = []" using end_of_ge [OF h(5)] h(6) by (force simp: filter_empty_conv)
    then show ?thesis using True by (simp add: scan_loop.simps)
  next
    case False
    then have cs: "cs \<noteq> []" using less.prems(1) h(6) by (auto simp: end_of_def)
    have "i64_ok (cursor - sg_base_offset s)" using less.prems(1,2) h(1,2) by (simp add: int_width)
    then obtain rel where "target_rel s cursor = Some rel"
      using False less.prems(1) h(6) assms(2) by (simp add: target_rel_def u32_try_from_def)
    then have reads: "\<exists>out. seg_read lib s cursor w = Inr out" for w
      using False by (simp add: seg_read_def Let_def)
    have step: "scan_loop lib s p cursor w = Some (first_match p ?hits)"
      if read: "seg_read lib s cursor w = Inr out" and out: "out \<noteq> []" and w: "0 < w" for w out
    proof -
      have cur: "0 \<le> cursor" using less.prems(1) h(1) by simp
      obtain ys where ys: "?hits = out @ ys"
        using seg_read_holds(1) [OF assms(1) cur less.prems(2) read] by (auto elim: prefixE)
      note nxt = offsets_ok_filter [OF h(5) ys out]
      have "last out \<in> set ?hits" using out unfolding ys by simp
      then have top: "batch_last (last out) < i64_MAX" "batch_last (last out) \<le> sg_last_offset s"
        using offsets_ok_mem [OF h(5)] end_of_ge [OF h(5)] h(6) by auto
      then have wrap: "i64_wrapping_add (batch_last (last out)) 1 = batch_last (last out) + 1"
        using nxt(2) cur by (intro i64_wrapping_add_ok) (simp add: int_width)
      have "nat (sg_last_offset s + 1 - (batch_last (last out) + 1)) < nat (sg_last_offset s + 1 - cursor)"
        using top nxt(2) False by simp
      from less.hyps [OF this _ _ w] nxt less.prems(1) top(1)
      have "scan_loop lib s p (batch_last (last out) + 1) w = Some (first_match p ys)" by simp
      then show ?thesis using read out False wrap
        by (subst scan_loop.simps) (simp add: ys first_match_append split: option.splits)
    qed
    show ?thesis using less.prems(3)
    proof (induction "length (sg_log s) - window" arbitrary: window rule: less_induct)
      case (less window)
      obtain out where out: "seg_read lib s cursor window = Inr out" using reads by blast
      show ?case
      proof (cases "out = []")
        case True
        have cur: "0 \<le> cursor" "cursor \<le> i64_MAX" using \<open>sg_base_offset s \<le> cursor\<close> h(1) \<open>cursor \<le> i64_MAX\<close> by simp_all
        have "\<not> length (sg_log s) \<le> window" using seg_read_holds(2) [OF assms(1) cur out] False cs True by auto
        then have "scan_loop lib s p cursor (2 * window) = Some (first_match p ?hits)"
          using less.prems by (intro less.hyps) auto
        then show ?thesis using out True False by (subst scan_loop.simps) simp
      next
        case nonempty: False
        then show ?thesis using step [OF out] less.prems by simp
      qed
    qed
  qed
qed

text \<open>What the encoder wrote is stored, and so is a validated batch after the log has stamped it.\<close>

lemma stored_encode:
  assumes "batch_ok b" and "batch_encode lib b = Some (Inr out)" and "length out \<le> 2147483659"
    and "codec_laws (bl_codecs lib)" and "sum_list (map record_encoded_len (rb_records b)) \<le> bl_output_limit lib (length out - 61)"
  shows "stored lib b out"
  using batch_decode_encode [OF assms] by (simp add: stored_def)

lemma stored_verbatim:
  assumes "batch_decode lib bs = Inr (b, [])" and "i64_ok base_offset" and "i32_ok leader_epoch"
  shows "\<exists>header. patch_base_offset_and_leader_epoch (take HEADER_LEN bs) base_offset leader_epoch = Some header \<and>
    stored lib (b\<lparr>rb_base_offset := base_offset, rb_partition_leader_epoch := leader_epoch\<rparr>) (header @ drop HEADER_LEN bs)"
proof -
  obtain hdr body where frame: "checked_frame lib bs = Inr (hdr, body, [])"
    using assms(1) by (auto simp: batch_decode_frame rbind_def split: sum.splits prod.splits if_splits)
  then have "HEADER_LEN \<le> length bs" by (auto simp: checked_frame_def split: if_splits)
  then obtain A L E T where parts: "bs = A @ L @ E @ T" "length A = 8" "length L = 4" "length E = 4" "45 \<le> length T"
    by (rule header_parts)
  let ?head = "put_i64 base_offset @ L @ put_i32 leader_epoch @ take 45 T"
  have cut: "take HEADER_LEN bs = A @ L @ E @ take 45 T" "drop HEADER_LEN bs = drop 45 T" using parts by (simp_all add: HEADER_LEN_def)
  have "patch_base_offset_and_leader_epoch (take HEADER_LEN bs) base_offset leader_epoch = Some ?head"
    unfolding cut using patch_parts [OF parts(2-4), of "take 45 T"] parts(5) by simp
  moreover have whole: "?head @ drop HEADER_LEN bs = put_i64 base_offset @ L @ put_i32 leader_epoch @ T" using cut by simp
  obtain bs' where "patch_base_offset_and_leader_epoch bs base_offset leader_epoch = Some bs'"
    and frame': "checked_frame lib bs' = Inr (hdr\<lparr>bh_base_offset := base_offset, bh_partition_leader_epoch := leader_epoch\<rparr>, body, [])"
    using checked_frame_patch [OF frame assms(2,3)] by blast
  then have bs': "bs' = ?head @ drop HEADER_LEN bs" using patch_parts [OF parts(2-5)] parts(1) whole by simp
  have "batch_decode lib bs' = Inr (b\<lparr>rb_base_offset := base_offset, rb_partition_leader_epoch := leader_epoch\<rparr>, [])"
    using assms(1) frame frame'
    by (auto simp: batch_decode_frame rbind_def plain_body_def batch_of_def Let_def split: sum.splits prod.splits if_splits)
  then have "stored lib (b\<lparr>rb_base_offset := base_offset, rb_partition_leader_epoch := leader_epoch\<rparr>) bs'"
    using batch_decode_extend by (fastforce simp: stored_def)
  ultimately show ?thesis using bs' by blast
qed

section \<open>Properties of a segment\<close>

text \<open>
  C18. Crash recovery of a segment is exact: when the active segment is reopened after a crash that
  left any strict prefix of one more batch at the end of its file, the torn bytes are cut off and the
  segment holds the same batches, with the same last offset and index, as before.
\<close>

theorem recovery_restores:
  assumes "seg_holds lib s cs" and "stored lib b out" and "n < length out"
    and "files = (files_of s)\<lparr>sf_log := sg_log s @ take n out\<rparr>"
    and "r = seg_open_active lib (sg_base_offset s) files True"
  shows "seg_holds lib r cs \<and> sg_log r = sg_log s \<and> sg_last_offset r = sg_last_offset s \<and> sg_offset_index r = sg_offset_index s"
proof -
  note h = seg_holdsD [OF assms(1)]
  let ?o = "seg_open (sg_base_offset s) files"
  have r: "r = recover_active_tail lib ?o" using assms(5) by (simp add: seg_open_active_def Let_def)
  have o: "sg_log ?o = sg_log s @ take n out" "sg_offset_index ?o = sg_offset_index s" "sg_base_offset ?o = sg_base_offset s"
    using oi_open_synced [OF h(8)] assms(4) by (simp_all add: seg_open_def files_of_def)
  have o_last: "sg_last_offset ?o = sg_base_offset s - 1"
    using h(1,2) by (simp add: seg_open_def int_width)
  have "take n out = [] \<or> (\<exists>e. batch_decode lib (take n out) = Inl e)" using torn_fails [OF assms(2,3)] by blast
  note rec = recovered_tail [OF assms(1) this o(1,2) o_last o(3)]
  have "sg_offset_index r = sg_offset_index s" "sg_base_offset r = sg_base_offset s"
    using o r by (simp_all add: recover_active_tail_def Let_def)
  then show ?thesis using rec h r by (simp add: seg_holds_def)
qed

definition sample_bytes :: bytes where
  "sample_bytes = put_head 7 sample_batch 59 1 @ [18, 0, 34, 4, 2, 107, 4, 104, 105, 0]"

lemma stored_sample: "stored plain_lib sample_batch sample_bytes"
proof (rule stored_encode)
  show "codec_laws (bl_codecs plain_lib)" by (simp add: plain_lib_def stored_lib_laws)
  have "record_encoded_len sample_record \<le> 1073741824"
    using parse_encode_record(2) [OF sample_record_ok encode_sample_record] by simp
  then show "sum_list (map record_encoded_len (rb_records sample_batch)) \<le> bl_output_limit plain_lib (length sample_bytes - 61)"
    by (simp add: sample_batch_def plain_lib_def)
qed (use encodes_sample_batch in \<open>simp_all add: encodes_def sample_bytes_def\<close>)

lemma sample_last: "batch_last sample_batch = 0" "rb_base_offset sample_batch = 0"
  by (simp_all add: batch_last_def sample_batch_def record_batch_default_def int_width)

definition sample_segment :: segment where
  "sample_segment = snd (write_batch (seg_create 0) sample_bytes 0 0 0 4096)"

lemma sample_segment_holds: "seg_holds plain_lib sample_segment [(sample_batch, sample_bytes)]"
proof -
  have "write_batch (seg_create 0) sample_bytes (rb_base_offset sample_batch) (batch_last sample_batch) 0 4096 = (Inr 0, sample_segment)"
    unfolding sample_segment_def sample_last
    by (simp add: write_batch_def seg_create_def oi_open_def rows_of_short OFFSET_ENTRY_SIZE_def oi_last_entry_def
        u32_try_from_def Let_def int_width)
  from write_batch_holds(1) [OF seg_holds_create stored_sample _ _ _ this] show ?thesis
    by (simp add: sample_last seg_create_def int_width)
qed

theorem recovery_restores_witness:
  "sg_last_offset (seg_open_active plain_lib (sg_base_offset sample_segment)
     ((files_of sample_segment)\<lparr>sf_log := sg_log sample_segment @ take 20 sample_bytes\<rparr>) True) = sg_last_offset sample_segment"
  using recovery_restores [OF sample_segment_holds stored_sample _ refl refl, of 20] by (simp add: sample_bytes_def)

text \<open>
  Recovery trusts the last index entry. When the index became durable before the data it points
  at, so that nothing decodes at the position of the last entry, the reopened segment reports that it
  is empty, whatever whole batches lie before that position, and the next append reuses its base offset.
\<close>

theorem recovery_index_ahead:
  assumes "oi_last_entry (oi_open (sf_index files)) = Some (rel, pos)"
    and "decode_run lib (drop (unat pos) (sf_log files)) = []"
    and "i64_ok (base - 1)"
  shows "sg_last_offset (seg_open_active lib base files True) = base - 1"
  using assms by (simp add: seg_open_active_def seg_open_def recover_active_tail_def Let_def)

theorem recovery_index_ahead_witness:
  "sg_last_offset (seg_open_active plain_lib 0 \<lparr>sf_log = sample_bytes, sf_index = offset_row (0, 0) @ offset_row (1, 71),
     sf_timeindex = []\<rparr> True) = - 1 \<and> decode_run plain_lib sample_bytes = [(sample_batch, 71)]"
proof -
  let ?files = "\<lparr>sf_log = sample_bytes, sf_index = offset_row (0, 0) @ offset_row (1, 71), sf_timeindex = []\<rparr>"
  have "rows_of 8 (concat [offset_row (0, 0), offset_row (1, 71)] @ []) = [offset_row (0, 0), offset_row (1, 71)]"
    by (rule rows_of_concat) simp_all
  then have "oi_last_entry (oi_open (sf_index ?files)) = Some (1, 71)"
    by (simp add: oi_last_entry_def oi_open_def OFFSET_ENTRY_SIZE_def)
  moreover have "length sample_bytes = 71" by (simp add: sample_bytes_def)
  ultimately have "sg_last_offset (seg_open_active plain_lib 0 ?files True) = 0 - 1"
    by (intro recovery_index_ahead [where rel = 1 and pos = 71]) (simp_all add: decode_run_tail int_width)
  moreover have "decode_run plain_lib (cells_bytes [(sample_batch, sample_bytes)] @ []) = [(sample_batch, 71)]"
    using decode_run_cells [of plain_lib "[(sample_batch, sample_bytes)]" "[]"] stored_sample \<open>length sample_bytes = 71\<close> by simp
  ultimately show ?thesis by simp
qed

text \<open>
  C22. The timestamp scan ends and is exact: on a segment that holds whole batches, for every window
  size, it returns, and its answer is the first record at or after the floor offset, in log order,
  that satisfies the predicate. The window doubling is what makes it end on a batch larger than the window.
\<close>

theorem timestamp_scan_terminates:
  assumes "seg_holds lib s cs" and "end_of (sg_base_offset s) cs - sg_base_offset s < 2 ^ 32"
    and "sg_base_offset s \<le> floor_offset" and "floor_offset \<le> i64_MAX"
  shows "scan_from_floor_windowed lib s floor_offset window_size p =
    Some (first_match p (filter (\<lambda>b. floor_offset \<le> batch_last b) (map fst cs)))"
  using scan_loop_exact [OF assms, of "max window_size 1"] by (simp add: scan_from_floor_windowed_def)

theorem timestamp_scan_terminates_witness:
  "scan_from_floor_windowed plain_lib sample_segment 0 1 (\<lambda>ts. 10 \<le> ts) = Some (Some (2, 17))"
proof -
  have base: "sg_base_offset sample_segment = 0"
    by (simp add: sample_segment_def write_batch_def seg_create_def Let_def split: option.splits)
  have "first_match (\<lambda>ts. 10 \<le> ts) [sample_batch] = Some (2, 17)"
    by (simp add: sample_batch_def sample_record_def record_batch_default_def int_width)
  then show ?thesis
    using timestamp_scan_terminates [OF sample_segment_holds, of 0 1 "\<lambda>ts. 10 \<le> ts"]
    by (simp add: base end_of_def sample_last int_width)
qed

end
