(* ===== verification/Producer_Snapshot.thy ===== *)
theory Producer_Snapshot
  imports Log_Index "HOL-Library.Sublist"
begin

text \<open>
  Producer-state snapshots (\<open>crates/log/src/producer_snapshot.rs\<close>): the entry, its Kafka-compatible
  encoding with a CRC-32C over everything after the header, the strict reader, and the set of snapshot
  files of a log, here a map from the offset in the file name to the bytes. The checksum function is
  an argument. A reader error is the reason that \<open>LogError::Corrupt\<close> carries.
\<close>

definition SNAPSHOT_VERSION :: int where
  "SNAPSHOT_VERSION = 1"

definition SNAPSHOT_HEADER_LEN :: nat where
  "SNAPSHOT_HEADER_LEN = 6"

definition SNAPSHOT_ENTRY_LEN :: nat where
  "SNAPSHOT_ENTRY_LEN = 46"

record producer_snapshot_entry =
  ps_producer_id :: int
  ps_producer_epoch :: int
  ps_last_sequence :: int
  ps_last_offset :: int
  ps_offset_delta :: int
  ps_timestamp :: int
  ps_coordinator_epoch :: int
  ps_current_txn_first_offset :: "int option"

type_synonym snapshot_state = "(int, producer_snapshot_entry) btree_map"

definition ps_empty :: "int \<Rightarrow> int \<Rightarrow> producer_snapshot_entry" where
  "ps_empty producer_id producer_epoch = \<lparr>ps_producer_id = producer_id, ps_producer_epoch = producer_epoch,
     ps_last_sequence = - 1, ps_last_offset = - 1, ps_offset_delta = 0, ps_timestamp = - 1,
     ps_coordinator_epoch = - 1, ps_current_txn_first_offset = None\<rparr>"

section \<open>Encoding\<close>

definition put_entry :: "producer_snapshot_entry \<Rightarrow> bytes" where
  "put_entry e = put_i64 (ps_producer_id e) @ put_i16 (ps_producer_epoch e) @ put_i32 (ps_last_sequence e)
     @ put_i64 (ps_last_offset e) @ put_i32 (ps_offset_delta e) @ put_i64 (ps_timestamp e)
     @ put_i32 (ps_coordinator_epoch e)
     @ put_i64 (case ps_current_txn_first_offset e of None \<Rightarrow> - 1 | Some off \<Rightarrow> off)"

text \<open>The map is ordered by producer id, as the encoder orders its values. \<open>None\<close> is \<open>InvalidArgument\<close>.\<close>

definition ps_encode :: "(bytes \<Rightarrow> u32) \<Rightarrow> snapshot_state \<Rightarrow> bytes option" where
  "ps_encode crc32c entries =
     (case i32_try_from (int (length entries)) of
        None \<Rightarrow> None
      | Some cnt \<Rightarrow>
          (let body = put_i32 cnt @ concat (map (\<lambda>(_, e). put_entry e) entries)
           in Some (put_i16 SNAPSHOT_VERSION @ put_u32 (crc32c body) @ body)))"

section \<open>Reading\<close>

definition entry_fields :: "bytes \<Rightarrow> protocol_error + producer_snapshot_entry \<times> int" where
  "entry_fields r =
     rbind (get_i64 r) (\<lambda>producer_id r. rbind (get_i16 r) (\<lambda>producer_epoch r.
     rbind (get_i32 r) (\<lambda>last_sequence r. rbind (get_i64 r) (\<lambda>last_offset r.
     rbind (get_i32 r) (\<lambda>offset_delta r. rbind (get_i64 r) (\<lambda>timestamp r.
     rbind (get_i32 r) (\<lambda>coordinator_epoch r. rbind (get_i64 r) (\<lambda>txn_offset r.
       Inr (\<lparr>ps_producer_id = producer_id, ps_producer_epoch = producer_epoch, ps_last_sequence = last_sequence,
             ps_last_offset = last_offset, ps_offset_delta = offset_delta, ps_timestamp = timestamp,
             ps_coordinator_epoch = coordinator_epoch,
             ps_current_txn_first_offset = (if 0 \<le> txn_offset then Some txn_offset else None)\<rparr>, txn_offset)))))))))"

definition entry_invalid :: "producer_snapshot_entry \<Rightarrow> int \<Rightarrow> bool" where
  "entry_invalid e txn_offset \<longleftrightarrow> ps_producer_id e < 0 \<or> ps_producer_epoch e < 0 \<or> ps_offset_delta e < 0 \<or> txn_offset < - 1
     \<or> (ps_last_offset e < 0 \<and> 0 \<le> ps_last_sequence e)
     \<or> (0 \<le> ps_last_offset e \<and> (ps_last_sequence e < 0 \<or> ps_last_offset e < ps_offset_delta e))"

fun read_entries :: "bytes list \<Rightarrow> snapshot_state \<Rightarrow> string + snapshot_state" where
  "read_entries [] entries = Inr entries"
| "read_entries (r # rs) entries =
     (case entry_fields r of
        Inl _ \<Rightarrow> Inl ''entry is too short''
      | Inr (e, txn_offset) \<Rightarrow>
          if entry_invalid e txn_offset then Inl ''entry contains an invalid producer state''
          else if bt_get entries (ps_producer_id e) \<noteq> None then Inl ''duplicate producer id''
          else read_entries rs (bt_insert entries (ps_producer_id e) e))"

definition ps_read :: "(bytes \<Rightarrow> u32) \<Rightarrow> bytes \<Rightarrow> string + snapshot_state" where
  "ps_read crc32c bs =
     (if length bs < SNAPSHOT_HEADER_LEN + 4 then Inl ''file is shorter than the snapshot header''
      else if sint (be_word (take 2 bs) :: 16 word) \<noteq> SNAPSHOT_VERSION then Inl ''unsupported version''
      else if be_word (take 4 (drop 2 bs)) \<noteq> crc32c (drop SNAPSHOT_HEADER_LEN bs) then Inl ''CRC32C mismatch''
      else let cnt = sint (be_word (take 4 (drop 6 bs)) :: 32 word) in
        if cnt < 0 then Inl ''negative entry count''
        else if length bs \<noteq> SNAPSHOT_HEADER_LEN + 4 + nat cnt * SNAPSHOT_ENTRY_LEN
        then Inl ''entry count does not match file length''
        else read_entries (rows_of SNAPSHOT_ENTRY_LEN (drop (SNAPSHOT_HEADER_LEN + 4) bs)) [])"

section \<open>The snapshot files of a log\<close>

type_synonym snapshot_files = "(int, bytes) btree_map"

text \<open>The files are visited from the newest offset down; those past the end and the corrupt ones are removed.\<close>

fun latest_loop :: "(bytes \<Rightarrow> u32) \<Rightarrow> int \<Rightarrow> (int \<times> bytes) list \<Rightarrow> (int \<times> snapshot_state) option \<times> (int \<times> bytes) list" where
  "latest_loop crc32c end_off [] = (None, [])"
| "latest_loop crc32c end_off ((off, bs) # rest) =
     (if end_off < off then latest_loop crc32c end_off rest
      else case ps_read crc32c bs of
             Inr entries \<Rightarrow> (Some (off, entries), (off, bs) # rest)
           | Inl _ \<Rightarrow> latest_loop crc32c end_off rest)"

definition latest_at_or_before ::
  "(bytes \<Rightarrow> u32) \<Rightarrow> snapshot_files \<Rightarrow> int \<Rightarrow> (int \<times> snapshot_state) option \<times> snapshot_files" where
  "latest_at_or_before crc32c files end_off =
     (case latest_loop crc32c end_off (rev files) of (found, kept) \<Rightarrow> (found, rev kept))"

definition ps_remove_after :: "snapshot_files \<Rightarrow> int \<Rightarrow> snapshot_files" where
  "ps_remove_after files offset = bt_retain (\<lambda>off _. \<not> offset < off) files"

definition ps_remove_all :: "snapshot_files \<Rightarrow> snapshot_files" where
  "ps_remove_all files = []"

definition ps_write :: "(bytes \<Rightarrow> u32) \<Rightarrow> snapshot_files \<Rightarrow> int \<Rightarrow> snapshot_state \<Rightarrow> snapshot_files option" where
  "ps_write crc32c files offset entries =
     (if bt_get files offset \<noteq> None then Some files
      else case ps_encode crc32c entries of None \<Rightarrow> None | Some bs \<Rightarrow> Some (bt_insert files offset bs))"

section \<open>Round trip\<close>

definition entry_ok :: "producer_snapshot_entry \<Rightarrow> bool" where
  "entry_ok e \<longleftrightarrow> i64_ok (ps_producer_id e) \<and> i16_ok (ps_producer_epoch e) \<and> i32_ok (ps_last_sequence e)
     \<and> i64_ok (ps_last_offset e) \<and> i32_ok (ps_offset_delta e) \<and> i64_ok (ps_timestamp e) \<and> i32_ok (ps_coordinator_epoch e)
     \<and> (case ps_current_txn_first_offset e of None \<Rightarrow> True | Some off \<Rightarrow> 0 \<le> off \<and> i64_ok off)
     \<and> \<not> entry_invalid e 0"

definition snapshot_ok :: "snapshot_state \<Rightarrow> bool" where
  "snapshot_ok m \<longleftrightarrow> bt_wf m \<and> length m \<le> 2147483647 \<and> list_all (\<lambda>(k, e). k = ps_producer_id e \<and> entry_ok e) m"

lemma length_put_entry [simp]: "length (put_entry e) = 46"
  by (simp add: put_entry_def)

lemma entry_fields_put:
  "entry_ok e \<Longrightarrow> entry_fields (put_entry e) = Inr (e, case ps_current_txn_first_offset e of None \<Rightarrow> - 1 | Some off \<Rightarrow> off)"
  using get_put_i64 [of "case ps_current_txn_first_offset e of None \<Rightarrow> - 1 | Some off \<Rightarrow> off" "[]"]
  by (cases e) (auto simp: entry_fields_def put_entry_def entry_ok_def int_width split: option.splits)

lemma bt_insert_last: "\<forall>k' \<in> set (map fst m). k' < k \<Longrightarrow> bt_insert m k v = m @ [(k, v)]"
  by (induction m k v rule: bt_insert.induct) auto

lemma read_entries_put:
  "bt_wf (acc @ m) \<Longrightarrow> list_all (\<lambda>(k, e). k = ps_producer_id e \<and> entry_ok e) m \<Longrightarrow>
   read_entries (map (\<lambda>(_, e). put_entry e) m) acc = Inr (acc @ m)"
proof (induction m arbitrary: acc)
  case (Cons ke m)
  obtain e where ke: "ke = (ps_producer_id e, e)" and e: "entry_ok e" using Cons.prems(2) by (cases ke) auto
  have below: "\<forall>k' \<in> set (map fst acc). k' < ps_producer_id e"
    using Cons.prems(1) by (auto simp: bt_wf_def ke sorted_wrt_append)
  then have "bt_get acc (ps_producer_id e) = None" by (force simp: bt_get_def map_of_eq_None_iff)
  moreover have "\<not> entry_invalid e (case ps_current_txn_first_offset e of None \<Rightarrow> - 1 | Some off \<Rightarrow> off)"
    using e by (auto simp: entry_ok_def entry_invalid_def split: option.splits)
  ultimately show ?case
    using Cons.IH [of "acc @ [ke]"] Cons.prems bt_insert_last [OF below, of e] entry_fields_put [OF e] by (simp add: ke)
qed simp

lemma snapshot_roundtrip:
  assumes "snapshot_ok m"
  shows "\<exists>bs. ps_encode crc m = Some bs \<and> ps_read crc bs = Inr m"
proof -
  let ?rows = "map (\<lambda>(_, e). put_entry e) m"
  let ?body = "put_i32 (int (length m)) @ concat ?rows"
  have len: "i32_ok (int (length m))" using assms by (simp add: snapshot_ok_def int_width)
  have rows: "rows_of 46 (concat ?rows) = ?rows" "length (concat ?rows) = length m * 46"
    using rows_of_concat [of 46 ?rows "[]"] by (auto simp: list_all_iff length_concat comp_def split_def sum_list_triv)
  have count: "sint (be_word (put_i32 (int (length m))) :: 32 word) = int (length m)"
    using len sint_of_int_ok [where 'a = 32, of "int (length m)"] by (simp add: put_i32_def be_word_be_bytes_full int_width)
  have "sint (be_word (put_i16 1) :: 16 word) = 1"
    by (simp add: put_i16_def be_word_be_bytes_full sint_of_int_ok)
  then have "ps_read crc (put_i16 1 @ put_u32 (crc ?body) @ ?body) = read_entries ?rows []"
    using rows count by (simp add: ps_read_def SNAPSHOT_HEADER_LEN_def SNAPSHOT_VERSION_def SNAPSHOT_ENTRY_LEN_def Let_def)
  also have "\<dots> = Inr m" using read_entries_put [of "[]" m] assms by (simp add: snapshot_ok_def)
  finally show ?thesis using len by (simp add: ps_encode_def i32_try_from_def SNAPSHOT_VERSION_def Let_def)
qed

text \<open>The newest readable snapshot that is not past the end is chosen, and no older one is touched.\<close>

lemma latest_loop_found:
  "latest_loop crc end_off xs = (Some (off, es), kept) \<Longrightarrow>
   off \<le> end_off \<and> (\<exists>bs rest. kept = (off, bs) # rest \<and> ps_read crc bs = Inr es \<and> suffix kept xs)"
  by (induction crc end_off xs rule: latest_loop.induct) (auto split: if_splits sum.splits intro: suffix_ConsI)

end
