(* ===== verification/Decimal_Text.thy ===== *)
theory Decimal_Text
  imports Prelude "HOL-Library.Char_ord"
begin

text \<open>
  What the checkpoint files use of Rust's standard library: decimal formatting of integers
  (\<open>to_string\<close>, \<open>write!\<close>), \<open>str::parse\<close> on integer types, \<open>str::lines\<close>, \<open>str::trim\<close> and
  \<open>str::split_whitespace\<close>. A text is a list of characters with code points below 256.
\<close>

section \<open>Formatting\<close>

definition digit_char :: "nat \<Rightarrow> char" where
  "digit_char d = char_of (48 + d)"

fun show_nat :: "nat \<Rightarrow> string" where
  "show_nat n = (if n < 10 then [digit_char n] else show_nat (n div 10) @ [digit_char (n mod 10)])"

declare show_nat.simps [simp del]

definition show_int :: "int \<Rightarrow> string" where
  "show_int i = (if i < 0 then CHR ''-'' # show_nat (nat (- i)) else show_nat (nat i))"

section \<open>Parsing\<close>

definition is_digit :: "char \<Rightarrow> bool" where
  "is_digit c \<longleftrightarrow> 48 \<le> (of_char c :: nat) \<and> (of_char c :: nat) \<le> 57"

fun parse_digits :: "nat \<Rightarrow> string \<Rightarrow> nat option" where
  "parse_digits acc [] = Some acc"
| "parse_digits acc (c # cs) =
     (if is_digit c then parse_digits (acc * 10 + (of_char c - 48)) cs else None)"

text \<open>\<open>u64::from_str\<close> (a leading plus sign is allowed) and \<open>i32::from_str\<close>, \<open>i64::from_str\<close>.\<close>

definition parse_unsigned :: "nat \<Rightarrow> string \<Rightarrow> nat option" where
  "parse_unsigned hi s =
     (let ds = (case s of [] \<Rightarrow> [] | c # cs \<Rightarrow> if c = CHR ''+'' then cs else s)
      in if ds = [] then None
         else case parse_digits 0 ds of Some n \<Rightarrow> if n \<le> hi then Some n else None | None \<Rightarrow> None)"

definition parse_signed :: "(int \<Rightarrow> bool) \<Rightarrow> string \<Rightarrow> int option" where
  "parse_signed ok s =
     (let neg = (case s of [] \<Rightarrow> False | c # _ \<Rightarrow> c = CHR ''-'');
          ds = (case s of [] \<Rightarrow> [] | c # cs \<Rightarrow> if c = CHR ''+'' \<or> c = CHR ''-'' then cs else s)
      in if ds = [] then None
         else case parse_digits 0 ds of
                Some n \<Rightarrow> (let v = (if neg then - int n else int n) in if ok v then Some v else None)
              | None \<Rightarrow> None)"

section \<open>Lines and words\<close>

definition strip_cr :: "string \<Rightarrow> string" where
  "strip_cr l = (if l \<noteq> [] \<and> last l = CHR 0x0D then butlast l else l)"

fun lines_from :: "string \<Rightarrow> string \<Rightarrow> string list" where
  "lines_from cur [] = (if cur = [] then [] else [cur])"
| "lines_from cur (c # cs) =
     (if c = CHR 0x0A then strip_cr cur # lines_from [] cs else lines_from (cur @ [c]) cs)"

definition lines_of :: "string \<Rightarrow> string list" where
  "lines_of s = lines_from [] s"

definition is_whitespace :: "char \<Rightarrow> bool" where
  "is_whitespace c \<longleftrightarrow> (of_char c :: nat) \<in> {9, 10, 11, 12, 13, 32, 133, 160}"

definition trim :: "string \<Rightarrow> string" where
  "trim s = rev (dropWhile is_whitespace (rev (dropWhile is_whitespace s)))"

fun words_from :: "string \<Rightarrow> string \<Rightarrow> string list" where
  "words_from cur [] = (if cur = [] then [] else [cur])"
| "words_from cur (c # cs) =
     (if is_whitespace c then (if cur = [] then words_from [] cs else cur # words_from [] cs)
      else words_from (cur @ [c]) cs)"

definition split_whitespace :: "string \<Rightarrow> string list" where
  "split_whitespace s = words_from [] s"

section \<open>What was printed is read back\<close>

lemma of_digit_char: "d < 10 \<Longrightarrow> (of_char (digit_char d) :: nat) = 48 + d"
  by (simp add: digit_char_def)

lemma digit_char_digit: "d < 10 \<Longrightarrow> is_digit (digit_char d)"
  by (simp add: is_digit_def of_digit_char)

lemma parse_digits_append:
  "list_all is_digit xs \<Longrightarrow> parse_digits acc (xs @ ys) = parse_digits (the (parse_digits acc xs)) ys"
  by (induction acc xs rule: parse_digits.induct) auto

lemma show_nat_props: "show_nat n \<noteq> [] \<and> list_all is_digit (show_nat n) \<and> parse_digits 0 (show_nat n) = Some n"
proof (induction n rule: show_nat.induct)
  case (1 n)
  show ?case
  proof (cases "n < 10")
    case True
    then show ?thesis by (simp add: show_nat.simps [of n] digit_char_digit of_digit_char)
  next
    case False
    let ?q = "n div 10" and ?d = "digit_char (n mod 10)"
    have d: "is_digit ?d" "(of_char ?d :: nat) = 48 + n mod 10"
      by (simp_all add: digit_char_digit of_digit_char)
    have q: "show_nat ?q \<noteq> []" "list_all is_digit (show_nat ?q)" "parse_digits 0 (show_nat ?q) = Some ?q"
      using 1 [OF False] by simp_all
    have eq: "show_nat n = show_nat ?q @ [?d]" using False by (simp add: show_nat.simps [of n])
    have "parse_digits 0 (show_nat n) = Some (?q * 10 + n mod 10)"
      using parse_digits_append [OF q(2), of 0 "[?d]"] q(3) d by (simp add: eq)
    moreover have "list_all is_digit (show_nat n)" "show_nat n \<noteq> []" using q d by (simp_all add: eq)
    ultimately show ?thesis by simp
  qed
qed

lemmas show_nat_nonempty = show_nat_props [THEN conjunct1]
  and show_nat_digits = show_nat_props [THEN conjunct2, THEN conjunct1]
  and parse_show_nat = show_nat_props [THEN conjunct2, THEN conjunct2]

lemma digit_not_sign: "is_digit c \<Longrightarrow> c \<noteq> CHR ''+'' \<and> c \<noteq> CHR ''-''"
  by (auto simp: is_digit_def)

lemma digit_not_space: "is_digit c \<Longrightarrow> \<not> is_whitespace c"
  by (auto simp: is_digit_def is_whitespace_def)

lemma parse_show_unsigned: "n \<le> hi \<Longrightarrow> parse_unsigned hi (show_nat n) = Some n"
  using show_nat_digits [of n] show_nat_nonempty [of n] parse_show_nat [of n] digit_not_sign
  by (cases "show_nat n") (auto simp: parse_unsigned_def)

lemma parse_show_int:
  assumes "ok i"
  shows "parse_signed ok (show_int i) = Some i"
proof (cases "i < 0")
  case True
  then show ?thesis
    using show_nat_nonempty [of "nat (- i)"] parse_show_nat [of "nat (- i)"] assms
    by (simp add: parse_signed_def show_int_def)
next
  case False
  then show ?thesis
    using show_nat_digits [of "nat i"] show_nat_nonempty [of "nat i"] parse_show_nat [of "nat i"] digit_not_sign assms
    by (cases "show_nat (nat i)") (auto simp: parse_signed_def show_int_def)
qed

lemma show_int_plain: "show_int i \<noteq> [] \<and> list_all (\<lambda>c. \<not> is_whitespace c) (show_int i)"
proof -
  have nat: "show_nat n \<noteq> [] \<and> list_all (\<lambda>c. \<not> is_whitespace c) (show_nat n)" for n
    using show_nat_digits [of n] show_nat_nonempty [of n] digit_not_space
    by (auto simp: list_all_iff)
  then show ?thesis by (auto simp: show_int_def is_whitespace_def)
qed

lemma show_nat_plain: "show_nat n \<noteq> [] \<and> list_all (\<lambda>c. \<not> is_whitespace c) (show_nat n)"
  using show_int_plain [of "int n"] by (simp add: show_int_def)

lemma dropWhile_none: "list_all (\<lambda>c. \<not> p c) s \<Longrightarrow> dropWhile p s = s"
  by (cases s) auto

lemma trim_plain: "list_all (\<lambda>c. \<not> is_whitespace c) s \<Longrightarrow> trim s = s"
  using dropWhile_none [of is_whitespace s] dropWhile_none [of is_whitespace "rev s"] by (simp add: trim_def)

lemma newline_space: "is_whitespace (CHR 0x0A)" "is_whitespace (CHR '' '')" "is_whitespace (CHR 0x0D)"
  by (simp_all add: is_whitespace_def)

lemma lines_from_line:
  "CHR 0x0A \<notin> set l \<Longrightarrow> lines_from cur (l @ CHR 0x0A # rest) = strip_cr (cur @ l) # lines_from [] rest"
  by (induction l arbitrary: cur) auto

lemma lines_of_line:
  assumes "CHR 0x0A \<notin> set l" and "l = [] \<or> last l \<noteq> CHR 0x0D"
  shows "lines_of (l @ CHR 0x0A # rest) = l # lines_of rest"
  using lines_from_line [OF assms(1), of "[]" rest] assms(2) by (auto simp: lines_of_def strip_cr_def)

lemma plain_line: "list_all (\<lambda>c. \<not> is_whitespace c) l \<Longrightarrow> CHR 0x0A \<notin> set l \<and> (l = [] \<or> last l \<noteq> CHR 0x0D)"
  using newline_space last_in_set [of l] by (metis list_all_iff)

lemma words_from_plain:
  "list_all (\<lambda>c. \<not> is_whitespace c) w \<Longrightarrow> words_from cur (w @ rest) = words_from (cur @ w) rest"
  by (induction w arbitrary: cur) auto

lemma split_two_words:
  assumes "list_all (\<lambda>c. \<not> is_whitespace c) v" and "list_all (\<lambda>c. \<not> is_whitespace c) w" and "v \<noteq> []" and "w \<noteq> []"
  shows "split_whitespace (v @ CHR '' '' # w) = [v, w]"
  using words_from_plain [OF assms(1), of "[]" "CHR '' '' # w"] words_from_plain [OF assms(2), of "[]" "[]"] assms(3,4)
  by (simp add: split_whitespace_def newline_space)

end
