(* ===== verification/Leader_Epoch.thy ===== *)
theory Leader_Epoch
  imports Decimal_Text
begin

text \<open>
  The leader-epoch checkpoint (\<open>crates/log/src/leader_epoch_checkpoint.rs\<close>): the list of epochs with
  their start offsets, its two-column text file, and the divergence lookups of KIP-320. The
  checkpoint keeps the text of its file, which every change rewrites; the file operations themselves
  are taken to succeed.
\<close>

record epoch_entry =
  ee_epoch :: int
  ee_start_offset :: int

record leader_epoch_checkpoint =
  lec_file :: "string option"
  lec_entries :: "epoch_entry list"

definition UNDEFINED_EPOCH :: int where
  "UNDEFINED_EPOCH = - 1"

definition UNDEFINED_OFFSET :: int where
  "UNDEFINED_OFFSET = - 1"

text \<open>\<open>Iterator::min\<close> and \<open>Iterator::max\<close>.\<close>

definition iter_min :: "int list \<Rightarrow> int option" where
  "iter_min xs = (if xs = [] then None else Some (Min (set xs)))"

definition iter_max :: "int list \<Rightarrow> int option" where
  "iter_max xs = (if xs = [] then None else Some (Max (set xs)))"

section \<open>The file\<close>

fun parse_rows :: "string list \<Rightarrow> string + epoch_entry list" where
  "parse_rows [] = Inr []"
| "parse_rows (line # more_lines) =
     (let parts = split_whitespace line in
      case (case parts of t # _ \<Rightarrow> parse_signed i32_ok t | [] \<Rightarrow> None) of
        None \<Rightarrow> Inl line
      | Some epoch \<Rightarrow>
          (case (case parts of _ # t # _ \<Rightarrow> parse_signed i64_ok t | _ \<Rightarrow> None) of
             None \<Rightarrow> Inl line
           | Some start_offset \<Rightarrow>
               (case parse_rows more_lines of
                  Inl l \<Rightarrow> Inl l
                | Inr out \<Rightarrow> Inr (\<lparr>ee_epoch = epoch, ee_start_offset = start_offset\<rparr> # out))))"

text \<open>\<open>Inl\<close> carries the bad row, which \<open>LogError::Corrupt\<close> quotes.\<close>

definition lec_parse :: "string \<Rightarrow> string + epoch_entry list" where
  "lec_parse s =
     (let ls = lines_of s;
          cnt = (case ls of _ # l # _ \<Rightarrow> (case parse_unsigned (2 ^ 64 - 1) (trim l) of Some n \<Rightarrow> n | None \<Rightarrow> 0) | _ \<Rightarrow> 0)
      in parse_rows (take cnt (drop 2 ls)))"

definition lec_open :: "string option \<Rightarrow> string + leader_epoch_checkpoint" where
  "lec_open file =
     (case file of
        None \<Rightarrow> Inr \<lparr>lec_file = None, lec_entries = []\<rparr>
      | Some s \<Rightarrow> (case lec_parse s of Inl l \<Rightarrow> Inl l | Inr es \<Rightarrow> Inr \<lparr>lec_file = Some s, lec_entries = es\<rparr>))"

definition flush_text :: "epoch_entry list \<Rightarrow> string" where
  "flush_text es = ''0'' @ [CHR 0x0A] @ show_nat (length es) @ [CHR 0x0A]
     @ concat (map (\<lambda>e. show_int (ee_epoch e) @ '' '' @ show_int (ee_start_offset e) @ [CHR 0x0A]) es)"

definition lec_flush :: "leader_epoch_checkpoint \<Rightarrow> leader_epoch_checkpoint" where
  "lec_flush c = c\<lparr>lec_file := Some (flush_text (lec_entries c))\<rparr>"

section \<open>Updates\<close>

definition append_to :: "epoch_entry list \<Rightarrow> int \<Rightarrow> int \<Rightarrow> bool \<times> epoch_entry list" where
  "append_to entries epoch start_offset =
     (if list_ex (\<lambda>e. ee_epoch e = epoch) entries then (False, entries)
      else (True, entries @ [\<lparr>ee_epoch = epoch, ee_start_offset = start_offset\<rparr>]))"

definition truncate_to :: "epoch_entry list \<Rightarrow> int \<Rightarrow> epoch_entry list" where
  "truncate_to entries end_offset = filter (\<lambda>e. ee_start_offset e < end_offset) entries"

definition lec_append :: "leader_epoch_checkpoint \<Rightarrow> int \<Rightarrow> int \<Rightarrow> leader_epoch_checkpoint" where
  "lec_append c epoch start_offset =
     (case append_to (lec_entries c) epoch start_offset of
        (added, es) \<Rightarrow> let c' = c\<lparr>lec_entries := es\<rparr> in if added then lec_flush c' else c')"

definition truncate_from_end :: "leader_epoch_checkpoint \<Rightarrow> int \<Rightarrow> leader_epoch_checkpoint" where
  "truncate_from_end c end_offset =
     (let before = length (lec_entries c); c' = c\<lparr>lec_entries := truncate_to (lec_entries c) end_offset\<rparr>
      in if length (lec_entries c') \<noteq> before then lec_flush c' else c')"

definition lec_clear :: "leader_epoch_checkpoint \<Rightarrow> leader_epoch_checkpoint" where
  "lec_clear c = (if lec_entries c = [] then c else lec_flush (c\<lparr>lec_entries := []\<rparr>))"

section \<open>Lookups\<close>

definition end_offset_for_epoch :: "epoch_entry list \<Rightarrow> int \<Rightarrow> int \<Rightarrow> int" where
  "end_offset_for_epoch entries epoch log_end_offset =
     (if \<not> list_ex (\<lambda>e. ee_epoch e = epoch) entries then UNDEFINED_OFFSET
      else case iter_min (map ee_start_offset (filter (\<lambda>e. epoch < ee_epoch e) entries)) of
             Some off \<Rightarrow> off | None \<Rightarrow> log_end_offset)"

text \<open>\<open>max_by_key\<close> gives the last of several maximal elements, \<open>min_by_key\<close> the first minimal one.\<close>

definition epoch_for_offset :: "epoch_entry list \<Rightarrow> int \<Rightarrow> int option" where
  "epoch_for_offset entries offset =
     (let below = filter (\<lambda>e. ee_start_offset e \<le> offset) entries
      in case iter_max (map ee_start_offset below) of
           None \<Rightarrow> None
         | Some m \<Rightarrow> map_option ee_epoch (find (\<lambda>e. ee_start_offset e = m) (rev below)))"

definition epoch_and_offset_for_entries :: "epoch_entry list \<Rightarrow> int \<Rightarrow> int \<Rightarrow> int \<times> int" where
  "epoch_and_offset_for_entries entries requested_epoch log_end_offset =
     (if requested_epoch = UNDEFINED_EPOCH then (UNDEFINED_EPOCH, log_end_offset)
      else if iter_max (map ee_epoch entries) = Some requested_epoch then (requested_epoch, log_end_offset)
      else let above = filter (\<lambda>e. requested_epoch < ee_epoch e) entries in
        case iter_min (map ee_epoch above) of
          None \<Rightarrow> (UNDEFINED_EPOCH, log_end_offset)
        | Some m \<Rightarrow>
            (let nxt = the (find (\<lambda>e. ee_epoch e = m) above) in
             case iter_max (map ee_epoch (filter (\<lambda>e. ee_epoch e \<le> requested_epoch) entries)) of
               Some f \<Rightarrow> (f, ee_start_offset nxt)
             | None \<Rightarrow> (requested_epoch, ee_start_offset nxt)))"

definition latest_epoch :: "epoch_entry list \<Rightarrow> int option" where
  "latest_epoch entries = iter_max (map ee_epoch entries)"

section \<open>The file holds the entries\<close>

definition rows_ok :: "epoch_entry list \<Rightarrow> bool" where
  "rows_ok es \<longleftrightarrow> length es < 2 ^ 64 \<and> list_all (\<lambda>e. i32_ok (ee_epoch e) \<and> i64_ok (ee_start_offset e)) es"

lemma row_line:
  fixes e :: epoch_entry and rest :: string
  defines "row \<equiv> show_int (ee_epoch e) @ '' '' @ show_int (ee_start_offset e)"
  shows "lines_of (row @ [CHR 0x0A] @ rest) = row # lines_of rest"
    and "split_whitespace row = [show_int (ee_epoch e), show_int (ee_start_offset e)]"
proof -
  note plain = show_int_plain [of "ee_epoch e"] show_int_plain [of "ee_start_offset e"]
  have "CHR 0x0A \<notin> set row" using plain plain_line by (auto simp: row_def)
  moreover have "last row = last (show_int (ee_start_offset e))" using plain by (simp add: row_def)
  ultimately show "lines_of (row @ [CHR 0x0A] @ rest) = row # lines_of rest"
    using plain plain_line lines_of_line by (metis append_Cons append_Nil)
  show "split_whitespace row = [show_int (ee_epoch e), show_int (ee_start_offset e)]"
    using plain split_two_words by (simp add: row_def)
qed

lemma parse_flushed_rows:
  assumes "list_all (\<lambda>e. i32_ok (ee_epoch e) \<and> i64_ok (ee_start_offset e)) es"
  shows "length (lines_of (concat (map (\<lambda>e. show_int (ee_epoch e) @ '' '' @ show_int (ee_start_offset e) @ [CHR 0x0A]) es))) = length es
    \<and> parse_rows (lines_of (concat (map (\<lambda>e. show_int (ee_epoch e) @ '' '' @ show_int (ee_start_offset e) @ [CHR 0x0A]) es))) = Inr es"
  using assms
proof (induction es)
  case Nil
  then show ?case by (simp add: lines_of_def)
next
  case (Cons e es)
  then show ?case
    using row_line(1) [of e "concat (map (\<lambda>e. show_int (ee_epoch e) @ '' '' @ show_int (ee_start_offset e) @ [CHR 0x0A]) es)"]
      row_line(2) [of e]
    by (simp add: parse_show_int)
qed

lemma parse_flush:
  assumes "rows_ok es"
  shows "lec_parse (flush_text es) = Inr es"
proof -
  let ?rows = "concat (map (\<lambda>e. show_int (ee_epoch e) @ '' '' @ show_int (ee_start_offset e) @ [CHR 0x0A]) es)"
  have "lines_of (flush_text es) = ''0'' # show_nat (length es) # lines_of ?rows"
    using lines_of_line [of "''0''" "show_nat (length es) @ [CHR 0x0A] @ ?rows"]
      lines_of_line [of "show_nat (length es)" ?rows] plain_line [OF show_nat_plain [THEN conjunct2, of "length es"]]
    by (simp add: flush_text_def)
  moreover have "parse_unsigned (2 ^ 64 - 1) (trim (show_nat (length es))) = Some (length es)"
    using assms trim_plain show_nat_plain by (simp add: rows_ok_def parse_show_unsigned)
  ultimately show ?thesis
    using parse_flushed_rows [of es] assms by (simp add: lec_parse_def rows_ok_def)
qed

definition lec_synced :: "leader_epoch_checkpoint \<Rightarrow> bool" where
  "lec_synced c \<longleftrightarrow> (case lec_file c of None \<Rightarrow> lec_entries c = [] | Some s \<Rightarrow> lec_parse s = Inr (lec_entries c))"

lemma lec_open_synced: "lec_synced c \<Longrightarrow> lec_open (lec_file c) = Inr c"
  by (cases c) (auto simp: lec_synced_def lec_open_def split: option.splits)

lemma lec_synced_flush: "rows_ok (lec_entries c) \<Longrightarrow> lec_synced (lec_flush c)"
  by (simp add: lec_synced_def lec_flush_def parse_flush)

lemma rows_ok_filter: "rows_ok es \<Longrightarrow> rows_ok (filter p es)"
  unfolding rows_ok_def list_all_iff by (metis filter_is_subset length_filter_le order_le_less_trans subsetD)

lemma truncate_same_length: "length (truncate_to es off) = length es \<Longrightarrow> truncate_to es off = es"
  by (metis filter_id_conv length_filter_less nless_le truncate_to_def)

lemma synced_append:
  "lec_synced c \<Longrightarrow> rows_ok (snd (append_to (lec_entries c) e off)) \<Longrightarrow> lec_synced (lec_append c e off)"
  by (auto simp: lec_append_def append_to_def Let_def intro: lec_synced_flush)

lemma synced_truncate:
  "lec_synced c \<Longrightarrow> rows_ok (lec_entries c) \<Longrightarrow> lec_synced (truncate_from_end c off)"
  using truncate_same_length [of "lec_entries c" off] rows_ok_filter [of "lec_entries c"]
  by (auto simp: truncate_from_end_def Let_def truncate_to_def intro: lec_synced_flush)

lemma synced_clear: "lec_synced c \<Longrightarrow> lec_synced (lec_clear c)"
  by (auto simp: lec_clear_def rows_ok_def intro: lec_synced_flush)

section \<open>The divergence point\<close>

text \<open>What every log keeps of its checkpoint: epochs and start offsets ascend and are not negative.\<close>

definition epochs_wf :: "epoch_entry list \<Rightarrow> bool" where
  "epochs_wf es \<longleftrightarrow> sorted_wrt (\<lambda>a b. ee_epoch a < ee_epoch b \<and> ee_start_offset a < ee_start_offset b) es
     \<and> list_all (\<lambda>e. 0 \<le> ee_epoch e \<and> 0 \<le> ee_start_offset e) es"

definition starts_below :: "epoch_entry list \<Rightarrow> int \<Rightarrow> bool" where
  "starts_below es off \<longleftrightarrow> list_all (\<lambda>e. ee_start_offset e < off) es"

lemma epochs_wf_order:
  assumes "epochs_wf es" and "a \<in> set es" and "b \<in> set es"
  shows "ee_epoch a < ee_epoch b \<longleftrightarrow> ee_start_offset a < ee_start_offset b"
    and "ee_epoch a = ee_epoch b \<longleftrightarrow> a = b" and "ee_start_offset a = ee_start_offset b \<longleftrightarrow> a = b"
proof -
  obtain i j where ij: "i < length es" "j < length es" "a = es ! i" "b = es ! j"
    using assms(2,3) by (metis in_set_conv_nth)
  have asc: "ee_epoch (es ! i) < ee_epoch (es ! j) \<and> ee_start_offset (es ! i) < ee_start_offset (es ! j)"
    if "i < j" "j < length es" for i j
    using assms(1) that sorted_wrt_nth_less [of "\<lambda>a b. ee_epoch a < ee_epoch b \<and> ee_start_offset a < ee_start_offset b" es i j]
    by (simp add: epochs_wf_def)
  show "ee_epoch a < ee_epoch b \<longleftrightarrow> ee_start_offset a < ee_start_offset b"
    "ee_epoch a = ee_epoch b \<longleftrightarrow> a = b" "ee_start_offset a = ee_start_offset b \<longleftrightarrow> a = b"
    using asc [of i j] asc [of j i] ij by (cases i j rule: linorder_cases; force)+
qed

lemma epochs_wf_append:
  "epochs_wf es \<Longrightarrow> starts_below es off \<Longrightarrow> 0 \<le> e \<Longrightarrow> 0 \<le> off \<Longrightarrow>
   (case latest_epoch es of None \<Rightarrow> True | Some l \<Rightarrow> l < e) \<Longrightarrow> epochs_wf (snd (append_to es e off))"
  by (auto simp: epochs_wf_def append_to_def starts_below_def sorted_wrt_append list_all_iff latest_epoch_def iter_max_def
      split: if_splits)

lemma epochs_wf_truncate: "epochs_wf es \<Longrightarrow> epochs_wf (truncate_to es off)"
  by (auto simp: epochs_wf_def truncate_to_def list_all_iff sorted_wrt_filter)

lemma starts_below_truncate: "starts_below (truncate_to es off) off"
  by (simp add: starts_below_def truncate_to_def list_all_iff)

lemma starts_below_mono: "starts_below es a \<Longrightarrow> a \<le> b \<Longrightarrow> starts_below es b"
  by (auto simp: starts_below_def list_all_iff)

lemma find_Some_mem: "find p xs = Some x \<Longrightarrow> x \<in> set xs \<and> p x"
  by (induction xs) (auto split: if_splits)

lemma find_ex: "x \<in> set xs \<Longrightarrow> p x \<Longrightarrow> \<exists>y. find p xs = Some y"
  by (induction xs) auto

lemma iter_min_Some: "iter_min (map f es) = Some m \<Longrightarrow> (\<exists>e \<in> set es. f e = m) \<and> (\<forall>e \<in> set es. m \<le> f e)"
  using Min_in [of "f ` set es"] by (fastforce simp: iter_min_def split: if_splits)

lemma iter_max_Some: "iter_max (map f es) = Some m \<Longrightarrow> (\<exists>e \<in> set es. f e = m) \<and> (\<forall>e \<in> set es. f e \<le> m)"
  using Max_in [of "f ` set es"] by (fastforce simp: iter_max_def split: if_splits)

lemma iter_None [simp]: "iter_min xs = None \<longleftrightarrow> xs = []" "iter_max xs = None \<longleftrightarrow> xs = []"
  by (simp_all add: iter_min_def iter_max_def)

lemma iter_ex: "es \<noteq> [] \<Longrightarrow> \<exists>m. iter_min (map f es) = Some m" "es \<noteq> [] \<Longrightarrow> \<exists>m. iter_max (map f es) = Some m"
  by (simp_all add: iter_min_def iter_max_def)

text \<open>The owner of an offset: the last entry that starts at or before it.\<close>

lemma epoch_for_offset_owner:
  assumes "epochs_wf es" and "epoch_for_offset es x = Some ep"
  obtains own where "own \<in> set es" "ee_epoch own = ep" "ee_start_offset own \<le> x"
    "\<forall>e \<in> set es. ee_start_offset e \<le> x \<longrightarrow> ee_start_offset e \<le> ee_start_offset own"
proof -
  let ?below = "filter (\<lambda>e. ee_start_offset e \<le> x) es"
  obtain m where m: "iter_max (map ee_start_offset ?below) = Some m"
    and f: "map_option ee_epoch (find (\<lambda>e. ee_start_offset e = m) (rev ?below)) = Some ep"
    using assms(2) by (auto simp: epoch_for_offset_def Let_def split: option.splits)
  from f obtain own where own: "find (\<lambda>e. ee_start_offset e = m) (rev ?below) = Some own" "ee_epoch own = ep" by auto
  have "own \<in> set ?below" "ee_start_offset own = m" using find_Some_mem [OF own(1)] by simp_all
  then show thesis using that [of own] own(2) iter_max_Some [OF m] by simp
qed

lemma epoch_for_offset_None: "epoch_for_offset es x = None \<longleftrightarrow> (\<forall>e \<in> set es. x < ee_start_offset e)"
proof (cases "filter (\<lambda>e. ee_start_offset e \<le> x) es = []")
  case True
  then show ?thesis by (auto simp: epoch_for_offset_def iter_max_def filter_empty_conv not_le)
next
  case False
  let ?below = "filter (\<lambda>e. ee_start_offset e \<le> x) es"
  from False obtain m where m: "iter_max (map ee_start_offset ?below) = Some m"
    using iter_ex(2) by blast
  obtain own where "find (\<lambda>e. ee_start_offset e = m) (rev ?below) = Some own"
    using iter_max_Some [OF m] find_ex [of _ "rev ?below" "\<lambda>e. ee_start_offset e = m"] by auto
  then have "epoch_for_offset es x \<noteq> None" by (simp add: epoch_for_offset_def m)
  moreover from False have "\<not> (\<forall>e \<in> set es. x < ee_start_offset e)" by (auto simp: filter_empty_conv not_le)
  ultimately show ?thesis by blast
qed

lemma owner_below_point:
  assumes "epochs_wf es" and "nxt \<in> set es" and "r < ee_epoch nxt"
    and least: "\<forall>e \<in> set es. r < ee_epoch e \<longrightarrow> ee_epoch nxt \<le> ee_epoch e"
    and "epoch_for_offset es x = Some ep"
  shows "x < ee_start_offset nxt \<longleftrightarrow> ep \<le> r"
proof -
  obtain own where own: "own \<in> set es" "ee_epoch own = ep" "ee_start_offset own \<le> x"
    "\<forall>e \<in> set es. ee_start_offset e \<le> x \<longrightarrow> ee_start_offset e \<le> ee_start_offset own"
    using assms(1,5) by (rule epoch_for_offset_owner)
  note ord = epochs_wf_order [OF assms(1) own(1) assms(2)] epochs_wf_order [OF assms(1) assms(2) own(1)]
  show ?thesis
  proof
    assume "x < ee_start_offset nxt"
    then have "ee_epoch own < ee_epoch nxt" using own(3) ord(1) by linarith
    then show "ep \<le> r" using least own(1,2) by force
  next
    assume "ep \<le> r"
    then have "ee_epoch own < ee_epoch nxt" using own(2) assms(3) by linarith
    then have "ee_start_offset own < ee_start_offset nxt" using ord by blast
    then show "x < ee_start_offset nxt" using own(4) assms(2) by force
  qed
qed

lemma divergence_exact:
  assumes "epochs_wf es" and "starts_below es log_end" and "0 \<le> requested"
    and "epoch_and_offset_for_entries es requested log_end = (found, off)"
    and "x < log_end" and "epoch_for_offset es x = Some ep"
  shows "(x < off \<longleftrightarrow> ep \<le> requested) \<and> found \<le> requested \<and> off \<le> log_end"
proof -
  have owner: "ep \<in> ee_epoch ` set es" using epoch_for_offset_owner [OF assms(1,6)] by (metis imageI)
  let ?above = "filter (\<lambda>e. requested < ee_epoch e) es"
  have req: "requested \<noteq> UNDEFINED_EPOCH" using assms(3) by (simp add: UNDEFINED_EPOCH_def)
  consider (latest) "iter_max (map ee_epoch es) = Some requested"
    | (future) "iter_max (map ee_epoch es) \<noteq> Some requested" "?above = []"
    | (past) m where "iter_max (map ee_epoch es) \<noteq> Some requested" "iter_min (map ee_epoch ?above) = Some m"
    using iter_ex(1) by blast
  then show ?thesis
  proof cases
    case latest
    then have "off = log_end" "found = requested" using assms(4) req by (simp_all add: epoch_and_offset_for_entries_def)
    then show ?thesis using assms(5) owner iter_max_Some [OF latest] by auto
  next
    case future
    then have "off = log_end" "found = UNDEFINED_EPOCH"
      using assms(4) req by (simp_all add: epoch_and_offset_for_entries_def iter_min_def)
    moreover have "ep \<le> requested" using future(2) owner by (force simp: filter_empty_conv not_less)
    ultimately show ?thesis using assms(3,5) by (simp add: UNDEFINED_EPOCH_def)
  next
    case past
    from iter_min_Some [OF past(2)] obtain nxt where "find (\<lambda>e. ee_epoch e = m) ?above = Some nxt"
      using find_ex [of _ ?above "\<lambda>e. ee_epoch e = m"] by auto
    note found_nxt = this
    have nxt: "nxt \<in> set es" "requested < ee_epoch nxt" "ee_epoch nxt = m" using find_Some_mem [OF found_nxt] by simp_all
    have off: "off = ee_start_offset nxt \<and> found \<le> requested"
    proof (cases "iter_max (map ee_epoch (filter (\<lambda>e. ee_epoch e \<le> requested) es))")
      case None
      then show ?thesis using assms(4) req past found_nxt by (simp add: epoch_and_offset_for_entries_def iter_max_def)
    next
      case (Some f)
      then show ?thesis using assms(4) req past found_nxt iter_max_Some [OF Some]
        by (auto simp: epoch_and_offset_for_entries_def)
    qed
    have "\<forall>e \<in> set es. requested < ee_epoch e \<longrightarrow> ee_epoch nxt \<le> ee_epoch e"
      using iter_min_Some [OF past(2)] nxt(3) by simp
    then have "x < ee_start_offset nxt \<longleftrightarrow> ep \<le> requested" by (rule owner_below_point [OF assms(1) nxt(1,2) _ assms(6)])
    moreover have "ee_start_offset nxt \<le> log_end" using assms(2) nxt(1) by (auto simp: starts_below_def list_all_iff)
    ultimately show ?thesis using off by simp
  qed
qed

text \<open>
  The divergence lookup of KIP-320 is exact: for every requested epoch it returns an end offset
  such that precisely the offsets below it belong, in this log, to epochs not newer than the
  requested one. A follower that truncates there keeps everything it can share with the leader and
  nothing that a newer epoch has overwritten; and the returned epoch is never newer than requested.
\<close>

theorem divergence_point_exact:
  assumes "epochs_wf es" and "starts_below es log_end" and "0 \<le> requested"
    and "epoch_and_offset_for_entries es requested log_end = (found, off)"
    and "x < log_end" and "epoch_for_offset es x = Some ep"
  shows "(x < off \<longleftrightarrow> ep \<le> requested) \<and> found \<le> requested \<and> off \<le> log_end"
  using assms by (rule divergence_exact)

definition three_epochs :: "epoch_entry list" where
  "three_epochs = [\<lparr>ee_epoch = 0, ee_start_offset = 0\<rparr>, \<lparr>ee_epoch = 2, ee_start_offset = 10\<rparr>,
     \<lparr>ee_epoch = 5, ee_start_offset = 25\<rparr>]"

theorem divergence_point_exact_witness:
  "epoch_and_offset_for_entries three_epochs 3 40 = (2, 25) \<and> epoch_for_offset three_epochs 24 = Some 2
   \<and> (24 < (25::int) \<longleftrightarrow> 2 \<le> (3::int)) \<and> 2 \<le> (3::int) \<and> 25 \<le> (40::int)"
proof -
  have eval: "epoch_and_offset_for_entries three_epochs 3 40 = (2, 25)" "epoch_for_offset three_epochs 24 = Some 2"
    "epochs_wf three_epochs" "starts_below three_epochs 40"
    by code_simp+
  show ?thesis
    using divergence_point_exact [OF eval(3,4) _ eval(1) _ eval(2)] eval by simp
qed

text \<open>On an epoch that is recorded, the plain lookup and the KIP-320 lookup agree.\<close>

lemma end_offset_agrees:
  assumes "epochs_wf es" and "list_ex (\<lambda>e. ee_epoch e = epoch) es"
  shows "epoch_and_offset_for_entries es epoch log_end = (epoch, end_offset_for_epoch es epoch log_end)"
proof -
  let ?above = "filter (\<lambda>e. epoch < ee_epoch e) es"
  obtain e where e: "e \<in> set es" "ee_epoch e = epoch" using assms(2) by (auto simp: list_ex_iff)
  then have "0 \<le> epoch" using assms(1) by (auto simp: epochs_wf_def list_all_iff)
  then have known: "epoch \<noteq> UNDEFINED_EPOCH" by (simp add: UNDEFINED_EPOCH_def)
  show ?thesis
  proof (cases "?above = []")
    case True
    then have "iter_max (map ee_epoch es) = Some epoch"
      using e by (force simp: iter_max_def filter_empty_conv not_less intro!: Max_eqI)
    then show ?thesis using True known assms(2)
      by (simp add: epoch_and_offset_for_entries_def end_offset_for_epoch_def iter_min_def)
  next
    case False
    then obtain m where m: "iter_min (map ee_epoch ?above) = Some m" using iter_ex(1) by blast
    from iter_min_Some [OF m] obtain nxt where nxt: "find (\<lambda>e. ee_epoch e = m) ?above = Some nxt"
      using find_ex [of _ ?above "\<lambda>e. ee_epoch e = m"] by auto
    have "iter_min (map ee_start_offset ?above) = Some (ee_start_offset nxt)"
    proof -
      have "ee_start_offset nxt \<le> ee_start_offset b" if "b \<in> set ?above" for b
        using that find_Some_mem [OF nxt] iter_min_Some [OF m] epochs_wf_order(1) [OF assms(1), of b nxt] by force
      then have "Min (ee_start_offset ` set ?above) = ee_start_offset nxt"
        using find_Some_mem [OF nxt] by (intro Min_eqI) auto
      then show ?thesis using False by (simp add: iter_min_def)
    qed
    moreover have "iter_max (map ee_epoch (filter (\<lambda>e. ee_epoch e \<le> epoch) es)) = Some epoch"
      using e by (force simp: iter_max_def filter_empty_conv intro!: Max_eqI)
    moreover have "iter_max (map ee_epoch es) \<noteq> Some epoch"
      using False iter_max_Some [of ee_epoch es epoch] by (force simp: filter_empty_conv)
    ultimately show ?thesis using known assms(2) m nxt
      by (simp add: epoch_and_offset_for_entries_def end_offset_for_epoch_def)
  qed
qed

end
