(* ===== verification/Partition_Log.thy ===== *)
theory Partition_Log
  imports Log_Segment Producer_Snapshot Leader_Epoch
begin

text \<open>
  The partition log (\<open>crates/log/src/log.rs\<close>, \<open>crates/log/src/retention.rs\<close>): sealed segments and one
  active segment, offset assignment, the last stable offset and the open transactions, producer state
  with its snapshots, the leader-epoch checkpoint, reads across segments, truncation, trimming and
  retention, and reopening from the files of the directory. No stamp source is installed, so the
  sidecar of internal stamps stays unwritten; \<open>fsync\<close> and compaction are left out. File operations are
  taken to succeed, except that a new segment may not reuse the name of an existing one. Times are milliseconds, sizes are numbers of bytes.

  An operation is a function from a log to an error or a value with the log it leaves; an outer
  \<open>None\<close> is a panic or, for the timestamp scans, not returning.
\<close>

record log_config =
  lc_timestamp_scan_window :: nat
  lc_segment_size :: nat
  lc_segment_roll_interval :: int
  lc_retention :: "int option"
  lc_retention_size :: "nat option"
  lc_index_interval :: nat
  lc_validate_on_open :: bool
  lc_remote_storage_enable :: bool

record partition_log =
  lg_config :: log_config
  lg_segments :: "segment list"
  lg_active :: "segment option"
  lg_start_offset_override :: "int option"
  lg_lso :: int
  lg_pending :: "(int, int) btree_map"
  lg_pending_stamp_ranges :: "(int, (int \<times> int) list) btree_map"
  lg_coordinator_epochs :: "(int, int) btree_map"
  lg_producer_state :: snapshot_state
  lg_active_txn_index :: txn_index
  lg_epoch_checkpoint :: leader_epoch_checkpoint
  lg_reconciled_frontier :: int
  lg_txn_files :: "(int, bytes) btree_map"
  lg_snapshots :: snapshot_files

type_synonym 'a log_act = "partition_log \<Rightarrow> ((log_error + 'a) \<times> partition_log) option"

text \<open>The \<open>?\<close> operator on an operation, and a pure result in it.\<close>

definition abind :: "'a log_act \<Rightarrow> ('a \<Rightarrow> 'b log_act) \<Rightarrow> 'b log_act" where
  "abind m f l = (case m l of None \<Rightarrow> None | Some (Inl e, l') \<Rightarrow> Some (Inl e, l') | Some (Inr a, l') \<Rightarrow> f a l')"

definition aresult :: "log_error + 'a \<Rightarrow> 'a log_act" where
  "aresult r l = Some (r, l)"

definition aupdate :: "(partition_log \<Rightarrow> partition_log) \<Rightarrow> unit log_act" where
  "aupdate f l = Some (Inr (), f l)"

section \<open>Offsets\<close>

definition log_start_offset :: "partition_log \<Rightarrow> int" where
  "log_start_offset l =
     (let derived = (case lg_segments l of
                       s # _ \<Rightarrow> sg_base_offset s
                     | [] \<Rightarrow> (case lg_active l of Some a \<Rightarrow> sg_base_offset a | None \<Rightarrow> 0))
      in case lg_start_offset_override l of Some o' \<Rightarrow> max derived o' | None \<Rightarrow> derived)"

definition log_end_offset :: "partition_log \<Rightarrow> int" where
  "log_end_offset l = (case lg_active l of Some a \<Rightarrow> i64_wrapping_add (sg_last_offset a) 1 | None \<Rightarrow> 0)"

definition set_log_start_offset :: "int \<Rightarrow> unit log_act" where
  "set_log_start_offset new_start l =
     (if new_start < 0 then Some (Inl (InvalidArgument ''set_log_start_offset: new_start must be >= 0''), l)
      else Some (Inr (), l\<lparr>lg_start_offset_override := Some new_start\<rparr>))"

definition log_size :: "partition_log \<Rightarrow> nat" where
  "log_size l = (case lg_active l of None \<Rightarrow> 0 | Some a \<Rightarrow> length (sg_log a))
     + sum_list (map (\<lambda>s. length (sg_log s)) (lg_segments l))"

definition pending_transaction_start :: "partition_log \<Rightarrow> int \<Rightarrow> int option" where
  "pending_transaction_start l producer_id = bt_get (lg_pending l) producer_id"

definition producer_transaction_state :: "partition_log \<Rightarrow> int \<Rightarrow> int \<times> int option" where
  "producer_transaction_state l producer_id =
     ((case bt_get (lg_coordinator_epochs l) producer_id of Some e \<Rightarrow> e | None \<Rightarrow> - 1), pending_transaction_start l producer_id)"

definition log_aborted_in_range :: "partition_log \<Rightarrow> int \<Rightarrow> int \<Rightarrow> aborted_txn list" where
  "log_aborted_in_range l start_off end_off = tx_aborted_in_range (lg_active_txn_index l) start_off end_off"

definition reconcile_next_offset :: "partition_log \<Rightarrow> int \<Rightarrow> partition_log" where
  "reconcile_next_offset l frontier = l\<lparr>lg_reconciled_frontier := max (lg_reconciled_frontier l) frontier\<rparr>"

definition append_at_expected_offset :: "partition_log \<Rightarrow> int" where
  "append_at_expected_offset l = max (log_end_offset l) (lg_reconciled_frontier l)"

section \<open>Control markers and producer state\<close>

definition parse_control_marker_type :: "bytes \<Rightarrow> int option" where
  "parse_control_marker_type key =
     (if length key < 4 then None else Some (sint (be_word (take 2 (drop 2 key)) :: 16 word)))"

definition parse_control_marker_coordinator_epoch :: "bytes \<Rightarrow> int option" where
  "parse_control_marker_coordinator_epoch val =
     (if length val < 6 then None else Some (sint (be_word (take 4 (drop 2 val)) :: 32 word)))"

definition marker_type :: "record_batch \<Rightarrow> int option" where
  "marker_type b = (case rb_records b of [] \<Rightarrow> None | r # _ \<Rightarrow> Option.bind (r_key r) parse_control_marker_type)"

definition marker_epoch :: "record_batch \<Rightarrow> int option" where
  "marker_epoch b = (case rb_records b of [] \<Rightarrow> None | r # _ \<Rightarrow> Option.bind (r_value r) parse_control_marker_coordinator_epoch)"

definition data_producer_tail :: "int \<Rightarrow> int \<Rightarrow> int \<Rightarrow> int \<Rightarrow> log_error + (int \<times> int) option" where
  "data_producer_tail producer_id base_sequence last_offset_delta base_offset =
     (if producer_id < 0 \<or> base_sequence < 0 then Inr None
      else if last_offset_delta < 0 then Inl (InvalidArgument ''negative producer offset delta'')
      else case i64_checked_add base_offset last_offset_delta of
             None \<Rightarrow> Inl (InvalidArgument ''producer offset overflow'')
           | Some last_off \<Rightarrow> Inr (Some (increment_sequence base_sequence last_offset_delta, last_off)))"

definition entry_or_empty :: "partition_log \<Rightarrow> int \<Rightarrow> int \<Rightarrow> producer_snapshot_entry" where
  "entry_or_empty l producer_id producer_epoch =
     (case bt_get (lg_producer_state l) producer_id of Some e \<Rightarrow> e | None \<Rightarrow> ps_empty producer_id producer_epoch)"

definition update_data_producer_entry ::
  "int \<Rightarrow> int \<Rightarrow> int \<Rightarrow> int \<Rightarrow> int \<Rightarrow> int \<Rightarrow> bool \<Rightarrow> unit log_act" where
  "update_data_producer_entry producer_id producer_epoch base_sequence last_offset_delta base_offset timestamp transactional l =
     (case data_producer_tail producer_id base_sequence last_offset_delta base_offset of
        Inl e \<Rightarrow> Some (Inl e, l)
      | Inr None \<Rightarrow> Some (Inr (), l)
      | Inr (Some (last_sequence, last_off)) \<Rightarrow>
          (let e = entry_or_empty l producer_id producer_epoch;
               e' = e\<lparr>ps_producer_epoch := producer_epoch, ps_last_sequence := last_sequence, ps_last_offset := last_off,
                      ps_offset_delta := last_offset_delta, ps_timestamp := timestamp,
                      ps_current_txn_first_offset :=
                        (if transactional \<and> ps_current_txn_first_offset e = None then Some base_offset
                         else ps_current_txn_first_offset e)\<rparr>
           in Some (Inr (), l\<lparr>lg_producer_state := bt_insert (lg_producer_state l) producer_id e'\<rparr>)))"

definition update_owned_producer_entry :: "record_batch \<Rightarrow> unit log_act" where
  "update_owned_producer_entry b l =
     (let pid = rb_producer_id b in
      if pid < 0 then Some (Inr (), l)
      else if is_control_batch (rb_attributes b) then
        (let e = entry_or_empty l pid (rb_producer_epoch b);
             e1 = (if ps_producer_epoch e \<noteq> rb_producer_epoch b
                   then e\<lparr>ps_last_sequence := - 1, ps_last_offset := - 1, ps_offset_delta := 0\<rparr> else e);
             e2 = e1\<lparr>ps_producer_epoch := rb_producer_epoch b, ps_timestamp := rb_max_timestamp b,
                     ps_current_txn_first_offset := None\<rparr>;
             e3 = (case marker_epoch b of Some epoch \<Rightarrow> e2\<lparr>ps_coordinator_epoch := epoch\<rparr> | None \<Rightarrow> e2)
         in Some (Inr (), l\<lparr>lg_producer_state := bt_insert (lg_producer_state l) pid e3\<rparr>))
      else update_data_producer_entry pid (rb_producer_epoch b) (rb_base_sequence b) (rb_last_offset_delta b)
             (rb_base_offset b) (rb_max_timestamp b) (is_transactional (rb_attributes b)) l)"

section \<open>Rolling\<close>

definition has_segment :: "partition_log \<Rightarrow> int \<Rightarrow> bool" where
  "has_segment l base \<longleftrightarrow> list_ex (\<lambda>s. sg_base_offset s = base) (lg_segments l)
     \<or> (case lg_active l of Some a \<Rightarrow> sg_base_offset a = base | None \<Rightarrow> False)"

definition open_txn_index :: "int \<Rightarrow> unit log_act" where
  "open_txn_index base l =
     (case tx_open (case bt_get (lg_txn_files l) base of Some f \<Rightarrow> f | None \<Rightarrow> []) of
        None \<Rightarrow> Some (Inl (Corrupt ''txnindex has a length that is not a multiple of 24''), l)
      | Some ix \<Rightarrow> Some (Inr (), l\<lparr>lg_active_txn_index := ix\<rparr>))"

text \<open>\<open>Segment::create\<close> opens its file with \<open>create_new\<close>; the new segment becomes the active one last.\<close>

definition start_segment :: "int \<Rightarrow> unit log_act" where
  "start_segment base l =
     (if has_segment l base then Some (Inl (Io ''file exists''), l)
      else abind (open_txn_index base) (\<lambda>_. aupdate (\<lambda>l. l\<lparr>lg_active := Some (seg_create base)\<rparr>)) l)"

definition roll_active_segment :: "batch_lib \<Rightarrow> unit log_act" where
  "roll_active_segment lib l =
     (let new_base = log_end_offset l in
      case lg_active l of
        None \<Rightarrow> None
      | Some old \<Rightarrow>
          (case ps_write (bl_crc32c lib) (lg_snapshots l) new_base (lg_producer_state l) of
             None \<Rightarrow> Some (Inl (InvalidArgument ''too many producer snapshot entries''), l)
           | Some files \<Rightarrow>
               start_segment new_base
                 (l\<lparr>lg_snapshots := files, lg_active := None, lg_segments := lg_segments l @ [seg_seal old]\<rparr>)))"

definition maybe_roll :: "batch_lib \<Rightarrow> unit log_act" where
  "maybe_roll lib l =
     (case lg_active l of
        Some s \<Rightarrow> if lc_segment_size (lg_config l) \<le> length (sg_log s) then roll_active_segment lib l else Some (Inr (), l)
      | None \<Rightarrow> Some (Inr (), l))"

section \<open>Appending\<close>

definition with_active :: "(segment \<Rightarrow> ((log_error + nat) \<times> segment) option) \<Rightarrow> unit log_act" where
  "with_active f l =
     (case lg_active l of
        None \<Rightarrow> None
      | Some s \<Rightarrow>
          (case f s of
             None \<Rightarrow> None
           | Some (r, s') \<Rightarrow> Some (map_sum id (\<lambda>_. ()) r, l\<lparr>lg_active := Some s'\<rparr>)))"

definition advance_lso :: "partition_log \<Rightarrow> partition_log" where
  "advance_lso l = (if lg_pending l = [] then l\<lparr>lg_lso := log_end_offset l\<rparr> else l)"

text \<open>The ranges kept for the stamps of an open transaction: \<open>entry().or_default().push()\<close>.\<close>

definition push_range :: "(int, (int \<times> int) list) btree_map \<Rightarrow> int \<Rightarrow> int \<times> int \<Rightarrow> (int, (int \<times> int) list) btree_map" where
  "push_range ranges pid r = bt_insert ranges pid ((case bt_get ranges pid of Some rs \<Rightarrow> rs | None \<Rightarrow> []) @ [r])"

definition record_abort :: "aborted_txn \<Rightarrow> partition_log \<Rightarrow> partition_log" where
  "record_abort e l =
     (let ix = tx_append (lg_active_txn_index l) e in
      l\<lparr>lg_active_txn_index := ix,
        lg_txn_files := (case lg_active l of Some a \<Rightarrow> bt_insert (lg_txn_files l) (sg_base_offset a) (tx_file ix)
                         | None \<Rightarrow> lg_txn_files l)\<rparr>)"

text \<open>The transaction bookkeeping of \<open>append_preserving_offset\<close>.\<close>

definition track_batch :: "record_batch \<Rightarrow> partition_log \<Rightarrow> partition_log" where
  "track_batch b l =
     (let pid = rb_producer_id b in
      if is_control_batch (rb_attributes b) then
        (let l1 = (case marker_epoch b of
                     Some epoch \<Rightarrow> if 0 \<le> pid then l\<lparr>lg_coordinator_epochs := bt_insert (lg_coordinator_epochs l) pid epoch\<rparr> else l
                   | None \<Rightarrow> l);
             l2 = (case bt_get (lg_pending l1) pid of
                     Some start_off \<Rightarrow>
                       if marker_type b = Some 0
                       then record_abort \<lparr>at_start_offset = start_off, at_last_offset = batch_last b, at_producer_id = pid\<rparr> l1 else l1
                   | None \<Rightarrow> l1)
         in advance_lso (l2\<lparr>lg_pending := bt_remove (lg_pending l2) pid,
                              lg_pending_stamp_ranges := bt_remove (lg_pending_stamp_ranges l2) pid\<rparr>))
      else if is_transactional (rb_attributes b) \<and> 0 \<le> pid
      then l\<lparr>lg_pending := bt_or_insert (lg_pending l) pid (rb_base_offset b),
             lg_pending_stamp_ranges := push_range (lg_pending_stamp_ranges l) pid (rb_base_offset b, batch_last b)\<rparr>
      else advance_lso l)"

definition append_preserving_offset :: "batch_lib \<Rightarrow> record_batch \<Rightarrow> unit log_act" where
  "append_preserving_offset lib b =
     abind (\<lambda>l. Some (map_sum id (\<lambda>_. ()) (data_producer_tail (rb_producer_id b) (rb_base_sequence b)
                                  (rb_last_offset_delta b) (rb_base_offset b)), l)) (\<lambda>_.
     abind (maybe_roll lib) (\<lambda>_.
     abind (\<lambda>l. with_active (\<lambda>s. seg_append lib s b (lc_index_interval (lg_config l))) l) (\<lambda>_.
     abind (aupdate (track_batch b)) (\<lambda>_.
     update_owned_producer_entry b))))"

text \<open>Every append then records the leader epoch when it is known and newer than the latest one.\<close>

definition note_epoch :: "int \<Rightarrow> int \<Rightarrow> unit log_act" where
  "note_epoch leader_epoch base l =
     (if 0 \<le> leader_epoch \<and> (case latest_epoch (lec_entries (lg_epoch_checkpoint l)) of None \<Rightarrow> True | Some e \<Rightarrow> e < leader_epoch)
      then Some (Inr (), l\<lparr>lg_epoch_checkpoint := lec_append (lg_epoch_checkpoint l) leader_epoch base\<rparr>)
      else Some (Inr (), l))"

definition log_append :: "batch_lib \<Rightarrow> record_batch \<Rightarrow> int log_act" where
  "log_append lib b l =
     (let assigned_base = log_end_offset l; b' = b\<lparr>rb_base_offset := assigned_base\<rparr> in
      abind (append_preserving_offset lib b') (\<lambda>_.
      abind (note_epoch (rb_partition_leader_epoch b) assigned_base) (\<lambda>_.
      aresult (Inr assigned_base))) l)"

definition append_at :: "batch_lib \<Rightarrow> record_batch \<Rightarrow> int \<Rightarrow> unit log_act" where
  "append_at lib b offset l =
     (let expected = append_at_expected_offset l in
      if offset \<noteq> expected then Some (Inl (OffsetMismatch expected offset), l)
      else abind (append_preserving_offset lib (b\<lparr>rb_base_offset := offset\<rparr>)) (\<lambda>_.
           note_epoch (rb_partition_leader_epoch b) offset) l)"

record verbatim_batch =
  vbt_bytes :: bytes
  vbt_last_offset_delta :: int
  vbt_max_timestamp :: int
  vbt_leader_epoch :: int
  vbt_producer_id :: int
  vbt_producer_epoch :: int
  vbt_base_sequence :: int
  vbt_is_transactional :: bool

definition append_verbatim_preserving_offset :: "batch_lib \<Rightarrow> verbatim_batch \<Rightarrow> int \<Rightarrow> unit log_act" where
  "append_verbatim_preserving_offset lib v base_offset =
     (let pid = vbt_producer_id v; transactional = (vbt_is_transactional v \<and> 0 \<le> pid) in
      abind (\<lambda>l. Some (map_sum id (\<lambda>_. ()) (data_producer_tail pid (vbt_base_sequence v) (vbt_last_offset_delta v) base_offset), l)) (\<lambda>_.
      abind (maybe_roll lib) (\<lambda>_.
      abind (\<lambda>l. with_active (\<lambda>s. seg_append_verbatim s (vbt_bytes v) base_offset (vbt_last_offset_delta v) (vbt_max_timestamp v)
                 (vbt_leader_epoch v) (lc_index_interval (lg_config l))) l) (\<lambda>_.
      abind (aupdate (\<lambda>l. if transactional
                          then l\<lparr>lg_pending := bt_or_insert (lg_pending l) pid base_offset,
                                 lg_pending_stamp_ranges := push_range (lg_pending_stamp_ranges l) pid
                                   (base_offset, i64_wrapping_add base_offset (vbt_last_offset_delta v))\<rparr>
                          else advance_lso l)) (\<lambda>_.
      update_data_producer_entry pid (vbt_producer_epoch v) (vbt_base_sequence v) (vbt_last_offset_delta v) base_offset
        (vbt_max_timestamp v) transactional)))))"

definition append_verbatim :: "batch_lib \<Rightarrow> verbatim_batch \<Rightarrow> int log_act" where
  "append_verbatim lib v l =
     (let assigned_base = log_end_offset l in
      abind (append_verbatim_preserving_offset lib v assigned_base) (\<lambda>_.
      abind (note_epoch (vbt_leader_epoch v) assigned_base) (\<lambda>_.
      aresult (Inr assigned_base))) l)"

definition append_verbatim_at :: "batch_lib \<Rightarrow> verbatim_batch \<Rightarrow> int \<Rightarrow> int log_act" where
  "append_verbatim_at lib v base_offset l =
     (let expected = append_at_expected_offset l in
      if base_offset \<noteq> expected then Some (Inl (OffsetMismatch expected base_offset), l)
      else abind (append_verbatim_preserving_offset lib v base_offset) (\<lambda>_.
           abind (note_epoch (vbt_leader_epoch v) base_offset) (\<lambda>_.
           aresult (Inr base_offset))) l)"

section \<open>Reading\<close>

record read_output =
  ro_start_offset :: int
  ro_batches :: "record_batch list"

text \<open>The walk over the sealed segments: the batches, the offset after them and the budget left.\<close>

fun read_segments :: "batch_lib \<Rightarrow> segment list \<Rightarrow> int \<Rightarrow> nat \<Rightarrow> log_error + record_batch list \<times> int \<times> nat" where
  "read_segments lib [] current_offset remaining = Inr ([], current_offset, remaining)"
| "read_segments lib (s # ss) current_offset remaining =
     (if sg_last_offset s < current_offset then read_segments lib ss current_offset remaining
      else case seg_read lib s current_offset remaining of
             Inl e \<Rightarrow> Inl e
           | Inr bs \<Rightarrow>
               if bs = [] then read_segments lib ss current_offset remaining
               else (let consumed = sum_list (map batch_encoded_len bs); left = remaining - consumed;
                         nxt = i64_wrapping_add (batch_last (last bs)) 1
                     in if left = 0 then Inr (bs, nxt, 0)
                        else case read_segments lib ss nxt left of
                               Inl e \<Rightarrow> Inl e
                             | Inr (more_bs, o', r') \<Rightarrow> Inr (bs @ more_bs, o', r')))"

definition log_read :: "batch_lib \<Rightarrow> partition_log \<Rightarrow> int \<Rightarrow> nat \<Rightarrow> log_error + read_output" where
  "log_read lib l offset max_size =
     (if offset < log_start_offset l then Inl (OffsetTooLow offset (log_start_offset l))
      else if log_end_offset l \<le> offset then Inr \<lparr>ro_start_offset = log_end_offset l, ro_batches = []\<rparr>
      else case read_segments lib (lg_segments l) offset max_size of
             Inl e \<Rightarrow> Inl e
           | Inr (batches, current_offset, remaining) \<Rightarrow>
               (let tail = (case lg_active l of
                              Some a \<Rightarrow> if (0 < remaining \<or> batches = []) \<and> current_offset \<le> sg_last_offset a
                                        then seg_read lib a current_offset (max remaining 1) else Inr []
                            | None \<Rightarrow> Inr [])
                in case tail of
                     Inl e \<Rightarrow> Inl e
                   | Inr bs \<Rightarrow>
                       (let out = batches @ bs in
                        Inr \<lparr>ro_start_offset = (case out of [] \<Rightarrow> offset | b # _ \<Rightarrow> rb_base_offset b), ro_batches = out\<rparr>)))"

record raw_read =
  rr_start_offset :: int
  rr_bytes :: bytes
  rr_total :: nat
  rr_last_offset :: "int option"

definition rr_empty :: "int \<Rightarrow> raw_read" where
  "rr_empty off = \<lparr>rr_start_offset = off, rr_bytes = [], rr_total = 0, rr_last_offset = None\<rparr>"

text \<open>The local variables of \<open>Log::read_raw\<close>; \<open>ra_done\<close> is the \<open>break\<close> out of the walk.\<close>

record raw_acc =
  ra_chunks :: "bytes list"
  ra_start_offset :: int
  ra_current :: int
  ra_remaining :: nat
  ra_got_first :: bool
  ra_last_offset :: "int option"
  ra_done :: bool

definition raw_acc_add :: "raw_segment_read \<Rightarrow> int \<Rightarrow> raw_acc \<Rightarrow> raw_acc" where
  "raw_acc_add r limit_offset a =
     (if rsr_is_empty r then a
      else let left = ra_remaining a - length (rsr_bytes r); current = i64_wrapping_add (rsr_last_offset r) 1 in
        a\<lparr>ra_start_offset := (if ra_got_first a then ra_start_offset a else rsr_start_offset r), ra_got_first := True,
          ra_remaining := left, ra_current := current, ra_last_offset := Some (rsr_last_offset r),
          ra_chunks := ra_chunks a @ [rsr_bytes r], ra_done := (left = 0 \<or> limit_offset \<le> current)\<rparr>)"

fun raw_segments :: "segment list \<Rightarrow> int \<Rightarrow> raw_acc \<Rightarrow> log_error + raw_acc" where
  "raw_segments [] limit_offset a = Inr a"
| "raw_segments (s # ss) limit_offset a =
     (if ra_done a then Inr a
      else if sg_last_offset s < ra_current a then raw_segments ss limit_offset a
      else case seg_read_raw s (ra_current a) limit_offset (max (ra_remaining a) HEADER_LEN) of
             Inl e \<Rightarrow> Inl e
           | Inr r \<Rightarrow> raw_segments ss limit_offset (raw_acc_add r limit_offset a))"

definition log_read_raw :: "partition_log \<Rightarrow> int \<Rightarrow> int \<Rightarrow> nat \<Rightarrow> log_error + raw_read" where
  "log_read_raw l fetch_offset limit_offset max_size =
     (if fetch_offset < log_start_offset l then Inl (OffsetTooLow fetch_offset (log_start_offset l))
      else if limit_offset \<le> fetch_offset then Inr (rr_empty fetch_offset)
      else case raw_segments (lg_segments l) limit_offset
                  \<lparr>ra_chunks = [], ra_start_offset = fetch_offset, ra_current = fetch_offset, ra_remaining = max_size,
                   ra_got_first = False, ra_last_offset = None, ra_done = False\<rparr> of
             Inl e \<Rightarrow> Inl e
           | Inr a \<Rightarrow>
               (let tail = (case lg_active l of
                              Some act \<Rightarrow>
                                if (0 < ra_remaining a \<or> \<not> ra_got_first a) \<and> ra_current a < limit_offset \<and> ra_current a \<le> sg_last_offset act
                                then seg_read_raw act (ra_current a) limit_offset (max (ra_remaining a) HEADER_LEN)
                                else Inr rsr_empty
                            | None \<Rightarrow> Inr rsr_empty)
                in case tail of
                     Inl e \<Rightarrow> Inl e
                   | Inr r \<Rightarrow>
                       (let a' = raw_acc_add r limit_offset a; bs = concat (ra_chunks a') in
                        Inr \<lparr>rr_start_offset = ra_start_offset a', rr_bytes = bs, rr_total = length bs,
                             rr_last_offset = ra_last_offset a'\<rparr>)))"

section \<open>Rebuilding producer and transaction state\<close>

definition recovered_batch_offsets :: "int \<Rightarrow> record_batch \<Rightarrow> log_error + int \<times> int" where
  "recovered_batch_offsets current b =
     (case i64_checked_add (rb_base_offset b) (rb_last_offset_delta b) of
        None \<Rightarrow> Inl (Corrupt ''log recovery offset overflow'')
      | Some last_off \<Rightarrow>
          (case i64_checked_add last_off 1 of
             None \<Rightarrow> Inl (Corrupt ''log recovery offset overflow'')
           | Some advanced_to \<Rightarrow>
               if advanced_to \<le> current then Inl (Corrupt ''log recovery did not advance'')
               else Inr (last_off, advanced_to)))"

definition apply_recovered_batch_state :: "record_batch \<Rightarrow> unit log_act" where
  "apply_recovered_batch_state b l =
     (let pid = rb_producer_id b in
      if pid < 0 then Some (Inr (), l)
      else abind (update_owned_producer_entry b) (\<lambda>_. aupdate (\<lambda>l.
        if is_control_batch (rb_attributes b) then
          (let l1 = l\<lparr>lg_pending := bt_remove (lg_pending l) pid\<rparr> in
           case marker_epoch b of
             Some epoch \<Rightarrow> l1\<lparr>lg_coordinator_epochs := bt_insert (lg_coordinator_epochs l1) pid epoch\<rparr>
           | None \<Rightarrow> l1)
        else if is_transactional (rb_attributes b)
        then l\<lparr>lg_pending := bt_or_insert (lg_pending l) pid (rb_base_offset b)\<rparr>
        else l)) l)"

text \<open>The snapshots of the segment boundaries that a batch has covered.\<close>

fun write_boundaries :: "batch_lib \<Rightarrow> int list \<Rightarrow> unit log_act" where
  "write_boundaries lib [] l = Some (Inr (), l)"
| "write_boundaries lib (bd # bds) l =
     (case ps_write (bl_crc32c lib) (lg_snapshots l) bd (lg_producer_state l) of
        None \<Rightarrow> Some (Inl (InvalidArgument ''too many producer snapshot entries''), l)
      | Some files \<Rightarrow> write_boundaries lib bds (l\<lparr>lg_snapshots := files\<rparr>))"

fun replay_batches :: "batch_lib \<Rightarrow> record_batch list \<Rightarrow> int \<Rightarrow> int list \<Rightarrow> (int \<times> int list) log_act" where
  "replay_batches lib [] advanced_to boundaries l = Some (Inr (advanced_to, boundaries), l)"
| "replay_batches lib (b # bs) advanced_to boundaries l =
     abind (apply_recovered_batch_state b) (\<lambda>_.
     abind (aresult (recovered_batch_offsets advanced_to b)) (\<lambda>(_, nxt).
     abind (write_boundaries lib (filter (\<lambda>bd. bd \<le> nxt) boundaries)) (\<lambda>_.
     replay_batches lib bs nxt (filter (\<lambda>bd. nxt < bd) boundaries)))) l"

function rebuild_loop :: "batch_lib \<Rightarrow> int \<Rightarrow> int \<Rightarrow> int list \<Rightarrow> unit log_act" where
  "rebuild_loop lib nxt end_off boundaries l =
     (if end_off \<le> nxt then Some (Inr (), l)
      else case log_read lib l nxt 1048576 of
             Inl e \<Rightarrow> Some (Inl e, l)
           | Inr ro \<Rightarrow>
               if ro_batches ro = [] then Some (Inl (Corrupt ''producer-state recovery made no progress''), l)
               else case replay_batches lib (ro_batches ro) nxt boundaries l of
                      None \<Rightarrow> None
                    | Some (Inl e, l') \<Rightarrow> Some (Inl e, l')
                    | Some (Inr (advanced_to, boundaries'), l') \<Rightarrow>
                        if advanced_to \<le> nxt then Some (Inl (Corrupt ''producer-state recovery did not advance''), l')
                        else rebuild_loop lib advanced_to end_off boundaries' l')"
  by pat_completeness auto
termination
  by (relation "measure (\<lambda>(lib, nxt, end_off, bds, l). nat (end_off - nxt))") auto

declare rebuild_loop.simps [simp del]

definition restore_snapshot :: "batch_lib \<Rightarrow> partition_log \<Rightarrow> int \<times> partition_log" where
  "restore_snapshot lib l =
     (let end_off = log_end_offset l; start_off = log_start_offset l;
          l0 = l\<lparr>lg_pending := [], lg_pending_stamp_ranges := [], lg_coordinator_epochs := [], lg_producer_state := []\<rparr>
      in case latest_at_or_before (bl_crc32c lib) (lg_snapshots l0) end_off of
           (None, files) \<Rightarrow> (start_off, l0\<lparr>lg_snapshots := files\<rparr>)
         | (Some (snapshot_offset, entries), files) \<Rightarrow>
             (max snapshot_offset start_off,
              l0\<lparr>lg_snapshots := files, lg_producer_state := entries,
                 lg_pending := List.map_filter (\<lambda>(pid, e). map_option (Pair pid) (ps_current_txn_first_offset e)) entries,
                 lg_coordinator_epochs := map (\<lambda>(pid, e). (pid, ps_coordinator_epoch e))
                    (filter (\<lambda>(_, e). 0 \<le> ps_coordinator_epoch e) entries)\<rparr>))"

definition min_pending :: "partition_log \<Rightarrow> int" where
  "min_pending l = (case iter_min (map snd (lg_pending l)) of Some off \<Rightarrow> off | None \<Rightarrow> log_end_offset l)"

text \<open>The ranges of the transactions still open are read again from the start of the log.\<close>

type_synonym stamp_ranges = "(int, (int \<times> int) list) btree_map"

fun stamp_ranges_of :: "record_batch list \<Rightarrow> int \<Rightarrow> stamp_ranges \<Rightarrow> (log_error + int) \<times> stamp_ranges" where
  "stamp_ranges_of [] nxt ranges = (Inr nxt, ranges)"
| "stamp_ranges_of (b # bs) nxt ranges =
     (case recovered_batch_offsets nxt b of
        Inl e \<Rightarrow> (Inl e, ranges)
      | Inr (last_off, advanced_to) \<Rightarrow>
          if advanced_to \<le> nxt then (Inl (Corrupt ''transaction-stamp recovery did not advance''), ranges)
          else stamp_ranges_of bs advanced_to
                 (if is_control_batch (rb_attributes b) then bt_remove ranges (rb_producer_id b)
                  else if is_transactional (rb_attributes b) \<and> 0 \<le> rb_producer_id b
                  then push_range ranges (rb_producer_id b) (rb_base_offset b, last_off) else ranges))"

lemma stamp_ranges_mono: "stamp_ranges_of bs nxt ranges = (Inr nxt', ranges') \<Longrightarrow> nxt \<le> nxt'"
  by (induction bs nxt ranges rule: stamp_ranges_of.induct) (force split: sum.splits if_splits)+

lemma stamp_ranges_advance: "stamp_ranges_of bs nxt ranges = (Inr nxt', ranges') \<Longrightarrow> bs \<noteq> [] \<Longrightarrow> nxt < nxt'"
  by (cases bs) (force split: sum.splits if_splits dest: stamp_ranges_mono)+

function stamp_ranges_loop :: "batch_lib \<Rightarrow> partition_log \<Rightarrow> int \<Rightarrow> int \<Rightarrow> stamp_ranges \<Rightarrow> (log_error + unit) \<times> stamp_ranges" where
  "stamp_ranges_loop lib l nxt end_off ranges =
     (if end_off \<le> nxt then (Inr (), ranges)
      else case log_read lib l nxt 1048576 of
             Inl e \<Rightarrow> (Inl e, ranges)
           | Inr ro \<Rightarrow>
               if ro_batches ro = [] then (Inl (Corrupt ''transaction-stamp recovery made no progress''), ranges)
               else case stamp_ranges_of (ro_batches ro) nxt ranges of
                      (Inl e, ranges') \<Rightarrow> (Inl e, ranges')
                    | (Inr nxt', ranges') \<Rightarrow> stamp_ranges_loop lib l nxt' end_off ranges')"
  by pat_completeness auto
termination
  by (relation "measure (\<lambda>(lib, l, nxt, end_off, ranges). nat (end_off - nxt))") (auto dest: stamp_ranges_advance [OF sym])

declare stamp_ranges_loop.simps [simp del]

definition rebuild_pending_stamp_ranges :: "batch_lib \<Rightarrow> unit log_act" where
  "rebuild_pending_stamp_ranges lib l =
     (if lg_pending l = [] then Some (Inr (), l\<lparr>lg_pending_stamp_ranges := []\<rparr>)
      else case stamp_ranges_loop lib l (log_start_offset l) (log_end_offset l) [] of
             (r, ranges) \<Rightarrow> Some (r, l\<lparr>lg_pending_stamp_ranges := ranges\<rparr>))"

definition rebuild_producer_and_transaction_state :: "batch_lib \<Rightarrow> unit log_act" where
  "rebuild_producer_and_transaction_state lib l =
     (let end_off = log_end_offset l;
          (nxt, l1) = restore_snapshot lib l;
          bases = map sg_base_offset (drop 1 (lg_segments l1)) @ (case lg_active l1 of Some a \<Rightarrow> [sg_base_offset a] | None \<Rightarrow> []);
          boundaries = filter (\<lambda>bd. nxt < bd) (remdups (sort bases))
      in abind (rebuild_loop lib nxt end_off boundaries) (\<lambda>_.
         abind (rebuild_pending_stamp_ranges lib) (\<lambda>_.
         aupdate (\<lambda>l. l\<lparr>lg_lso := min_pending l\<rparr>))) l1)"

section \<open>Truncating, trimming and resetting\<close>

definition drop_files :: "int list \<Rightarrow> partition_log \<Rightarrow> partition_log" where
  "drop_files bases l = l\<lparr>lg_txn_files := bt_retain (\<lambda>base _. base \<notin> set bases) (lg_txn_files l)\<rparr>"

text \<open>The sealed segments are popped from the end while they start at or after the offset; then the active one.\<close>

definition drop_tail :: "int \<Rightarrow> partition_log \<Rightarrow> partition_log" where
  "drop_tail offset l =
     (let kept = rev (dropWhile (\<lambda>s. offset \<le> sg_base_offset s) (rev (lg_segments l)));
          popped = drop (length kept) (lg_segments l);
          l1 = drop_files (map sg_base_offset popped) (l\<lparr>lg_segments := kept\<rparr>)
      in case lg_active l1 of
           Some a \<Rightarrow> if offset \<le> sg_base_offset a then drop_files [sg_base_offset a] (l1\<lparr>lg_active := None\<rparr>) else l1
         | None \<Rightarrow> l1)"

text \<open>
  A segment is cut and becomes the active one, or is the active one and is cut in place. A sealed
  segment that was popped for this is lost when an error follows.
\<close>

definition cut_segment :: "batch_lib \<Rightarrow> segment \<Rightarrow> int \<Rightarrow> unit log_act" where
  "cut_segment lib s offset l =
     (case u32_try_from (i64_wrapping_sub offset (sg_base_offset s)) of
        None \<Rightarrow> Some (Inl (BadSegmentName ''offset overflow''), l)
      | Some rel \<Rightarrow>
          (case truncate_to_relative lib s rel of
             (r, s') \<Rightarrow>
               (let l1 = (if lg_active l = None then l else l\<lparr>lg_active := Some s'\<rparr>) in
                abind (aresult r) (\<lambda>_.
                abind (open_txn_index (sg_base_offset s)) (\<lambda>_.
                aupdate (\<lambda>l. l\<lparr>lg_active := Some s'\<rparr>))) l1)))"

definition cut_log :: "batch_lib \<Rightarrow> int \<Rightarrow> unit log_act" where
  "cut_log lib offset l =
     (case lg_active l of
        None \<Rightarrow>
          (if lg_segments l = [] then start_segment offset l
           else cut_segment lib (last (lg_segments l)) offset (l\<lparr>lg_segments := butlast (lg_segments l)\<rparr>))
      | Some a \<Rightarrow> if offset \<le> sg_last_offset a then cut_segment lib a offset l else Some (Inr (), l))"

definition log_truncate_to :: "batch_lib \<Rightarrow> int \<Rightarrow> unit log_act" where
  "log_truncate_to lib offset l =
     (if log_end_offset l \<le> offset then Some (Inr (), l)
      else if offset < log_start_offset l then Some (Inl (OffsetTooLow offset (log_start_offset l)), l)
      else let l1 = (if lg_segments l \<noteq> [] then l\<lparr>lg_snapshots := ps_remove_after (lg_snapshots l) offset\<rparr> else l) in
        abind (cut_log lib offset) (\<lambda>_.
        abind (\<lambda>l. if lg_producer_state l \<noteq> [] then rebuild_producer_and_transaction_state lib l else Some (Inr (), l)) (\<lambda>_.
        aupdate (\<lambda>l. l\<lparr>lg_lso := min (lg_lso l) (log_end_offset l),
                       lg_epoch_checkpoint := truncate_from_end (lg_epoch_checkpoint l) (log_end_offset l)\<rparr>)))
        (drop_tail offset l1))"

text \<open>Each sealed segment ends where the next one, or the active one, begins.\<close>

definition next_bases :: "partition_log \<Rightarrow> int list" where
  "next_bases l = map sg_base_offset (drop 1 (lg_segments l))
     @ [case lg_active l of Some a \<Rightarrow> sg_base_offset a | None \<Rightarrow> log_end_offset l]"

definition remove_segments :: "int list \<Rightarrow> partition_log \<Rightarrow> partition_log" where
  "remove_segments bases l = drop_files bases (l\<lparr>lg_segments := filter (\<lambda>s. sg_base_offset s \<notin> set bases) (lg_segments l)\<rparr>)"

text \<open>The end of \<open>trim_to_offset\<close>: the start pointer moves when the target lies inside what is left.\<close>

definition finish_trim :: "int \<Rightarrow> int \<Rightarrow> int log_act" where
  "finish_trim target new_log_start =
     abind (if new_log_start < target then set_log_start_offset target else aresult (Inr ())) (\<lambda>_ l. Some (Inr (log_start_offset l), l))"

definition trim_to_offset :: "int \<Rightarrow> int log_act" where
  "trim_to_offset target l =
     (if target < 0 then Some (Inl (InvalidArgument ''trim_to_offset: target must be >= 0''), l)
      else let target = min target (log_end_offset l) in
        if target \<le> log_start_offset l then Some (Inr (log_start_offset l), l)
        else let active_base = (case lg_active l of Some a \<Rightarrow> sg_base_offset a | None \<Rightarrow> log_end_offset l);
                 to_drop = map (\<lambda>(s, _). sg_base_offset s)
                             (takeWhile (\<lambda>(_, next_base). next_base \<le> target) (zip (lg_segments l) (next_bases l)));
                 l1 = remove_segments to_drop l;
                 new_log_start = (case lg_segments l1 of s # _ \<Rightarrow> sg_base_offset s | [] \<Rightarrow> active_base)
             in finish_trim target new_log_start l1)"

definition delete_local_segments_through :: "int \<Rightarrow> nat log_act" where
  "delete_local_segments_through target l =
     (if target < 0 then Some (Inl (InvalidArgument ''delete_local_segments_through: target must be >= 0''), l)
      else if target \<le> log_start_offset l then Some (Inr 0, l)
      else let to_drop = map (\<lambda>(s, _). sg_base_offset s)
                 (filter (\<lambda>(_, next_base). next_base - 1 < target) (zip (lg_segments l) (next_bases l)))
           in Some (Inr (length to_drop), (remove_segments to_drop l)\<lparr>lg_start_offset_override := Some target\<rparr>))"

definition reset_to :: "int \<Rightarrow> unit log_act" where
  "reset_to new_base l =
     (if new_base < 0 then Some (Inl (OffsetMismatch 0 new_base), l)
      else let bases = map sg_base_offset (lg_segments l) @ (case lg_active l of Some a \<Rightarrow> [sg_base_offset a] | None \<Rightarrow> []);
               l1 = drop_files bases (l\<lparr>lg_snapshots := ps_remove_all (lg_snapshots l), lg_segments := [], lg_active := None,
                                        lg_start_offset_override := None\<rparr>)
           in abind (start_segment new_base) (\<lambda>_. aupdate (\<lambda>l.
                l\<lparr>lg_pending := [], lg_pending_stamp_ranges := [], lg_coordinator_epochs := [], lg_producer_state := [], lg_lso := log_end_offset l,
                  lg_epoch_checkpoint := lec_clear (lg_epoch_checkpoint l)\<rparr>)) l1)"

section \<open>Retention\<close>

definition time_based_evict :: "segment list \<Rightarrow> log_config \<Rightarrow> int \<Rightarrow> int list" where
  "time_based_evict sealed config now_ms =
     (case lc_retention config of
        None \<Rightarrow> []
      | Some retention \<Rightarrow>
          (let cutoff_ms = i64_saturating_sub now_ms retention
           in map sg_base_offset (takeWhile (\<lambda>s. sg_max_timestamp s < cutoff_ms) sealed)))"

fun size_evict_loop :: "segment list \<Rightarrow> int \<Rightarrow> int list" where
  "size_evict_loop [] deletable = []"
| "size_evict_loop (s # ss) deletable =
     (if deletable \<le> 0 then [] else sg_base_offset s # size_evict_loop ss (deletable - int (length (sg_log s))))"

definition size_based_evict :: "segment list \<Rightarrow> nat \<Rightarrow> log_config \<Rightarrow> int list" where
  "size_based_evict sealed active_size config =
     (case lc_retention_size config of
        None \<Rightarrow> []
      | Some budget \<Rightarrow>
          (let tot = active_size + sum_list (map (\<lambda>s. length (sg_log s)) sealed)
           in if tot \<le> budget then [] else size_evict_loop sealed (int tot - int budget)))"

definition DEFAULT_TIMESTAMP_SCAN_WINDOW :: nat where
  "DEFAULT_TIMESTAMP_SCAN_WINDOW = 65536"

text \<open>The roll check asks for the first record of the active segment; \<open>None\<close> is a scan that does not return.\<close>

definition roll_due :: "batch_lib \<Rightarrow> partition_log \<Rightarrow> int \<Rightarrow> bool option" where
  "roll_due lib l now_ms =
     (let roll_cutoff = i64_saturating_sub now_ms (lc_segment_roll_interval (lg_config l)) in
      case lg_active l of
        None \<Rightarrow> Some False
      | Some a \<Rightarrow>
          (case offset_for_timestamp_with_window lib a i64_MIN DEFAULT_TIMESTAMP_SCAN_WINDOW of
             None \<Rightarrow> None
           | Some None \<Rightarrow> Some False
           | Some (Some (_, first_timestamp)) \<Rightarrow> Some (first_timestamp < roll_cutoff)))"

definition evict_segments :: "int \<Rightarrow> partition_log \<Rightarrow> partition_log" where
  "evict_segments now_ms l =
     (let active_size = (case lg_active l of Some a \<Rightarrow> length (sg_log a) | None \<Rightarrow> 0);
          time_evict = time_based_evict (lg_segments l) (lg_config l) now_ms;
          size_evict = size_based_evict (lg_segments l) active_size (lg_config l);
          to_evict = time_evict @ remdups (filter (\<lambda>base. base \<notin> set time_evict) size_evict);
          total_segments = length (lg_segments l) + (case lg_active l of Some _ \<Rightarrow> 1 | None \<Rightarrow> 0);
          capped = (if total_segments \<le> length to_evict then take (total_segments - 1) to_evict else to_evict)
      in remove_segments capped l)"

definition log_tick :: "batch_lib \<Rightarrow> int \<Rightarrow> unit log_act" where
  "log_tick lib now_ms l =
     (case roll_due lib l now_ms of
        None \<Rightarrow> None
      | Some should_roll \<Rightarrow>
          abind (if should_roll then roll_active_segment lib else aresult (Inr ())) (\<lambda>_. aupdate (\<lambda>l.
            if lc_remote_storage_enable (lg_config l) then l else evict_segments now_ms l)) l)"

section \<open>Timestamps and tiering\<close>

fun timestamp_in_segments :: "batch_lib \<Rightarrow> segment list \<Rightarrow> int \<Rightarrow> nat \<Rightarrow> (int \<times> int) option option" where
  "timestamp_in_segments lib [] target_ts window = Some None"
| "timestamp_in_segments lib (s # ss) target_ts window =
     (if sg_max_timestamp s = i64_MIN \<or> target_ts \<le> sg_max_timestamp s
      then case offset_for_timestamp_with_window lib s target_ts window of
             None \<Rightarrow> None
           | Some (Some hit) \<Rightarrow> Some (Some hit)
           | Some None \<Rightarrow> timestamp_in_segments lib ss target_ts window
      else timestamp_in_segments lib ss target_ts window)"

definition offset_for_timestamp :: "batch_lib \<Rightarrow> partition_log \<Rightarrow> int \<Rightarrow> (int \<times> int) option option" where
  "offset_for_timestamp lib l target_ts =
     (let window = lc_timestamp_scan_window (lg_config l) in
      case timestamp_in_segments lib (lg_segments l) target_ts window of
        None \<Rightarrow> None
      | Some (Some hit) \<Rightarrow> Some (Some hit)
      | Some None \<Rightarrow>
          (case lg_active l of
             Some a \<Rightarrow> if target_ts \<le> sg_max_timestamp a then offset_for_timestamp_with_window lib a target_ts window else Some None
           | None \<Rightarrow> Some None))"

fun max_timestamp_loop :: "batch_lib \<Rightarrow> segment list \<Rightarrow> nat \<Rightarrow> (int \<times> int) option \<Rightarrow> (int \<times> int) option option" where
  "max_timestamp_loop lib [] window best = Some best"
| "max_timestamp_loop lib (s # ss) window best =
     (case offset_of_max_timestamp_with_window lib s window of
        None \<Rightarrow> None
      | Some None \<Rightarrow> max_timestamp_loop lib ss window best
      | Some (Some (offset, ts)) \<Rightarrow>
          max_timestamp_loop lib ss window
            (if (case best of None \<Rightarrow> True | Some (best_ts, _) \<Rightarrow> best_ts < ts) then Some (ts, offset) else best))"

definition max_timestamp_offset_and_ts :: "batch_lib \<Rightarrow> partition_log \<Rightarrow> (int \<times> int) option option" where
  "max_timestamp_offset_and_ts lib l =
     map_option (map_option (\<lambda>(ts, offset). (offset, ts)))
       (max_timestamp_loop lib (lg_segments l @ (case lg_active l of Some a \<Rightarrow> [a] | None \<Rightarrow> []))
          (lc_timestamp_scan_window (lg_config l)) None)"

definition offset_of_max_timestamp :: "batch_lib \<Rightarrow> partition_log \<Rightarrow> int option" where
  "offset_of_max_timestamp lib l =
     map_option (\<lambda>r. case r of None \<Rightarrow> log_start_offset l | Some (offset, _) \<Rightarrow> offset) (max_timestamp_offset_and_ts lib l)"

fun epochs_for_range :: "epoch_entry list \<Rightarrow> int \<Rightarrow> int \<Rightarrow> (int \<times> int) list" where
  "epochs_for_range [] base last_off = []"
| "epochs_for_range (e # es) base last_off =
     (let end_off = (case es of [] \<Rightarrow> i64_MAX | n # _ \<Rightarrow> ee_start_offset n);
          rest = epochs_for_range es base last_off
      in if ee_start_offset e \<le> last_off \<and> base < end_off then (ee_epoch e, max (ee_start_offset e) base) # rest else rest)"

record segment_export =
  se_base_offset :: int
  se_last_offset :: int
  se_max_timestamp :: int
  se_size :: nat
  se_leader_epochs :: "(int \<times> int) list"

definition tierable_segments :: "partition_log \<Rightarrow> segment_export list" where
  "tierable_segments l =
     (let epoch_entries = sort_key ee_start_offset (lec_entries (lg_epoch_checkpoint l)) in
      map (\<lambda>(s, next_base).
             \<lparr>se_base_offset = sg_base_offset s, se_last_offset = next_base - 1,
              se_max_timestamp = (if sg_max_timestamp s = i64_MIN then - 1 else sg_max_timestamp s),
              se_size = length (sg_log s),
              se_leader_epochs = epochs_for_range epoch_entries (sg_base_offset s) (next_base - 1)\<rparr>)
          (zip (lg_segments l) (next_bases l)))"

section \<open>The directory\<close>

record log_disk =
  ld_segments :: "(int, segment_files) btree_map"
  ld_txn_files :: "(int, bytes) btree_map"
  ld_snapshots :: snapshot_files
  ld_epoch_file :: "string option"

definition open_sealed :: "(int, segment_files) btree_map \<Rightarrow> segment list" where
  "open_sealed segs =
     map (\<lambda>((base, files), next_base). seg_seal_at (seg_open base files) (next_base - 1))
       (zip (butlast segs) (drop 1 (bt_keys segs)))"

definition log_open :: "batch_lib \<Rightarrow> log_config \<Rightarrow> log_disk \<Rightarrow> ((log_error + unit) \<times> partition_log) option" where
  "log_open lib config disk =
     (let segs = ld_segments disk;
          active = (if segs = [] then seg_create 0
                    else seg_open_active lib (fst (last segs)) (snd (last segs)) (lc_validate_on_open config));
          lso = i64_wrapping_add (sg_last_offset active) 1;
          l0 = \<lparr>lg_config = config, lg_segments = open_sealed segs, lg_active = Some active, lg_start_offset_override = None,
                lg_lso = lso, lg_pending = [], lg_pending_stamp_ranges = [], lg_coordinator_epochs = [], lg_producer_state = [],
                lg_active_txn_index = \<lparr>tx_file = [], tx_entries = []\<rparr>,
                lg_epoch_checkpoint = \<lparr>lec_file = None, lec_entries = []\<rparr>, lg_reconciled_frontier = 0,
                lg_txn_files = ld_txn_files disk, lg_snapshots = ld_snapshots disk\<rparr>
      in abind (open_txn_index (sg_base_offset active)) (\<lambda>_.
         abind (\<lambda>l. case lec_open (ld_epoch_file disk) of
                       Inl row \<Rightarrow> Some (Inl (Corrupt row), l)
                     | Inr c \<Rightarrow> Some (Inr (), l\<lparr>lg_epoch_checkpoint := truncate_from_end c lso\<rparr>)) (\<lambda>_.
         rebuild_producer_and_transaction_state lib)) l0)"

definition disk_of :: "partition_log \<Rightarrow> log_disk" where
  "disk_of l = \<lparr>ld_segments = map (\<lambda>s. (sg_base_offset s, files_of s)) (lg_segments l
       @ (case lg_active l of Some a \<Rightarrow> [a] | None \<Rightarrow> [])),
     ld_txn_files = lg_txn_files l, ld_snapshots = lg_snapshots l, ld_epoch_file = lec_file (lg_epoch_checkpoint l)\<rparr>"

section \<open>Frames\<close>

lemma abind_InrE:
  assumes "abind m f l = Some (Inr b, l')"
  obtains a l1 where "m l = Some (Inr a, l1)" "f a l1 = Some (Inr b, l')"
  using assms by (auto simp: abind_def split: option.splits prod.splits sum.splits)

lemma aupdate_Inr [simp]: "aupdate f l = Some (r, l') \<longleftrightarrow> r = Inr () \<and> l' = f l"
  by (auto simp: aupdate_def)

lemma aresult_Inr [simp]: "aresult r l = Some (r', l') \<longleftrightarrow> r' = r \<and> l' = l"
  by (auto simp: aresult_def)

lemma i64_ok_wrapping [simp]: "i64_ok (i64_wrapping_add a b)"
  using sint_lt [of "word_of_int (a + b) :: 64 word"] sint_ge [of "word_of_int (a + b) :: 64 word"]
  by (simp add: i64_wrapping_add_def int_width)

lemma wrap_pred_succ: "i64_ok x \<Longrightarrow> i64_wrapping_add (i64_wrapping_sub x 1) 1 = x"
  using sint_of_int_ok [where 'a = 64, of x]
  by (simp add: i64_wrapping_add_def i64_wrapping_sub_def int_width of_int_add)

lemma log_end_ok [simp]: "i64_ok (log_end_offset l)"
  by (auto simp: log_end_offset_def int_width split: option.splits)
     (use i64_ok_wrapping in \<open>simp_all add: int_width\<close>)

text \<open>What most steps leave alone: open transactions, last stable offset and log end.\<close>

definition same_txn :: "partition_log \<Rightarrow> partition_log \<Rightarrow> bool" where
  "same_txn l l' \<longleftrightarrow> lg_pending l' = lg_pending l \<and> lg_lso l' = lg_lso l \<and> log_end_offset l' = log_end_offset l"

lemma same_txn_refl [simp]: "same_txn l l"
  by (simp add: same_txn_def)

lemma same_txn_trans: "same_txn l l1 \<Longrightarrow> same_txn l1 l2 \<Longrightarrow> same_txn l l2"
  by (simp add: same_txn_def)

lemma start_segment_Inr:
  assumes "start_segment base l = Some (Inr (), l')"
  shows "lg_active l' = Some (seg_create base)" "lg_pending l' = lg_pending l" "lg_lso l' = lg_lso l" "lg_segments l' = lg_segments l"
    "tx_open (case bt_get (lg_txn_files l) base of Some f \<Rightarrow> f | None \<Rightarrow> []) = Some (lg_active_txn_index l')"
    "lg_config l' = lg_config l" "lg_epoch_checkpoint l' = lg_epoch_checkpoint l" "lg_start_offset_override l' = lg_start_offset_override l"
  using assms by (auto simp: start_segment_def open_txn_index_def abind_def split: if_splits option.splits)

lemma roll_Inr:
  assumes "roll_active_segment lib l = Some (Inr (), l')"
  obtains old files where "lg_active l = Some old"
    "start_segment (log_end_offset l)
       (l\<lparr>lg_snapshots := files, lg_active := None, lg_segments := lg_segments l @ [seg_seal old]\<rparr>) = Some (Inr (), l')"
  using assms by (auto simp: roll_active_segment_def Let_def split: option.splits)

lemma roll_same:
  assumes "roll_active_segment lib l = Some (Inr (), l')"
  shows "same_txn l l'"
proof -
  obtain old files where "lg_active l = Some old" and
    st: "start_segment (log_end_offset l)
       (l\<lparr>lg_snapshots := files, lg_active := None, lg_segments := lg_segments l @ [seg_seal old]\<rparr>) = Some (Inr (), l')"
    using assms by (rule roll_Inr)
  note st' = start_segment_Inr [OF st]
  have "log_end_offset l' = log_end_offset l"
    using wrap_pred_succ [OF log_end_ok, of l] by (simp add: log_end_offset_def [of l'] st'(1) seg_create_def)
  then show ?thesis using st' by (simp add: same_txn_def)
qed

lemma maybe_roll_same: "maybe_roll lib l = Some (Inr (), l') \<Longrightarrow> same_txn l l'"
  by (auto simp: maybe_roll_def split: option.splits if_splits dest: roll_same)

lemma write_batch_last: "write_batch s bs base lst ts iv = (Inr pos, s') \<Longrightarrow> sg_last_offset s' = lst"
  by (auto simp: write_batch_def Let_def split: if_splits option.splits)

lemma seg_append_last: "seg_append lib s b iv = Some (Inr pos, s') \<Longrightarrow> sg_last_offset s' = batch_last b"
  by (auto simp: seg_append_def split: if_splits option.splits sum.splits dest: write_batch_last)

lemma seg_append_verbatim_last:
  "seg_append_verbatim s bs base lod ts ep iv = Some (Inr pos, s') \<Longrightarrow> sg_last_offset s' = i64_wrapping_add base lod"
  by (auto simp: seg_append_verbatim_def split: if_splits option.splits dest: write_batch_last)

lemma with_active_Inr:
  assumes "with_active f l = Some (Inr (), l')"
  obtains s s' pos where "lg_active l = Some s" "f s = Some (Inr pos, s')" "l' = l\<lparr>lg_active := Some s'\<rparr>"
proof -
  from assms obtain s r s' where "lg_active l = Some s" "f s = Some (r, s')" "map_sum id (\<lambda>_. ()) r = Inr ()"
    "l' = l\<lparr>lg_active := Some s'\<rparr>"
    by (auto simp: with_active_def split: option.splits prod.splits)
  then show thesis using that by (cases r) auto
qed

lemma update_data_same: "update_data_producer_entry p pe bs lod bo ts tr l = Some (Inr (), l') \<Longrightarrow> same_txn l l'"
  by (auto simp: update_data_producer_entry_def same_txn_def log_end_offset_def Let_def split: sum.splits option.splits)

lemma update_owned_same: "update_owned_producer_entry b l = Some (Inr (), l') \<Longrightarrow> same_txn l l'"
  by (auto simp: update_owned_producer_entry_def Let_def same_txn_def log_end_offset_def split: if_splits option.splits
      dest!: update_data_same)

lemma note_epoch_same: "note_epoch e base l = Some (Inr (), l') \<Longrightarrow> same_txn l l'"
  by (auto simp: note_epoch_def same_txn_def log_end_offset_def split: if_splits)

lemma remove_segments_same: "same_txn l (remove_segments bases l)"
  by (simp add: remove_segments_def drop_files_def same_txn_def log_end_offset_def)

lemma evict_same: "same_txn l (evict_segments now l)"
  by (simp add: evict_segments_def Let_def remove_segments_same)

lemma set_start_same: "set_log_start_offset n l = Some (Inr (), l') \<Longrightarrow> same_txn l l'"
  by (auto simp: set_log_start_offset_def same_txn_def log_end_offset_def split: if_splits)

lemma log_tick_same:
  assumes "log_tick lib now l = Some (Inr (), l')"
  shows "same_txn l l'"
proof -
  obtain should_roll where "abind (if should_roll then roll_active_segment lib else aresult (Inr ())) (\<lambda>_. aupdate (\<lambda>l.
            if lc_remote_storage_enable (lg_config l) then l else evict_segments now l)) l = Some (Inr (), l')"
    using assms by (auto simp: log_tick_def split: option.splits)
  then obtain l1 where "(if should_roll then roll_active_segment lib else aresult (Inr ())) l = Some (Inr (), l1)"
    "l' = (if lc_remote_storage_enable (lg_config l1) then l1 else evict_segments now l1)"
    by (rule abind_InrE) auto
  moreover from this(1) have "same_txn l l1" by (auto split: if_splits dest: roll_same)
  ultimately show ?thesis using same_txn_trans [OF _ evict_same [of l1 now]] by (auto split: if_splits)
qed

lemma finish_trim_same: "finish_trim t x l = Some (Inr r, l') \<Longrightarrow> same_txn l l'"
  unfolding finish_trim_def by (erule abind_InrE) (auto split: if_splits dest: set_start_same)

lemma trim_same: "trim_to_offset target l = Some (Inr r, l') \<Longrightarrow> same_txn l l'"
  unfolding trim_to_offset_def Let_def
  by (auto split: if_splits dest!: finish_trim_same intro: same_txn_trans [OF remove_segments_same])

lemma delete_local_same: "delete_local_segments_through target l = Some (Inr n, l') \<Longrightarrow> same_txn l l'"
  by (auto simp: delete_local_segments_through_def Let_def remove_segments_def drop_files_def same_txn_def log_end_offset_def
      split: if_splits)

end
