(* ===== verification/Log_Reads.thy ===== *)
theory Log_Reads
  imports Log_Segment
begin

text \<open>
  What the raw reads of a segment return (\<open>Segment::read_raw\<close> of \<open>crates/log/src/segment.rs\<close>), stated
  over the batches that the segment holds: whole batches, in order and without a hole, from the one
  that covers the fetch offset up to the limit offset.
\<close>

section \<open>The header of a stored batch\<close>

lemma stored_header:
  assumes "stored lib b out"
  obtains hdr where "ref_from_bytes (take HEADER_LEN (out @ rest)) = Inr hdr" "header_len hdr = length out"
    "bh_base_offset hdr = rb_base_offset b" "header_last hdr = batch_last b"
proof -
  have dec: "batch_decode lib (out @ rest) = Inr (b, rest)" using assms by (simp add: stored_def)
  then obtain hdr body where frame: "checked_frame lib (out @ rest) = Inr (hdr, body, rest)"
    and b: "bh_base_offset hdr = rb_base_offset b" "bh_last_offset_delta hdr = rb_last_offset_delta b"
    by (auto simp: batch_decode_frame rbind_def batch_of_def split: sum.splits prod.splits if_splits)
  have ref: "ref_from_bytes (take HEADER_LEN (out @ rest)) = Inr hdr"
    using frame by (auto simp: checked_frame_def Let_def split: if_splits sum.splits)
  have len: "0 \<le> bh_batch_length hdr - HEADER_TAIL_LEN" "rest = drop (nat (bh_batch_length hdr - HEADER_TAIL_LEN)) (drop HEADER_LEN (out @ rest))"
    "nat (bh_batch_length hdr - HEADER_TAIL_LEN) \<le> length (drop HEADER_LEN (out @ rest))"
    using frame by (auto simp: checked_frame_def Let_def not_less split: if_splits sum.splits)
  have "length rest = length (out @ rest) - HEADER_LEN - nat (bh_batch_length hdr - HEADER_TAIL_LEN)"
    using arg_cong [OF len(2), of length] by (simp only: length_drop)
  then have "length out = HEADER_LEN + nat (bh_batch_length hdr - HEADER_TAIL_LEN)"
    using len(3) stored_length [OF assms] by (simp add: HEADER_LEN_def)
  then have "header_len hdr = length out"
    using len(1) by (simp add: header_len_def HEADER_LEN_def HEADER_TAIL_LEN_def)
  moreover have "header_last hdr = batch_last b" using b by (simp add: header_last_def batch_last_def)
  ultimately show thesis using that ref b(1) by blast
qed

section \<open>The walk\<close>

type_synonym cells = "(record_batch \<times> bytes) list"

text \<open>The batches taken inside a window, until the budget is used up.\<close>

fun raw_run :: "nat \<Rightarrow> nat \<Rightarrow> nat \<Rightarrow> cells \<Rightarrow> cells" where
  "raw_run win mx got [] = []"
| "raw_run win mx got (c # cs) =
     (if win < length (snd c) then []
      else c # (if mx \<le> got + length (snd c) then [] else raw_run (win - length (snd c)) mx (got + length (snd c)) cs))"

definition raw_result :: "cells \<Rightarrow> raw_segment_read" where
  "raw_result xs = (if xs = [] then rsr_empty
     else \<lparr>rsr_start_offset = rb_base_offset (fst (hd xs)), rsr_last_offset = batch_last (fst (last xs)), rsr_bytes = cells_bytes xs\<rparr>)"

abbreviation all_stored :: "batch_lib \<Rightarrow> cells \<Rightarrow> bool" where
  "all_stored lib \<equiv> list_all (\<lambda>(b, out). stored lib b out)"

abbreviation below_limit :: "int \<Rightarrow> cells \<Rightarrow> cells" where
  "below_limit lim \<equiv> takeWhile (\<lambda>(b, _). rb_base_offset b < lim)"

abbreviation before :: "int \<Rightarrow> cells \<Rightarrow> cells" where
  "before f \<equiv> takeWhile (\<lambda>(b, _). batch_last b < f)"

text \<open>The end of the buffer against the window that it was read with.\<close>

lemma window_end:
  assumes "drop p buf = take (W - p) X" and "n \<le> length X" and "0 < n"
  shows "length buf < p + n \<longleftrightarrow> W < p + n"
proof -
  have "length buf - p = min (length X) (W - p)" using arg_cong [OF assms(1), of length] by simp
  then show ?thesis using assms(2,3) by linarith
qed

lemma drop_window:
  assumes "drop p buf = take (W - p) (out @ X)"
  shows "drop (p + length out) buf = take (W - (p + length out)) X"
proof -
  have "drop (p + length out) buf = drop (length out) (drop p buf)" by (simp add: add.commute)
  also have "\<dots> = take (W - p - length out) (drop (length out) (out @ X))" unfolding assms by (rule drop_take)
  finally show ?thesis by simp
qed

text \<open>One turn of the loop with the walk standing at a stored batch.\<close>

definition took :: "raw_walk \<Rightarrow> record_batch \<Rightarrow> nat \<Rightarrow> raw_walk" where
  "took w b n = w\<lparr>rw_range_start := (case rw_range_start w of None \<Rightarrow> Some (rw_pos w) | Some s \<Rightarrow> Some s),
     rw_start_offset := (case rw_range_start w of None \<Rightarrow> rb_base_offset b | Some _ \<Rightarrow> rw_start_offset w),
     rw_range_end := rw_pos w + n, rw_last_offset := batch_last b, rw_pos := rw_pos w + n\<rparr>"

lemma raw_loop_step:
  assumes "stored lib b out" and "drop (rw_pos w) buf = take (W - rw_pos w) (out @ X)"
  shows "raw_loop s start buf f lim mx w =
    (if W < rw_pos w + HEADER_LEN then Inr (raw_finish buf w)
     else if batch_last b < f then raw_loop s start buf f lim mx (w\<lparr>rw_pos := rw_pos w + length out\<rparr>)
     else if lim \<le> rb_base_offset b then Inr (raw_finish buf w)
     else if W < rw_pos w + length out then
       (if rw_range_start w = None then
          (let one = read_log_range s (start + rw_pos w) (length out) in
           if length one < length out then Inr (raw_finish buf w)
           else Inr \<lparr>rsr_start_offset = rb_base_offset b, rsr_last_offset = batch_last b, rsr_bytes = one\<rparr>)
        else Inr (raw_finish buf w))
     else let w' = took w b (length out) in
       if mx \<le> rw_range_end w' - the (rw_range_start w') then Inr (raw_finish buf w')
       else raw_loop s start buf f lim mx w')"
proof -
  have len: "HEADER_LEN \<le> length out" using stored_length [OF assms(1)] by (simp add: HEADER_LEN_def)
  have hdr_end: "length buf < rw_pos w + HEADER_LEN \<longleftrightarrow> W < rw_pos w + HEADER_LEN"
    using len by (intro window_end [OF assms(2)]) (simp_all add: HEADER_LEN_def)
  have out_end: "length buf < rw_pos w + length out \<longleftrightarrow> W < rw_pos w + length out"
    using len by (intro window_end [OF assms(2)]) (auto simp: HEADER_LEN_def)
  show ?thesis
  proof (cases "W < rw_pos w + HEADER_LEN")
    case True
    then show ?thesis using hdr_end by (subst raw_loop.simps) simp
  next
    case False
    have "take HEADER_LEN (drop (rw_pos w) buf) = take HEADER_LEN (out @ [])"
      using False len unfolding assms(2) by (simp add: take_append)
    with assms(1) obtain hdr where hdr: "ref_from_bytes (take HEADER_LEN (drop (rw_pos w) buf)) = Inr hdr" "header_len hdr = length out"
      "bh_base_offset hdr = rb_base_offset b" "header_last hdr = batch_last b"
      using stored_header [of lib b out "[]"] by metis
    then have "walk_take w hdr = took w b (length out)" by (simp add: walk_take_def took_def Let_def split: option.splits)
    then show ?thesis using False hdr hdr_end out_end by (subst raw_loop.simps) (simp add: Let_def)
  qed
qed

lemma raw_loop_run:
  assumes "all_stored lib cs" and "list_all (\<lambda>(b, _). f \<le> batch_last b) cs"
    and "drop (rw_pos w) buf = take (W - rw_pos w) (cells_bytes cs)" and "rw_range_start w = Some p" and "rw_range_end w = rw_pos w"
    and "p \<le> rw_pos w" and "rw_pos w \<le> length buf"
  shows "raw_loop s start buf f lim mx w =
    (let run = raw_run (W - rw_pos w) mx (rw_pos w - p) (below_limit lim cs)
     in Inr \<lparr>rsr_start_offset = rw_start_offset w,
         rsr_last_offset = (if run = [] then rw_last_offset w else batch_last (fst (last run))),
         rsr_bytes = take (rw_pos w - p) (drop p buf) @ cells_bytes run\<rparr>)"
  using assms
proof (induction cs arbitrary: w)
  case Nil
  then have "length buf < rw_pos w + HEADER_LEN" by (simp add: HEADER_LEN_def)
  then show ?case using Nil by (subst raw_loop.simps) (simp add: raw_finish_def)
next
  case (Cons c cs)
  obtain b out where c: "c = (b, out)" by (cases c)
  have st: "stored lib b out" "all_stored lib cs" "\<not> batch_last b < f" "list_all (\<lambda>(b, _). f \<le> batch_last b) cs"
    using Cons.prems(1,2) c by auto
  have len: "HEADER_LEN \<le> length out" using stored_length [OF st(1)] by (simp add: HEADER_LEN_def)
  have win: "drop (rw_pos w) buf = take (W - rw_pos w) (out @ cells_bytes cs)" using Cons.prems(3) c by simp
  note step = raw_loop_step [OF st(1) win, of s start f lim mx]
  show ?case
  proof (cases "lim \<le> rb_base_offset b \<or> W - rw_pos w < length out")
    case True
    then have "raw_run (W - rw_pos w) mx (rw_pos w - p) (below_limit lim (c # cs)) = []" using c by auto
    moreover have "raw_loop s start buf f lim mx w = Inr (raw_finish buf w)"
      using True st(3) Cons.prems(4) unfolding step by auto
    ultimately show ?thesis using Cons.prems(4,5) by (simp add: raw_finish_def)
  next
    case False
    then have room: "length out \<le> W - rw_pos w" "\<not> W < rw_pos w + length out" "\<not> W < rw_pos w + HEADER_LEN" and vis: "rb_base_offset b < lim"
      using len by (auto simp: HEADER_LEN_def)
    let ?w = "took w b (length out)"
    have w': "rw_pos ?w = rw_pos w + length out" "rw_range_start ?w = Some p" "rw_range_end ?w = rw_pos ?w"
      "rw_start_offset ?w = rw_start_offset w" "rw_last_offset ?w = batch_last b"
      using Cons.prems(4) by (simp_all add: took_def)
    have got: "rw_pos ?w - p = rw_pos w - p + length out" using Cons.prems(6) w'(1) by simp
    have piece: "take (rw_pos ?w - p) (drop p buf) = take (rw_pos w - p) (drop p buf) @ out"
      using room(1) win Cons.prems(6) unfolding got take_add by (simp add: min_absorb1)
    have step': "raw_loop s start buf f lim mx w = (if mx \<le> rw_pos w - p + length out then Inr (raw_finish buf ?w) else raw_loop s start buf f lim mx ?w)"
      using room vis st(3) w' got unfolding step by (simp add: Let_def)
    show ?thesis
    proof (cases "mx \<le> rw_pos w - p + length out")
      case True
      then show ?thesis using step' room(1) vis c w' piece by (simp add: raw_finish_def)
    next
      case more: False
      have "raw_loop s start buf f lim mx ?w =
          (let run = raw_run (W - rw_pos ?w) mx (rw_pos ?w - p) (below_limit lim cs)
           in Inr \<lparr>rsr_start_offset = rw_start_offset ?w,
               rsr_last_offset = (if run = [] then rw_last_offset ?w else batch_last (fst (last run))),
               rsr_bytes = take (rw_pos ?w - p) (drop p buf) @ cells_bytes run\<rparr>)"
      proof (rule Cons.IH [OF st(2,4)])
        show "drop (rw_pos ?w) buf = take (W - rw_pos ?w) (cells_bytes cs)" using drop_window [OF win] w'(1) by simp
        show "rw_pos ?w \<le> length buf"
          using window_end [OF win, of "length out"] room(2) stored_length [OF st(1)] w'(1) by fastforce
      qed (use w' Cons.prems(6) in simp_all)
      then show ?thesis using step' more got room(1) vis piece w' c by (simp add: Let_def)
    qed
  qed
qed

text \<open>
  Before the first batch is taken: batches that end below the fetch offset are stepped over; a first
  batch that sticks out of the window is read whole.
\<close>

definition raw_cells :: "nat \<Rightarrow> nat \<Rightarrow> nat \<Rightarrow> cells \<Rightarrow> cells" where
  "raw_cells W mx pos vis = (case vis of [] \<Rightarrow> [] | c # _ \<Rightarrow>
     if W < pos + HEADER_LEN then [] else if W < pos + length (snd c) then [c] else raw_run (W - pos) mx 0 vis)"

lemma raw_cells_small: "W < pos + HEADER_LEN \<Longrightarrow> raw_cells W mx pos vis = []"
  by (simp add: raw_cells_def split: list.splits)

lemma raw_loop_first:
  assumes "stored lib b out" and "all_stored lib ds" and "drop (rw_pos w) buf = take (W - rw_pos w) (out @ cells_bytes ds)"
    and "drop (start + rw_pos w) (sg_log s) = out @ cells_bytes ds" and "rw_range_start w = None"
    and "list_all (\<lambda>(b', _). f \<le> batch_last b') ds" and "\<not> W < rw_pos w + HEADER_LEN" and "\<not> batch_last b < f" and "\<not> lim \<le> rb_base_offset b"
  shows "raw_loop s start buf f lim mx w = Inr (raw_result (raw_cells W mx (rw_pos w) (below_limit lim ((b, out) # ds))))"
proof (cases "W < rw_pos w + length out")
  case True
  have "length (drop (start + rw_pos w) (sg_log s)) = length out + length (cells_bytes ds)" using assms(4) by simp
  then have "length out \<le> length (sg_log s) - (start + rw_pos w)" by simp
  then have "read_log_range s (start + rw_pos w) (length out) = out"
    using assms(4) by (simp add: read_log_range_def Let_def min_absorb2)
  then show ?thesis using True assms(5,7-9) unfolding raw_loop_step [OF assms(1,3)] by (simp add: raw_cells_def raw_result_def)
next
  case False
  let ?w = "took w b (length out)"
  have w': "rw_pos ?w = rw_pos w + length out" "rw_range_start ?w = Some (rw_pos w)" "rw_range_end ?w = rw_pos ?w"
    "rw_start_offset ?w = rb_base_offset b" "rw_last_offset ?w = batch_last b"
    using assms(5) by (simp_all add: took_def)
  have room: "length out \<le> W - rw_pos w" using False by simp
  have piece: "take (rw_pos ?w - rw_pos w) (drop (rw_pos w) buf) = out"
    using room unfolding assms(3) w'(1) by (simp add: min_absorb1)
  have step: "raw_loop s start buf f lim mx w = (if mx \<le> length out then Inr (raw_finish buf ?w) else raw_loop s start buf f lim mx ?w)"
    using False assms(7-9) w' unfolding raw_loop_step [OF assms(1,3)] by (simp add: Let_def)
  have cells: "raw_cells W mx (rw_pos w) (below_limit lim ((b, out) # ds)) =
      (b, out) # (if mx \<le> length out then [] else raw_run (W - rw_pos ?w) mx (length out) (below_limit lim ds))"
    using False assms(7,9) room w'(1) by (simp add: raw_cells_def)
  show ?thesis
  proof (cases "mx \<le> length out")
    case True
    then show ?thesis using step cells w' piece by (simp add: raw_finish_def raw_result_def)
  next
    case more: False
    have "raw_loop s start buf f lim mx ?w =
      (let run = raw_run (W - rw_pos ?w) mx (rw_pos ?w - rw_pos w) (below_limit lim ds)
       in Inr \<lparr>rsr_start_offset = rw_start_offset ?w,
           rsr_last_offset = (if run = [] then rw_last_offset ?w else batch_last (fst (last run))),
           rsr_bytes = take (rw_pos ?w - rw_pos w) (drop (rw_pos w) buf) @ cells_bytes run\<rparr>)"
    proof (rule raw_loop_run [OF assms(2,6)])
      show "drop (rw_pos ?w) buf = take (W - rw_pos ?w) (cells_bytes ds)" using drop_window [OF assms(3)] w'(1) by simp
      show "rw_pos ?w \<le> length buf"
        using window_end [OF assms(3), of "length out"] False stored_length [OF assms(1)] w'(1) by fastforce
    qed (use w' in simp_all)
    then show ?thesis using step cells w' piece more by (simp add: raw_result_def Let_def)
  qed
qed

lemma raw_loop_start:
  assumes "all_stored lib ds" and "sorted_wrt (\<lambda>x y. batch_last (fst x) < batch_last (fst y)) ds"
    and "drop (rw_pos w) buf = take (W - rw_pos w) (cells_bytes ds)"
    and "drop (start + rw_pos w) (sg_log s) = cells_bytes ds" and "rw_range_start w = None"
  shows "raw_loop s start buf f lim mx w =
    Inr (raw_result (raw_cells W mx (rw_pos w + length (cells_bytes (before f ds))) (below_limit lim (drop (length (before f ds)) ds))))"
  using assms
proof (induction ds arbitrary: w)
  case Nil
  then have "length buf < rw_pos w + HEADER_LEN" by (simp add: HEADER_LEN_def)
  then show ?case using Nil by (subst raw_loop.simps) (simp add: raw_finish_def raw_cells_def raw_result_def)
next
  case (Cons c ds)
  obtain b out where c: "c = (b, out)" by (cases c)
  have st: "stored lib b out" "all_stored lib ds" using Cons.prems(1) c by simp_all
  have sorted: "sorted_wrt (\<lambda>x y. batch_last (fst x) < batch_last (fst y)) ds" "list_all (\<lambda>(b', _). batch_last b < batch_last b') ds"
    using Cons.prems(2) c by (auto simp: list_all_iff)
  have win: "drop (rw_pos w) buf = take (W - rw_pos w) (out @ cells_bytes ds)" using Cons.prems(3) c by simp
  have rest: "drop (start + rw_pos w) (sg_log s) = out @ cells_bytes ds" using Cons.prems(4) c by simp
  note step = raw_loop_step [OF st(1) win, of s start f lim mx]
  have empty: "raw_finish buf w = raw_result []" using Cons.prems(5) by (simp add: raw_finish_def raw_result_def)
  consider (short) "W < rw_pos w + HEADER_LEN" | (skip) "\<not> W < rw_pos w + HEADER_LEN" "batch_last b < f"
    | (stop) "\<not> W < rw_pos w + HEADER_LEN" "\<not> batch_last b < f" "lim \<le> rb_base_offset b"
    | (take) "\<not> W < rw_pos w + HEADER_LEN" "\<not> batch_last b < f" "\<not> lim \<le> rb_base_offset b" by blast
  then show ?case
  proof cases
    case short
    moreover have "W < rw_pos w + n + HEADER_LEN" for n using short by simp
    ultimately show ?thesis using empty step by (simp only: raw_cells_small if_True)
  next
    case skip
    let ?w = "w\<lparr>rw_pos := rw_pos w + length out\<rparr>"
    have "raw_loop s start buf f lim mx w = raw_loop s start buf f lim mx ?w" using skip unfolding step by simp
    also have "\<dots> = Inr (raw_result (raw_cells W mx (rw_pos ?w + length (cells_bytes (before f ds)))
        (below_limit lim (drop (length (before f ds)) ds))))"
    proof (rule Cons.IH [OF st(2) sorted(1)])
      show "drop (rw_pos ?w) buf = take (W - rw_pos ?w) (cells_bytes ds)" using drop_window [OF win] by simp
      have "drop (start + rw_pos ?w) (sg_log s) = drop (length out) (drop (start + rw_pos w) (sg_log s))"
        by (simp add: add.commute add.left_commute)
      then show "drop (start + rw_pos ?w) (sg_log s) = cells_bytes ds" using rest by simp
    qed (use Cons.prems(5) in simp)
    finally show ?thesis using skip c by (simp add: add.assoc)
  next
    case stop
    then show ?thesis using empty c unfolding step by (simp add: raw_cells_def)
  next
    case take
    have "list_all (\<lambda>(b', _). f \<le> batch_last b') ds" using sorted(2) take(2) by (auto simp: list_all_iff)
    then have "raw_loop s start buf f lim mx w = Inr (raw_result (raw_cells W mx (rw_pos w) (below_limit lim (c # ds))))"
      unfolding c using take by (intro raw_loop_first [OF st win rest Cons.prems(5)]) simp_all
    then show ?thesis using take(2) c by simp
  qed
qed

section \<open>Raw reads of a segment\<close>

definition visible_cells :: "int \<Rightarrow> int \<Rightarrow> cells \<Rightarrow> cells" where
  "visible_cells f lim cs = below_limit lim (drop (length (before f cs)) cs)"

lemma before_drop:
  assumes "filter (\<lambda>b. f \<le> batch_last b) (map fst cs) = filter (\<lambda>b. f \<le> batch_last b) (map fst (drop k cs))"
  shows "before f cs = take k cs @ before f (drop k cs)"
proof -
  have "filter (\<lambda>b. f \<le> batch_last b) (map fst (take k cs @ drop k cs)) =
      filter (\<lambda>b. f \<le> batch_last b) (map fst (take k cs)) @ filter (\<lambda>b. f \<le> batch_last b) (map fst (drop k cs))"
    by (simp only: map_append filter_append)
  then have "filter (\<lambda>b. f \<le> batch_last b) (map fst (take k cs)) = []" using assms by simp
  then have "\<forall>c \<in> set (take k cs). case c of (b, _) \<Rightarrow> batch_last b < f"
    by (auto simp: filter_empty_conv not_le)
  then have "takeWhile (\<lambda>(b, _). batch_last b < f) (take k cs @ drop k cs) = take k cs @ before f (drop k cs)"
    by (intro takeWhile_append2) blast
  then show ?thesis by simp
qed

lemma offsets_ok_sorted:
  assumes "offsets_ok base cs"
  shows "sorted_wrt (\<lambda>x y. batch_last (fst x) < batch_last (fst y)) cs"
  using assms offsets_ok_mem [OF assms] unfolding offsets_ok_def
  by (elim conjE) (rule sorted_wrt_mono_rel [rotated], assumption, force)

text \<open>
  The read starts at the index entry at or below the fetch offset. \<open>skipped\<close> are the batches between
  that entry and the fetch offset; they use up part of the window.
\<close>

lemma seg_read_raw_exact:
  assumes "seg_holds lib s cs" and "0 \<le> f" and "f \<le> i64_MAX" and "f \<le> sg_last_offset s" and "f < lim"
    and "target_rel s f = Some rel"
  obtains k where "unat (oi_lookup (sg_offset_index s) rel) = start_of cs k" "before f cs = take k cs @ before f (drop k cs)"
    "seg_read_raw s f lim m = Inr (raw_result (raw_cells (max m HEADER_LEN) m (length (cells_bytes (before f (drop k cs)))) (visible_cells f lim cs)))"
proof -
  note h = seg_holdsD [OF assms(1)]
  obtain k where k: "unat (oi_lookup (sg_offset_index s) rel) = start_of cs k" "k \<le> length cs"
    and hits: "filter (\<lambda>b. f \<le> batch_last b) (map fst cs) = filter (\<lambda>b. f \<le> batch_last b) (map fst (drop k cs))"
    using lookup_start [OF assms(1,6,2,3)] by metis
  note split = before_drop [OF hits]
  have vis: "visible_cells f lim cs = below_limit lim (drop (length (before f (drop k cs))) (drop k cs))"
    using k(2) by (simp add: visible_cells_def split add.commute)
  have st: "all_stored lib (drop k cs)" using h(4) by (auto simp: list_all_iff dest: in_set_dropD)
  have sorted: "sorted_wrt (\<lambda>x y. batch_last (fst x) < batch_last (fst y)) (drop k cs)"
    using offsets_ok_sorted [OF h(5)] by (rule sorted_wrt_drop)
  let ?W = "max m HEADER_LEN"
  let ?buf = "read_log_range s (start_of cs k) ?W"
  have rest: "drop (start_of cs k) (sg_log s) = cells_bytes (drop k cs)" by (simp add: h(3) drop_start_of)
  have "?buf = take ?W (cells_bytes (drop k cs))"
    using rest by (simp add: read_log_range_def Let_def) (metis length_drop min.commute take_all take_take nle_le min_def)
  then have "raw_loop s (start_of cs k) ?buf f lim m (walk_start f) =
      Inr (raw_result (raw_cells ?W m (length (cells_bytes (before f (drop k cs)))) (visible_cells f lim cs)))"
    using raw_loop_start [OF st sorted, of "walk_start f" ?buf ?W "start_of cs k" s f lim m] rest vis by (simp add: walk_start_def)
  then show thesis using that [OF k(1) split] assms(4-6) k(1) by (simp add: seg_read_raw_def Let_def)
qed

lemma raw_run_prefix: "prefix (raw_run win mx got cs) cs"
  by (induction win mx got cs rule: raw_run.induct) auto

lemma raw_cells_prefix: "prefix (raw_cells W mx pos vis) vis"
  by (auto simp: raw_cells_def raw_run_prefix split: list.splits)

lemma raw_cells_nonempty: "vis \<noteq> [] \<Longrightarrow> pos + HEADER_LEN \<le> W \<Longrightarrow> raw_cells W mx pos vis \<noteq> []"
  by (cases vis) (auto simp: raw_cells_def)

lemma raw_run_all:
  "all_stored lib cs \<Longrightarrow> length (cells_bytes cs) \<le> win \<Longrightarrow> got + length (cells_bytes cs) \<le> mx \<Longrightarrow> raw_run win mx got cs = cs"
proof (induction win mx got cs rule: raw_run.induct)
  case (2 win mx got c cs)
  show ?case
  proof (cases "cs = []")
    case False
    then obtain b out ds where "cs = (b, out) # ds" by (metis list.exhaust surj_pair)
    then have "0 < length (cells_bytes cs)" using "2.prems"(1) stored_length [of lib b out] by fastforce
    then have "\<not> mx \<le> got + length (snd c)" "length (cells_bytes cs) \<le> win - length (snd c)"
      using "2.prems"(2,3) unfolding cells_bytes_simps length_append by linarith+
    then show ?thesis using 2 by simp
  qed (use 2 in simp)
qed simp

lemma raw_cells_all:
  assumes "all_stored lib vis" and "pos + length (cells_bytes vis) \<le> mx"
  shows "raw_cells (max mx HEADER_LEN) mx pos vis = vis"
proof (cases vis)
  case (Cons c cs)
  have "61 \<le> length (snd c)" using assms(1) Cons stored_length [of lib "fst c" "snd c"] by (simp add: split_def)
  then show ?thesis using raw_run_all [OF assms(1), of "max mx HEADER_LEN - pos" 0 mx] assms(2) Cons
    by (auto simp: raw_cells_def HEADER_LEN_def)
qed (simp add: raw_cells_def)

lemma seg_read_raw_run:
  assumes "seg_holds lib s cs" and "0 \<le> f" and "f \<le> sg_last_offset s" and "f < lim"
    and "seg_read_raw s f lim m = Inr r"
  shows "\<exists>xs. prefix xs (visible_cells f lim cs) \<and> r = raw_result xs
    \<and> (length (cells_bytes (before f cs)) + HEADER_LEN \<le> m \<and> visible_cells f lim cs \<noteq> [] \<longrightarrow> xs \<noteq> [])
    \<and> (length (cells_bytes (before f cs)) + length (cells_bytes (visible_cells f lim cs)) \<le> m \<longrightarrow> xs = visible_cells f lim cs)"
proof -
  note h = seg_holdsD [OF assms(1)]
  have "f \<le> i64_MAX"
    using assms(3) h(2,6) offsets_ok_mem [OF h(5)] last_in_set [of cs] by (cases "cs = []") (fastforce simp: end_of_def)+
  moreover obtain rel where rel: "target_rel s f = Some rel"
    using assms(3-5) by (auto simp: seg_read_raw_def split: option.splits if_splits)
  ultimately obtain k where before: "before f cs = take k cs @ before f (drop k cs)" and
    read: "seg_read_raw s f lim m = Inr (raw_result (raw_cells (max m HEADER_LEN) m (length (cells_bytes (before f (drop k cs)))) (visible_cells f lim cs)))"
    using seg_read_raw_exact [OF assms(1,2) _ assms(3,4)] by metis
  let ?xs = "raw_cells (max m HEADER_LEN) m (length (cells_bytes (before f (drop k cs)))) (visible_cells f lim cs)"
  have skipped: "length (cells_bytes (before f (drop k cs))) \<le> length (cells_bytes (before f cs))" 
    using arg_cong [OF before, of "\<lambda>x. length (cells_bytes x)"] by simp
  have "all_stored lib (visible_cells f lim cs)"
    using h(4) by (auto simp: visible_cells_def list_all_iff dest: set_takeWhileD in_set_dropD)
  then have "length (cells_bytes (before f cs)) + length (cells_bytes (visible_cells f lim cs)) \<le> m \<longrightarrow> ?xs = visible_cells f lim cs"
    using skipped by (intro impI raw_cells_all) simp_all
  moreover have "length (cells_bytes (before f cs)) + HEADER_LEN \<le> m \<and> visible_cells f lim cs \<noteq> [] \<longrightarrow> ?xs \<noteq> []"
    using skipped by (intro impI raw_cells_nonempty) simp_all
  moreover have "r = raw_result ?xs" using assms(5) read by simp
  ultimately show ?thesis using raw_cells_prefix by blast
qed

section \<open>Properties\<close>

text \<open>A batch like the sample at another offset, and segments that hold such batches.\<close>

definition batch_at :: "int \<Rightarrow> record_batch" where
  "batch_at off = sample_batch\<lparr>rb_base_offset := off\<rparr>"

definition bytes_at :: "int \<Rightarrow> bytes" where
  "bytes_at off = put_head 7 (batch_at off) 59 1 @ [18, 0, 34, 4, 2, 107, 4, 104, 105, 0]"

lemma length_bytes_at [simp]: "length (bytes_at off) = 71"
  by (simp add: bytes_at_def)

lemma batch_at_offsets: "rb_base_offset (batch_at off) = off" "i64_ok off \<Longrightarrow> batch_last (batch_at off) = off"
  by (simp_all add: batch_at_def batch_last_def sample_batch_def record_batch_default_def)

lemma encode_at: "batch_encode plain_lib (batch_at off) = Some (Inr (bytes_at off))"
  by (simp add: batch_encode_def batch_at_def bytes_at_def sample_batch_def record_batch_default_def attr_compression_def
      from_attribute_bits_def encode_sample_record then_put_def plain_lib_def len_i32_def Let_def put_head_def HEADER_TAIL_LEN_def)

lemma stored_at:
  assumes "i64_ok off"
  shows "stored plain_lib (batch_at off) (bytes_at off)"
proof (rule stored_encode)
  show "codec_laws (bl_codecs plain_lib)" by (simp add: plain_lib_def stored_lib_laws)
  show "batch_ok (batch_at off)" using assms encodes_sample_batch by (simp add: encodes_def batch_ok_def batch_at_def)
  show "batch_encode plain_lib (batch_at off) = Some (Inr (bytes_at off))" by (rule encode_at)
  have "record_encoded_len sample_record \<le> 1073741824"
    using parse_encode_record(2) [OF sample_record_ok encode_sample_record] by simp
  then show "sum_list (map record_encoded_len (rb_records (batch_at off))) \<le> bl_output_limit plain_lib (length (bytes_at off) - 61)"
    by (simp add: batch_at_def sample_batch_def plain_lib_def)
qed simp

definition cells_at :: "int list \<Rightarrow> cells" where
  "cells_at offs = map (\<lambda>off. (batch_at off, bytes_at off)) offs"

text \<open>The segment that appending them leaves: only the first batch has an index entry.\<close>

definition segment_at :: "int list \<Rightarrow> segment" where
  "segment_at offs = \<lparr>sg_base_offset = hd offs, sg_log = cells_bytes (cells_at offs),
     sg_offset_index = \<lparr>oi_file = offset_row (0, 0), oi_entries = [(0, 0)]\<rparr>,
     sg_time_index = \<lparr>ti_file = time_row (0, 0), ti_entries = [(0, 0)]\<rparr>,
     sg_sealed = False, sg_max_timestamp = 0, sg_last_offset = last offs\<rparr>"

lemma segment_at_holds:
  assumes "offs \<noteq> []" and "sorted_wrt (<) offs" and "list_all (\<lambda>off. 0 \<le> off \<and> off < i64_MAX) offs"
  shows "seg_holds plain_lib (segment_at offs) (cells_at offs)"
proof -
  have ok: "i64_ok off \<and> hd offs \<le> off" if "off \<in> set offs" for off
    using assms that by (cases offs) (auto simp: list_all_iff int_width)
  have st: "list_all (\<lambda>(b, out). stored plain_lib b out) (cells_at offs)"
    using ok stored_at by (auto simp: cells_at_def list_all_iff)
  moreover have "offsets_ok (hd offs) (cells_at offs)"
    using assms ok unfolding offsets_ok_def cells_at_def
    by (auto simp: sorted_wrt_map list_all_iff batch_at_offsets elim!: sorted_wrt_mono_rel [rotated])
  moreover have "end_of (hd offs) (cells_at offs) = last offs"
    using assms(1) ok [of "last offs"] by (simp add: end_of_def cells_at_def last_map batch_at_offsets)
  moreover have "index_ok (hd offs) (cells_at offs) [(0, 0)]"
    using assms(1) by (cases offs) (auto simp: index_ok_def points_def cells_at_def start_of_def batch_at_offsets)
  ultimately show ?thesis using assms(1,3)
    by (cases offs) (auto simp: seg_holds_def segment_at_def oi_synced_def)
qed



end
