(* ===== verification/Log_Contents.thy ===== *)
theory Log_Contents
  imports Partition_Log Log_Reads
begin

text \<open>
  The partition log as a sequence of batches. A log whose segments hold whole batches stands for the
  concatenation of what they hold; every operation of \<open>Partition_Log\<close> is related to an operation on
  that sequence, and the reads across segments are compared with it.
\<close>

section \<open>The sequence that a log holds\<close>

text \<open>Every segment begins right after the last offset of the one before it.\<close>

fun chained :: "segment list \<Rightarrow> bool" where
  "chained (s # t # ss) \<longleftrightarrow> sg_last_offset s + 1 = sg_base_offset t \<and> sg_base_offset s < sg_base_offset t \<and> chained (t # ss)"
| "chained _ = True"

definition log_holds :: "batch_lib \<Rightarrow> partition_log \<Rightarrow> cells list \<Rightarrow> cells \<Rightarrow> bool" where
  "log_holds lib l css cs \<longleftrightarrow> (\<exists>a. lg_active l = Some a \<and> \<not> sg_sealed a \<and> seg_holds lib a cs
     \<and> list_all2 (seg_holds lib) (lg_segments l) css \<and> chained (lg_segments l @ [a]))"

definition log_contents :: "batch_lib \<Rightarrow> partition_log \<Rightarrow> cells \<Rightarrow> bool" where
  "log_contents lib l xs \<longleftrightarrow> (\<exists>css cs. log_holds lib l css cs \<and> xs = concat css @ cs)"

lemma chained_Cons: "chained (s # ss) \<longleftrightarrow> (case ss of [] \<Rightarrow> True
    | t # _ \<Rightarrow> sg_last_offset s + 1 = sg_base_offset t \<and> sg_base_offset s < sg_base_offset t) \<and> chained ss"
  by (cases ss) auto

lemma chained_append: "chained (ss @ ts) \<longleftrightarrow> chained ss \<and> chained ts
    \<and> (ss \<noteq> [] \<and> ts \<noteq> [] \<longrightarrow> sg_last_offset (last ss) + 1 = sg_base_offset (hd ts) \<and> sg_base_offset (last ss) < sg_base_offset (hd ts))"
proof (induction ss)
  case (Cons s ss)
  then show ?case by (cases ss; cases ts) auto
qed simp

lemma chained_sorted:
  assumes "chained ss"
  shows "sorted_wrt (\<lambda>s t. sg_base_offset s < sg_base_offset t \<and> sg_last_offset s < sg_base_offset t) ss"
  using assms
proof (induction ss rule: chained.induct)
  case (1 s t ss)
  then show ?case by auto
qed auto

lemma chained_bases:
  assumes "chained (ss @ [a])"
  shows "sorted_wrt (\<lambda>s t. sg_base_offset s < sg_base_offset t) ss"
  using chained_sorted [OF assms] by (auto simp: sorted_wrt_append elim: sorted_wrt_mono_rel [rotated])

lemma log_holdsE:
  assumes "log_holds lib l css cs"
  obtains a where "lg_active l = Some a" "\<not> sg_sealed a" "seg_holds lib a cs"
    "list_all2 (seg_holds lib) (lg_segments l) css" "chained (lg_segments l @ [a])"
  using assms by (auto simp: log_holds_def)

text \<open>Steps that leave the segments alone.\<close>

definition same_data :: "partition_log \<Rightarrow> partition_log \<Rightarrow> bool" where
  "same_data l l' \<longleftrightarrow> lg_segments l' = lg_segments l \<and> lg_active l' = lg_active l"

lemma same_data_holds: "same_data l l' \<Longrightarrow> log_holds lib l' css cs = log_holds lib l css cs"
  by (simp add: same_data_def log_holds_def)

lemma same_data_refl [simp]: "same_data l l"
  by (simp add: same_data_def)

lemma same_data_trans: "same_data l l1 \<Longrightarrow> same_data l1 l2 \<Longrightarrow> same_data l l2"
  by (simp add: same_data_def)

text \<open>Steps that keep the recorded epochs, too: all the bookkeeping of producers and transactions.\<close>

definition same_core :: "partition_log \<Rightarrow> partition_log \<Rightarrow> bool" where
  "same_core l l' \<longleftrightarrow> same_data l l' \<and> lg_epoch_checkpoint l' = lg_epoch_checkpoint l"

lemma same_core_refl [simp]: "same_core l l"
  by (simp add: same_core_def)

lemma same_core_trans: "same_core l l1 \<Longrightarrow> same_core l1 l2 \<Longrightarrow> same_core l l2"
  by (auto simp: same_core_def intro: same_data_trans)

lemma core_data: "same_core l l' \<Longrightarrow> same_data l l'"
  by (simp add: same_core_def)

lemma track_batch_core: "same_core l (track_batch b l)"
  by (auto simp: same_core_def same_data_def track_batch_def advance_lso_def record_abort_def Let_def split: option.splits)

lemma update_data_core: "update_data_producer_entry p pe bs lod bo ts tr l = Some (r, l') \<Longrightarrow> same_core l l'"
  by (auto simp: update_data_producer_entry_def same_core_def same_data_def Let_def split: sum.splits option.splits)

lemma update_owned_core: "update_owned_producer_entry b l = Some (r, l') \<Longrightarrow> same_core l l'"
  by (auto simp: update_owned_producer_entry_def Let_def same_core_def same_data_def split: if_splits option.splits dest!: update_data_core)

lemma note_epoch_data: "note_epoch e base l = Some (r, l') \<Longrightarrow> same_data l l'"
  by (auto simp: note_epoch_def same_data_def split: if_splits)

section \<open>Rolling and appending\<close>

lemma holds_bounds:
  assumes "seg_holds lib s cs"
  shows "sg_base_offset s - 1 \<le> sg_last_offset s" "sg_last_offset s < i64_MAX" "i64_wrapping_add (sg_last_offset s) 1 = sg_last_offset s + 1"
proof -
  note h = seg_holdsD [OF assms]
  show lo: "sg_base_offset s - 1 \<le> sg_last_offset s" using end_of_base [OF h(5)] h(6) by simp
  show hi: "sg_last_offset s < i64_MAX"
    using h(2,6) offsets_ok_mem [OF h(5), of "last cs"] by (cases "cs = []") (auto simp: end_of_def)
  show "i64_wrapping_add (sg_last_offset s) 1 = sg_last_offset s + 1"
    using lo hi h(1) by (intro i64_wrapping_add_ok) (simp add: int_width)
qed

lemma log_end_holds: "lg_active l = Some a \<Longrightarrow> seg_holds lib a cs \<Longrightarrow> log_end_offset l = sg_last_offset a + 1"
  by (simp add: log_end_offset_def holds_bounds)

lemma seal_holds [simp]: "seg_holds lib (seg_seal s) cs = seg_holds lib s cs"
  by (simp add: seg_holds_def seg_seal_def)

lemma roll_holds:
  assumes "log_holds lib l css cs" and "roll_active_segment lib l = Some (Inr (), l')"
  shows "log_holds lib l' (css @ [cs]) []"
proof -
  obtain a where a: "lg_active l = Some a" "\<not> sg_sealed a" "seg_holds lib a cs"
    "list_all2 (seg_holds lib) (lg_segments l) css" "chained (lg_segments l @ [a])"
    using assms(1) by (rule log_holdsE)
  obtain old files where "lg_active l = Some old" and
    st: "start_segment (log_end_offset l)
       (l\<lparr>lg_snapshots := files, lg_active := None, lg_segments := lg_segments l @ [seg_seal old]\<rparr>) = Some (Inr (), l')"
    using assms(2) by (rule roll_Inr)
  then have st: "start_segment (log_end_offset l)
       (l\<lparr>lg_snapshots := files, lg_active := None, lg_segments := lg_segments l @ [seg_seal a]\<rparr>) = Some (Inr (), l')"
    using a(1) by simp
  have base: "log_end_offset l = sg_last_offset a + 1" using a by (simp add: log_end_holds)
  have new: "sg_base_offset a \<noteq> log_end_offset l"
    using st by (auto simp: start_segment_def has_segment_def seg_seal_def split: if_splits)
  have "seg_holds lib (seg_create (log_end_offset l)) []"
    using holds_bounds [OF a(3)] seg_holdsD(1) [OF a(3)] base by (intro seg_holds_create) simp_all
  moreover have "chained ((lg_segments l @ [seg_seal a]) @ [seg_create (log_end_offset l)])"
    using a(5) base new holds_bounds(1) [OF a(3)] by (auto simp: chained_append seg_seal_def seg_create_def)
  ultimately show ?thesis using start_segment_Inr [OF st] a
    by (auto simp: log_holds_def seg_create_def list_all2_appendI)
qed

lemma maybe_roll_holds:
  assumes "log_holds lib l css cs" and "maybe_roll lib l = Some (Inr (), l')"
  obtains css' cs' where "log_holds lib l' css' cs'" "concat css' @ cs' = concat css @ cs"
  using assms that [of css cs] roll_holds [OF assms(1)] that [of "css @ [cs]" "[]"]
  by (auto simp: maybe_roll_def split: option.splits if_splits)

text \<open>A batch written to the active segment goes to the end of the sequence.\<close>

lemma write_active_holds:
  assumes "log_holds lib l css cs" and "lg_active l = Some s" and "stored lib b out" and "log_end_offset l \<le> rb_base_offset b"
    and "rb_base_offset b \<le> batch_last b" and "batch_last b < i64_MAX"
    and "write_batch s out (rb_base_offset b) (batch_last b) ts iv = (Inr pos, s')"
  shows "log_holds lib (l\<lparr>lg_active := Some s'\<rparr>) css (cs @ [(b, out)])"
proof -
  have s: "\<not> sg_sealed s" "seg_holds lib s cs" "list_all2 (seg_holds lib) (lg_segments l) css" "chained (lg_segments l @ [s])"
    using assms(1,2) by (auto simp: log_holds_def)
  have "sg_last_offset s < rb_base_offset b" using assms(2,4) s(2) by (simp add: log_end_holds)
  note w = write_batch_holds [OF s(2) assms(3) this assms(5-7)]
  have "chained (lg_segments l @ [s'])" using s(4) w(2) by (auto simp: chained_append)
  then show ?thesis using s w by (simp add: log_holds_def)
qed

lemma append_preserving_contents:
  assumes "log_contents lib l xs" and "append_preserving_offset lib b l = Some (Inr (), l')"
    and "log_end_offset l \<le> rb_base_offset b" and "0 \<le> rb_last_offset_delta b" and "rb_base_offset b + rb_last_offset_delta b < i64_MAX"
    and "\<And>out. batch_encode lib b = Some (Inr out) \<Longrightarrow> stored lib b out"
  shows "\<exists>out. batch_encode lib b = Some (Inr out) \<and> log_contents lib l' (xs @ [(b, out)])"
proof -
  obtain css cs where holds: "log_holds lib l css cs" and xs: "xs = concat css @ cs" using assms(1) by (auto simp: log_contents_def)
  obtain l1 l2 where l1: "maybe_roll lib l = Some (Inr (), l1)"
    and l2: "with_active (\<lambda>s. seg_append lib s b (lc_index_interval (lg_config l1))) l1 = Some (Inr (), l2)"
    and l': "update_owned_producer_entry b (track_batch b l2) = Some (Inr (), l')"
    using assms(2) unfolding append_preserving_offset_def
    by (elim abind_InrE) (auto simp: map_sum_def split: sum.splits)
  obtain css1 cs1 where holds1: "log_holds lib l1 css1 cs1" and xs1: "concat css1 @ cs1 = xs"
    using maybe_roll_holds [OF holds l1] xs by metis
  obtain s s' pos where s: "lg_active l1 = Some s" "seg_append lib s b (lc_index_interval (lg_config l1)) = Some (Inr pos, s')"
    and l2': "l2 = l1\<lparr>lg_active := Some s'\<rparr>"
    using l2 by (rule with_active_Inr)
  obtain out where out: "batch_encode lib b = Some (Inr out)"
    and w: "write_batch s out (rb_base_offset b) (batch_last b) (rb_max_timestamp b) (lc_index_interval (lg_config l1)) = (Inr pos, s')"
    using s(2) by (auto simp: seg_append_def split: if_splits option.splits sum.splits)
  have end1: "log_end_offset l1 \<le> rb_base_offset b" using assms(3) maybe_roll_same [OF l1] by (simp add: same_txn_def)
  have "i64_MIN \<le> rb_base_offset b" using assms(3) log_end_ok [of l] by (simp add: i64_ok_def)
  then have last: "batch_last b = rb_base_offset b + rb_last_offset_delta b"
    using assms(4,5) by (simp add: batch_last_def i64_ok_def)
  have "log_holds lib l2 css1 (cs1 @ [(b, out)])"
    using write_active_holds [OF holds1 s(1) assms(6) [OF out] end1 _ _ w] assms(4,5) last l2' by simp
  moreover have "same_data l2 l'" using same_core_trans [OF track_batch_core update_owned_core [OF l']] by (rule core_data)
  ultimately have "log_contents lib l' (concat css1 @ cs1 @ [(b, out)])"
    using same_data_holds unfolding log_contents_def by blast
  then show ?thesis using out xs1 by (metis append.assoc)
qed

lemma log_append_contents:
  assumes "log_contents lib l xs" and "log_append lib b l = Some (Inr base, l')" and "b' = b\<lparr>rb_base_offset := base\<rparr>"
    and "0 \<le> rb_last_offset_delta b" and "base + rb_last_offset_delta b < i64_MAX"
    and "\<And>out. batch_encode lib b' = Some (Inr out) \<Longrightarrow> stored lib b' out"
  shows "base = log_end_offset l \<and> (\<exists>out. batch_encode lib b' = Some (Inr out) \<and> log_contents lib l' (xs @ [(b', out)]))"
proof -
  obtain l1 where base: "base = log_end_offset l"
    and l1: "append_preserving_offset lib (b\<lparr>rb_base_offset := base\<rparr>) l = Some (Inr (), l1)"
    and l': "note_epoch (rb_partition_leader_epoch b) base l1 = Some (Inr (), l')"
    using assms(2) unfolding log_append_def Let_def by (elim abind_InrE) auto
  have "\<exists>out. batch_encode lib b' = Some (Inr out) \<and> log_contents lib l1 (xs @ [(b', out)])"
    using base l1 assms(3-5) by (intro append_preserving_contents [OF assms(1)] assms(6)) auto
  then show ?thesis using base same_data_holds [OF note_epoch_data [OF l']] by (simp add: log_contents_def)
qed

lemma append_at_contents:
  assumes "log_contents lib l xs" and "append_at lib b base l = Some (Inr (), l')" and "b' = b\<lparr>rb_base_offset := base\<rparr>"
    and "0 \<le> rb_last_offset_delta b" and "base + rb_last_offset_delta b < i64_MAX"
    and "\<And>out. batch_encode lib b' = Some (Inr out) \<Longrightarrow> stored lib b' out"
  shows "\<exists>out. batch_encode lib b' = Some (Inr out) \<and> log_contents lib l' (xs @ [(b', out)])"
proof -
  obtain l1 where base: "base = append_at_expected_offset l"
    and l1: "append_preserving_offset lib (b\<lparr>rb_base_offset := base\<rparr>) l = Some (Inr (), l1)"
    and l': "note_epoch (rb_partition_leader_epoch b) base l1 = Some (Inr (), l')"
    using assms(2) unfolding append_at_def Let_def by (auto split: if_splits elim!: abind_InrE)
  have "\<exists>out. batch_encode lib b' = Some (Inr out) \<and> log_contents lib l1 (xs @ [(b', out)])"
    using base l1 assms(3-5) by (intro append_preserving_contents [OF assms(1)] assms(6)) (auto simp: append_at_expected_offset_def)
  then show ?thesis using same_data_holds [OF note_epoch_data [OF l']] by (simp add: log_contents_def)
qed

text \<open>The verbatim path: the bytes of a batch that decodes are stored under the assigned offset.\<close>

lemma append_verbatim_contents:
  assumes "log_contents lib l xs" and "append_verbatim_preserving_offset lib v base l = Some (Inr (), l')"
    and "batch_decode lib (vbt_bytes v) = Inr (b, [])" and "vbt_last_offset_delta v = rb_last_offset_delta b" and "i32_ok (vbt_leader_epoch v)"
    and "log_end_offset l \<le> base" and "0 \<le> rb_last_offset_delta b" and "base + rb_last_offset_delta b < i64_MAX"
  shows "\<exists>out. log_contents lib l' (xs @ [(b\<lparr>rb_base_offset := base, rb_partition_leader_epoch := vbt_leader_epoch v\<rparr>, out)])"
proof -
  let ?b = "b\<lparr>rb_base_offset := base, rb_partition_leader_epoch := vbt_leader_epoch v\<rparr>"
  obtain css cs where holds: "log_holds lib l css cs" and xs: "xs = concat css @ cs" using assms(1) by (auto simp: log_contents_def)
  obtain l1 l2 l3 where l1: "maybe_roll lib l = Some (Inr (), l1)"
    and l2: "with_active (\<lambda>s. seg_append_verbatim s (vbt_bytes v) base (vbt_last_offset_delta v) (vbt_max_timestamp v)
                 (vbt_leader_epoch v) (lc_index_interval (lg_config l1))) l1 = Some (Inr (), l2)"
    and l3: "same_data l2 l3" and l': "same_data l3 l'"
    using assms(2) unfolding append_verbatim_preserving_offset_def Let_def
    by (elim abind_InrE) (force simp: map_sum_def same_data_def advance_lso_def split: sum.splits if_splits dest: update_data_core [THEN core_data])
  obtain css1 cs1 where holds1: "log_holds lib l1 css1 cs1" and xs1: "concat css1 @ cs1 = xs"
    using maybe_roll_holds [OF holds l1] xs by metis
  obtain s s' pos where s: "lg_active l1 = Some s" "seg_append_verbatim s (vbt_bytes v) base (vbt_last_offset_delta v) (vbt_max_timestamp v)
                 (vbt_leader_epoch v) (lc_index_interval (lg_config l1)) = Some (Inr pos, s')"
    and l2': "l2 = l1\<lparr>lg_active := Some s'\<rparr>"
    using l2 by (rule with_active_Inr)
  have end1: "log_end_offset l1 \<le> base" using assms(6) maybe_roll_same [OF l1] by (simp add: same_txn_def)
  have lo: "i64_MIN \<le> base" using assms(6) log_end_ok [of l] by (simp add: i64_ok_def)
  then have last: "batch_last ?b = base + rb_last_offset_delta b"
    using assms(7,8) by (simp add: batch_last_def i64_ok_def)
  obtain header where header: "patch_base_offset_and_leader_epoch (take HEADER_LEN (vbt_bytes v)) base (vbt_leader_epoch v) = Some header"
    and st: "stored lib ?b (header @ drop HEADER_LEN (vbt_bytes v))"
    using stored_verbatim [OF assms(3) _ assms(5), of base] lo assms(7,8) by (auto simp: i64_ok_def)
  have w: "write_batch s (header @ drop HEADER_LEN (vbt_bytes v)) (rb_base_offset ?b) (batch_last ?b) (vbt_max_timestamp v)
      (lc_index_interval (lg_config l1)) = (Inr pos, s')"
    using s(2) header assms(4) by (auto simp: seg_append_verbatim_def batch_last_def split: if_splits)
  have "log_holds lib l2 css1 (cs1 @ [(?b, header @ drop HEADER_LEN (vbt_bytes v))])"
    using write_active_holds [OF holds1 s(1) st _ _ _ w] end1 last assms(7,8) l2' by simp
  then have "log_holds lib l' css1 (cs1 @ [(?b, header @ drop HEADER_LEN (vbt_bytes v))])"
    using same_data_holds [OF same_data_trans [OF l3 l']] by blast
  then show ?thesis using xs1 unfolding log_contents_def by (metis append.assoc)
qed

section \<open>Removing old segments\<close>

lemma filter_bases:
  assumes "sorted_wrt (\<lambda>s t. sg_base_offset s < sg_base_offset t) ss" and "ss = ts @ us"
  shows "filter (\<lambda>s. sg_base_offset s \<notin> set (map sg_base_offset ts)) ss = us"
proof -
  have "filter (\<lambda>s. sg_base_offset s \<notin> set (map sg_base_offset ts)) ts = []" by (auto simp: filter_empty_conv)
  moreover have "filter (\<lambda>s. sg_base_offset s \<notin> set (map sg_base_offset ts)) us = us"
    using assms by (fastforce simp: sorted_wrt_append filter_id_conv)
  ultimately show ?thesis using assms(2) by simp
qed

lemma remove_segments_holds:
  assumes "log_holds lib l css cs" and "lg_segments l = ts @ us"
  obtains css1 css2 where "css = css1 @ css2" "list_all2 (seg_holds lib) ts css1"
    "log_holds lib (remove_segments (map sg_base_offset ts) l) css2 cs" "lg_segments (remove_segments (map sg_base_offset ts) l) = us"
proof -
  obtain a where a: "lg_active l = Some a" "\<not> sg_sealed a" "seg_holds lib a cs"
    "list_all2 (seg_holds lib) (lg_segments l) css" "chained (lg_segments l @ [a])"
    using assms(1) by (rule log_holdsE)
  obtain css1 css2 where css: "css = css1 @ css2" "list_all2 (seg_holds lib) ts css1" "list_all2 (seg_holds lib) us css2"
    using a(4) unfolding assms(2) by (auto simp: list_all2_append1)
  have sorted: "sorted_wrt (\<lambda>s t. sg_base_offset s < sg_base_offset t) (lg_segments l)" using a(5) by (rule chained_bases)
  have us: "lg_segments (remove_segments (map sg_base_offset ts) l) = us"
    using filter_bases [OF sorted assms(2)] by (simp add: remove_segments_def drop_files_def)
  have "chained (us @ [a])" using a(5) assms(2) by (simp add: chained_append)
  moreover have "lg_active (remove_segments (map sg_base_offset ts) l) = Some a" using a(1) by (simp add: remove_segments_def drop_files_def)
  ultimately have "log_holds lib (remove_segments (map sg_base_offset ts) l) css2 cs"
    using a css us by (simp add: log_holds_def)
  then show thesis using that css us by blast
qed

text \<open>The batches of a segment end before the segment that follows it.\<close>

lemma holds_below:
  assumes "list_all2 (seg_holds lib) ss css" and "c \<in> set (concat css)" and "\<And>s. s \<in> set ss \<Longrightarrow> sg_last_offset s < t"
  shows "batch_last (fst c) < t"
proof -
  obtain cs where "cs \<in> set css" "c \<in> set cs" using assms(2) by auto
  then obtain s where s: "s \<in> set ss" "seg_holds lib s cs" using assms(1) by (metis in_set_conv_nth list_all2_conv_all_nth)
  have "batch_last (fst c) \<le> sg_last_offset s"
    using end_of_ge [OF seg_holdsD(5) [OF s(2)] \<open>c \<in> set cs\<close>] seg_holdsD(6) [OF s(2)] by simp
  then show ?thesis using assms(3) [OF s(1)] by simp
qed

lemma zip_next_bases:
  assumes "lg_active l = Some a" and "chained (lg_segments l @ [a])"
  shows "zip (lg_segments l) (next_bases l) = map (\<lambda>s. (s, sg_last_offset s + 1)) (lg_segments l)"
proof -
  have "map sg_base_offset (drop 1 ss) @ [sg_base_offset a] = map (\<lambda>s. sg_last_offset s + 1) ss \<or> ss = []"
    if "chained (ss @ [a])" for ss
    using that
  proof (induction ss)
    case (Cons s ss)
    then show ?case by (cases ss) auto
  qed simp
  from this [OF assms(2)] show ?thesis using assms(1) by (auto simp: next_bases_def zip_map2 zip_same_conv_map)
qed

definition first_base :: "partition_log \<Rightarrow> int" where
  "first_base l = (case lg_segments l of s # _ \<Rightarrow> sg_base_offset s | [] \<Rightarrow> (case lg_active l of Some a \<Rightarrow> sg_base_offset a | None \<Rightarrow> 0))"

lemma log_start_first: "log_start_offset l = (case lg_start_offset_override l of Some n \<Rightarrow> max (first_base l) n | None \<Rightarrow> first_base l)"
  by (cases "lg_start_offset_override l") (simp_all add: log_start_offset_def first_base_def)

text \<open>What trimming removes and the start offset that it leaves, when the target is above the current start.\<close>

lemma trim_cut:
  assumes "log_holds lib l css cs" and "trim_to_offset target l = Some (Inr r, l')"
    and "t = min target (log_end_offset l)" and "log_start_offset l < t"
  obtains ts us l1 where "lg_segments l = ts @ us" "l1 = remove_segments (map sg_base_offset ts) l" "ts = takeWhile (\<lambda>s. sg_last_offset s < t) (lg_segments l)"
    "l' = (if first_base l1 < t then l1\<lparr>lg_start_offset_override := Some t\<rparr> else l1)" "r = log_start_offset l'" "lg_segments l1 = us"
proof -
  obtain a where a: "lg_active l = Some a" "chained (lg_segments l @ [a])" using assms(1) by (rule log_holdsE)
  define ts where "ts = takeWhile (\<lambda>s. sg_last_offset s < t) (lg_segments l)"
  define us where "us = dropWhile (\<lambda>s. sg_last_offset s < t) (lg_segments l)"
  have split: "lg_segments l = ts @ us" by (simp add: ts_def us_def)
  have drops: "map (\<lambda>(s, _). sg_base_offset s) (takeWhile (\<lambda>(_, nb). nb \<le> t) (zip (lg_segments l) (next_bases l))) = map sg_base_offset ts"
    unfolding zip_next_bases [OF a] ts_def by (simp add: takeWhile_map comp_def zle_add1_eq_le [symmetric] del: zle_add1_eq_le)
  define l1 where "l1 = remove_segments (map sg_base_offset ts) l"
  have us: "lg_segments l1 = us" using remove_segments_holds [OF assms(1) split] unfolding l1_def by metis
  have act: "lg_active l1 = Some a" using a(1) by (simp add: l1_def remove_segments_def drop_files_def)
  have first: "first_base l1 = (case lg_segments l1 of s # _ \<Rightarrow> sg_base_offset s | [] \<Rightarrow> sg_base_offset a)"
    using act by (simp add: first_base_def split: list.splits)
  have "0 \<le> target" using assms(2) by (auto simp: trim_to_offset_def split: if_splits)
  then have fin: "finish_trim t (first_base l1) l1 = Some (Inr r, l')"
    using assms(2-4) drops a(1) first by (simp add: trim_to_offset_def Let_def l1_def)
  have "0 \<le> t" if "first_base l1 < t"
    using that fin by (auto simp: finish_trim_def abind_def set_log_start_offset_def split: if_splits)
  then have "l' = (if first_base l1 < t then l1\<lparr>lg_start_offset_override := Some t\<rparr> else l1) \<and> r = log_start_offset l'"
    using fin by (auto simp: finish_trim_def abind_def set_log_start_offset_def aresult_def split: if_splits)
  then show thesis using that split l1_def ts_def us by blast
qed

lemma trim_start:
  assumes "log_holds lib l css cs" and "trim_to_offset target l = Some (Inr r, l')"
  shows "r = max (log_start_offset l) (min target (log_end_offset l)) \<and> r = log_start_offset l'"
proof (cases "min target (log_end_offset l) \<le> log_start_offset l")
  case True
  then show ?thesis using assms(2) by (auto simp: trim_to_offset_def Let_def split: if_splits)
next
  case False
  define t where "t = min target (log_end_offset l)"
  have above: "log_start_offset l < t" using False unfolding t_def by linarith
  obtain ts us l1 where cut: "lg_segments l = ts @ us" "l1 = remove_segments (map sg_base_offset ts) l"
    "ts = takeWhile (\<lambda>s. sg_last_offset s < t) (lg_segments l)"
    "l' = (if first_base l1 < t then l1\<lparr>lg_start_offset_override := Some t\<rparr> else l1)" "r = log_start_offset l'" "lg_segments l1 = us"
    using trim_cut [OF assms t_def above] by metis
  obtain a where a: "lg_active l = Some a" "chained (lg_segments l @ [a])" using assms(1) by (rule log_holdsE)
  have kept: "lg_active l1 = Some a" "lg_start_offset_override l1 = lg_start_offset_override l"
    using a(1) cut(2) by (simp_all add: remove_segments_def drop_files_def)
  have "log_start_offset l' = t"
  proof (cases "first_base l1 < t")
    case True
    then show ?thesis using cut(4) kept by (simp add: log_start_first first_base_def split: list.splits)
  next
    case False
    have "ts \<noteq> []" using False above cut(1,6) kept a(1) by (auto simp: log_start_first first_base_def split: option.splits list.splits)
    then have "last ts \<in> set (takeWhile (\<lambda>s. sg_last_offset s < t) (lg_segments l))" using cut(3) last_in_set by metis
    then have "sg_last_offset (last ts) < t" by (rule set_takeWhileD [THEN conjunct2])
    moreover have "first_base l1 = sg_base_offset (hd (us @ [a]))" using cut(6) kept(1) by (cases us) (simp_all add: first_base_def)
    moreover have "chained (ts @ us @ [a])" using a(2) cut(1) by simp
    then have "sg_last_offset (last ts) + 1 = sg_base_offset (hd (us @ [a]))" using \<open>ts \<noteq> []\<close> by (simp add: chained_append [of ts])
    ultimately have "first_base l1 \<le> t" by simp
    then have "first_base l1 = t" using False by simp
    then show ?thesis using above cut(4) kept by (auto simp: log_start_first split: option.splits)
  qed
  then show ?thesis using cut(5) above t_def by simp
qed

lemma trim_contents:
  assumes "log_contents lib l xs" and "trim_to_offset target l = Some (Inr r, l')"
  shows "\<exists>dropped ys. xs = dropped @ ys \<and> log_contents lib l' ys \<and> list_all (\<lambda>c. batch_last (fst c) < target) dropped"
proof -
  obtain css cs where holds: "log_holds lib l css cs" and xs: "xs = concat css @ cs" using assms(1) by (auto simp: log_contents_def)
  define t where "t = min target (log_end_offset l)"
  show ?thesis
  proof (cases "log_start_offset l < t")
    case False
    then have "l' = l" using assms(2) by (auto simp: trim_to_offset_def Let_def t_def split: if_splits)
    then show ?thesis using assms(1) by (intro exI [of _ "[]"] exI [of _ xs]) simp
  next
    case True
    obtain ts us l1 where cut: "lg_segments l = ts @ us" "l1 = remove_segments (map sg_base_offset ts) l"
      "ts = takeWhile (\<lambda>s. sg_last_offset s < t) (lg_segments l)"
      "l' = (if first_base l1 < t then l1\<lparr>lg_start_offset_override := Some t\<rparr> else l1)"
      using trim_cut [OF holds assms(2) t_def True] by metis
    obtain css1 css2 where css: "css = css1 @ css2" "list_all2 (seg_holds lib) ts css1" "log_holds lib l1 css2 cs"
      using remove_segments_holds [OF holds cut(1)] unfolding cut(2) by metis
    have "sg_last_offset s < t" if "s \<in> set ts" for s using that set_takeWhileD unfolding cut(3) by fastforce
    then have "list_all (\<lambda>c. batch_last (fst c) < target) (concat css1)"
      using holds_below [OF css(2), of _ t] by (fastforce simp: list_all_iff t_def)
    moreover have "same_data l1 l'" using cut(4) by (simp add: same_data_def)
    then have "log_contents lib l' (concat css2 @ cs)" using css(3) same_data_holds unfolding log_contents_def by blast
    ultimately show ?thesis using xs css(1) by (intro exI [of _ "concat css1"] exI [of _ "concat css2 @ cs"]) simp
  qed
qed

lemma chained_lasts: "chained (ss @ [a]) \<Longrightarrow> sorted_wrt (\<lambda>s t. sg_last_offset s < sg_last_offset t) ss"
proof (induction ss)
  case (Cons s ss)
  have rest: "chained (ss @ [a])" using Cons.prems by (cases ss) auto
  have above: "sg_base_offset x \<le> sg_last_offset x" if "x \<in> set (s # ss)" for x
    using Cons.prems that
  proof (induction "s # ss" arbitrary: s ss)
    case (Cons s ss)
    then show ?case by (cases ss) auto
  qed
  have "sg_last_offset s < sg_base_offset x" if "x \<in> set ss" for x
    using chained_sorted [OF Cons.prems] that by simp
  then have "sg_last_offset s < sg_last_offset x" if "x \<in> set ss" for x using above that by fastforce
  then show ?case using Cons.IH [OF rest] by simp
qed simp

lemma filter_sorted_takeWhile:
  "sorted_wrt (\<lambda>s t. f s < f t) ss \<Longrightarrow> filter (\<lambda>s. f s < (t::int)) ss = takeWhile (\<lambda>s. f s < t) ss"
proof (induction ss)
  case (Cons s ss)
  show ?case
  proof (cases "f s < t")
    case False
    then have "filter (\<lambda>s. f s < t) ss = []" using Cons.prems by (fastforce simp: filter_empty_conv)
    then show ?thesis using False by simp
  qed (use Cons in simp)
qed simp

lemma delete_local_contents:
  assumes "log_contents lib l xs" and "delete_local_segments_through target l = Some (Inr n, l')"
  shows "\<exists>dropped ys. xs = dropped @ ys \<and> log_contents lib l' ys \<and> list_all (\<lambda>c. batch_last (fst c) < target) dropped"
proof (cases "target \<le> log_start_offset l")
  case True
  then have "l' = l" using assms(2) by (auto simp: delete_local_segments_through_def split: if_splits)
  then show ?thesis using assms(1) by (intro exI [of _ "[]"] exI [of _ xs]) simp
next
  case False
  obtain css cs where holds: "log_holds lib l css cs" and xs: "xs = concat css @ cs" using assms(1) by (auto simp: log_contents_def)
  obtain a where a: "lg_active l = Some a" "chained (lg_segments l @ [a])" using holds by (rule log_holdsE)
  define ts where "ts = takeWhile (\<lambda>s. sg_last_offset s < target) (lg_segments l)"
  have split: "lg_segments l = ts @ dropWhile (\<lambda>s. sg_last_offset s < target) (lg_segments l)" by (simp add: ts_def)
  have "map (\<lambda>(s, _). sg_base_offset s) (filter (\<lambda>(_, nb). nb - 1 < target) (zip (lg_segments l) (next_bases l))) = map sg_base_offset ts"
    unfolding zip_next_bases [OF a] ts_def filter_sorted_takeWhile [OF chained_lasts [OF a(2)], symmetric]
    by (simp add: filter_map comp_def)
  then have l': "l' = (remove_segments (map sg_base_offset ts) l)\<lparr>lg_start_offset_override := Some target\<rparr>"
    using assms(2) False by (simp add: delete_local_segments_through_def Let_def split: if_splits)
  obtain css1 css2 where css: "css = css1 @ css2" "list_all2 (seg_holds lib) ts css1"
    "log_holds lib (remove_segments (map sg_base_offset ts) l) css2 cs"
    using remove_segments_holds [OF holds split] by metis
  have "sg_last_offset s < target" if "s \<in> set ts" for s using that set_takeWhileD unfolding ts_def by fastforce
  then have "list_all (\<lambda>c. batch_last (fst c) < target) (concat css1)"
    using holds_below [OF css(2), of _ target] by (fastforce simp: list_all_iff)
  moreover have "same_data (remove_segments (map sg_base_offset ts) l) l'" using l' by (simp add: same_data_def)
  then have "log_contents lib l' (concat css2 @ cs)" using css(3) same_data_holds unfolding log_contents_def by blast
  ultimately show ?thesis using xs css(1) by (intro exI [of _ "concat css1"] exI [of _ "concat css2 @ cs"]) simp
qed

text \<open>Retention removes a prefix of the sealed segments.\<close>

lemma size_evict_prefix: "\<exists>j. size_evict_loop ss d = map sg_base_offset (take j ss)"
proof (induction ss d rule: size_evict_loop.induct)
  case (2 s ss d)
  then obtain j where "\<not> d \<le> 0 \<Longrightarrow> size_evict_loop ss (d - int (length (sg_log s))) = map sg_base_offset (take j ss)" by blast
  then show ?case by (intro exI [of _ "if d \<le> 0 then 0 else Suc j"]) simp
qed simp

lemma remove_segments_cong: "set bs = set bs' \<Longrightarrow> remove_segments bs l = remove_segments bs' l"
  by (simp add: remove_segments_def drop_files_def)

lemma time_evict_prefix: "\<exists>i. time_based_evict ss config now = map sg_base_offset (take i ss)"
proof (cases "lc_retention config")
  case None
  then show ?thesis by (intro exI [of _ 0]) (simp add: time_based_evict_def)
next
  case (Some r)
  then show ?thesis by (simp add: time_based_evict_def Let_def) (metis takeWhile_eq_take)
qed

lemma size_based_prefix: "\<exists>j. size_based_evict ss n config = map sg_base_offset (take j ss)"
proof (cases "lc_retention_size config")
  case None
  then show ?thesis by (intro exI [of _ 0]) (simp add: size_based_evict_def)
next
  case (Some budget)
  then show ?thesis using size_evict_prefix [of ss] by (auto simp: size_based_evict_def Let_def intro: exI [of _ 0])
qed

lemma evict_prefix:
  assumes "distinct (map sg_base_offset (lg_segments l))" and "lg_active l = Some a"
  shows "\<exists>n. evict_segments now l = remove_segments (map sg_base_offset (take n (lg_segments l))) l"
proof -
  let ?ss = "lg_segments l"
  obtain i where time: "time_based_evict ?ss (lg_config l) now = map sg_base_offset (take i ?ss)" using time_evict_prefix by blast
  obtain j where size: "size_based_evict ?ss (length (sg_log a)) (lg_config l) = map sg_base_offset (take j ?ss)" using size_based_prefix by blast
  define evict where "evict = map sg_base_offset (take i ?ss)
    @ remdups (filter (\<lambda>base. base \<notin> set (map sg_base_offset (take i ?ss))) (map sg_base_offset (take j ?ss)))"
  have "set evict = set (map sg_base_offset (take i ?ss)) \<union> set (map sg_base_offset (take j ?ss))" by (auto simp: evict_def)
  also have "\<dots> = set (map sg_base_offset (take (max i j) ?ss))"
    using set_take_subset_set_take [of i j ?ss] set_take_subset_set_take [of j i ?ss]
    by (cases "i \<le> j") (auto simp: max_def dest: subsetD)
  finally have whole: "set evict = set (map sg_base_offset (take (max i j) ?ss))" .
  have "distinct evict" using assms(1) by (auto simp: evict_def take_map [symmetric])
  then have "length evict = card (set evict)" by (simp add: distinct_card)
  also have "\<dots> \<le> card (set (map sg_base_offset ?ss))" unfolding whole by (intro card_mono) (auto dest: in_set_takeD)
  also have "\<dots> \<le> length ?ss" using card_length [of "map sg_base_offset ?ss"] by simp
  finally have "length evict \<le> length ?ss" .
  then have "evict_segments now l = remove_segments evict l"
    using time size assms(2) by (simp add: evict_segments_def Let_def evict_def)
  then show ?thesis using remove_segments_cong [OF whole] by metis
qed

lemma evict_contents:
  assumes "log_contents lib l xs"
  shows "\<exists>dropped ys. xs = dropped @ ys \<and> log_contents lib (evict_segments now l) ys"
proof -
  obtain css cs where holds: "log_holds lib l css cs" and xs: "xs = concat css @ cs" using assms by (auto simp: log_contents_def)
  obtain a where a: "lg_active l = Some a" "chained (lg_segments l @ [a])" using holds by (rule log_holdsE)
  have "sorted_wrt (<) (map sg_base_offset (lg_segments l))" using chained_bases [OF a(2)] by (simp add: sorted_wrt_map)
  then have "distinct (map sg_base_offset (lg_segments l))" by (simp only: strict_sorted_iff)
  then obtain n where n: "evict_segments now l = remove_segments (map sg_base_offset (take n (lg_segments l))) l"
    using evict_prefix [OF _ a(1)] by blast
  obtain css1 css2 where "css = css1 @ css2" "log_holds lib (evict_segments now l) css2 cs"
    using remove_segments_holds [OF holds append_take_drop_id [symmetric, of _ n]] n by metis
  then show ?thesis using xs unfolding log_contents_def by (metis append.assoc concat_append)
qed

lemma log_tick_contents:
  assumes "log_contents lib l xs" and "log_tick lib now l = Some (Inr (), l')"
  shows "\<exists>dropped ys. xs = dropped @ ys \<and> log_contents lib l' ys"
proof -
  obtain should_roll where "abind (if should_roll then roll_active_segment lib else aresult (Inr ())) (\<lambda>_. aupdate (\<lambda>l.
            if lc_remote_storage_enable (lg_config l) then l else evict_segments now l)) l = Some (Inr (), l')"
    using assms(2) by (auto simp: log_tick_def split: option.splits)
  then obtain l1 where l1: "(if should_roll then roll_active_segment lib else aresult (Inr ())) l = Some (Inr (), l1)"
    and l': "l' = (if lc_remote_storage_enable (lg_config l1) then l1 else evict_segments now l1)"
    by (rule abind_InrE) auto
  have "log_contents lib l1 xs"
  proof (cases should_roll)
    case True
    then show ?thesis using l1 assms(1) roll_holds unfolding log_contents_def by fastforce
  qed (use l1 assms(1) in simp)
  then show ?thesis using l' evict_contents [of lib l1 xs now] by (auto intro: exI [of _ "[]"])
qed

section \<open>Truncation\<close>

lemma abind_core:
  assumes "abind m f l = Some (r, l')" and "\<And>l r l'. m l = Some (r, l') \<Longrightarrow> same_core l l'"
    and "\<And>a l r l'. f a l = Some (r, l') \<Longrightarrow> same_core l l'"
  shows "same_core l l'"
  using assms(1) assms(2) [of l] assms(3) by (fastforce simp: abind_def split: option.splits prod.splits sum.splits intro: same_core_trans)

lemma aresult_core: "aresult x l = Some (r, l') \<Longrightarrow> same_core l l'"
  by simp

lemma aupdate_core: "aupdate g l = Some (r, l') \<Longrightarrow> (\<And>l. same_core l (g l)) \<Longrightarrow> same_core l l'"
  by simp

lemma apply_recovered_core: "apply_recovered_batch_state b l = Some (r, l') \<Longrightarrow> same_core l l'"
  unfolding apply_recovered_batch_state_def Let_def
  by (cases "rb_producer_id b < 0", simp, simp only: if_False, erule abind_core)
     (auto simp: same_core_def same_data_def split: if_splits option.splits dest: update_owned_core)

lemma write_boundaries_core: "write_boundaries lib bds l = Some (r, l') \<Longrightarrow> same_core l l'"
  by (induction lib bds l rule: write_boundaries.induct) (force simp: same_core_def same_data_def split: option.splits)+

lemma replay_batches_core: "replay_batches lib bs adv bds l = Some (r, l') \<Longrightarrow> same_core l l'"
proof (induction lib bs adv bds l arbitrary: r l' rule: replay_batches.induct)
  case (2 lib b bs adv bds l)
  obtain x l1 where x: "apply_recovered_batch_state b l = Some (x, l1)" using "2.prems" by (auto simp: abind_def split: option.splits)
  note d1 = apply_recovered_core [OF x]
  show ?case
  proof (cases x)
    case (Inl e)
    then show ?thesis using "2.prems" x d1 by (simp add: abind_def)
  next
    case (Inr u)
    then show ?thesis using 2 x d1
      by (fastforce simp: abind_def aresult_def split: option.splits sum.splits prod.splits dest: write_boundaries_core intro: same_core_trans)
  qed
qed simp

lemma rebuild_loop_core: "rebuild_loop lib nxt end_off bds l = Some (r, l') \<Longrightarrow> same_core l l'"
proof (induction lib nxt end_off bds l arbitrary: r l' rule: rebuild_loop.induct)
  case (1 lib nxt end_off bds l)
  note prems = "1.prems" [unfolded rebuild_loop.simps [of lib nxt end_off bds l]]
  show ?case
  proof (cases "end_off \<le> nxt")
    case False
    show ?thesis
    proof (cases "log_read lib l nxt 1048576")
      case (Inr ro)
      show ?thesis using prems 1(1) [OF False Inr] False Inr
        by (fastforce split: if_splits option.splits prod.splits sum.splits dest: replay_batches_core intro: same_core_trans)
    qed (use prems False in simp)
  qed (use prems in simp)
qed

lemma rebuild_core: "rebuild_producer_and_transaction_state lib l = Some (r, l') \<Longrightarrow> same_core l l'"
proof -
  assume rebuild: "rebuild_producer_and_transaction_state lib l = Some (r, l')"
  obtain nxt l1 where restored: "restore_snapshot lib l = (nxt, l1)" by (cases "restore_snapshot lib l")
  have "same_core l l1" using restored by (auto simp: restore_snapshot_def same_core_def same_data_def Let_def split: prod.splits option.splits)
  moreover have "same_core l1 l'"
    using rebuild unfolding rebuild_producer_and_transaction_state_def restored Let_def prod.case
    by (elim abind_core) (auto simp: same_core_def same_data_def rebuild_pending_stamp_ranges_def split: if_splits prod.splits elim!: abind_core dest: rebuild_loop_core)
  ultimately show ?thesis by (rule same_core_trans)
qed

lemma drop_tail_kept:
  assumes "sorted_wrt (\<lambda>s t. sg_base_offset s < sg_base_offset t) ss"
  shows "rev (dropWhile (\<lambda>s. off \<le> sg_base_offset s) (rev ss)) = takeWhile (\<lambda>s. sg_base_offset s < off) ss"
  using assms
proof (induction ss rule: rev_induct)
  case (snoc s ss)
  show ?case
  proof (cases "off \<le> sg_base_offset s")
    case True
    then show ?thesis using snoc by (simp add: sorted_wrt_append takeWhile_append)
  next
    case False
    then have "\<forall>t \<in> set (ss @ [s]). sg_base_offset t < off" using snoc.prems by (auto simp: sorted_wrt_append)
    then have "takeWhile (\<lambda>s. sg_base_offset s < off) (ss @ [s]) = ss @ [s]" by (simp add: takeWhile_eq_all_conv)
    then show ?thesis using False by simp
  qed
qed simp

lemma drop_tail_data:
  assumes "lg_active l = Some a" and "chained (lg_segments l @ [a])"
  shows "lg_segments (drop_tail off l) = takeWhile (\<lambda>s. sg_base_offset s < off) (lg_segments l)"
    and "lg_active (drop_tail off l) = (if off \<le> sg_base_offset a then None else Some a)"
  using drop_tail_kept [OF chained_bases [OF assms(2)], of off] assms(1) by (auto simp: drop_tail_def drop_files_def Let_def)

text \<open>Cutting a segment that holds whole batches.\<close>

lemma truncate_Inr:
  assumes "seg_holds lib s cs" and "sg_base_offset s + uint rel \<le> i64_MAX" and "truncate_to_relative lib s rel = (Inr (), s')"
  shows "seg_holds lib s' (before (sg_base_offset s + uint rel) cs)" "sg_base_offset s' = sg_base_offset s" "\<not> sg_sealed s'"
proof -
  let ?kept = "before (sg_base_offset s + uint rel) cs"
  note h = seg_holdsD [OF assms(1)]
  have target: "i64_wrapping_add (sg_base_offset s) (uint rel) = sg_base_offset s + uint rel"
    using assms(2) h(1) by (intro i64_wrapping_add_ok) (simp add: i64_ok_def i64_MIN_def order_trans [OF _ add_nonneg_nonneg])
  have "u32_try_from (int (length (cells_bytes ?kept))) \<noteq> None"
    using assms(3) truncate_reads_kept [OF assms(1) refl, of rel]
    by (auto simp: truncate_to_relative_def Let_def target split: option.splits)
  then have "length (cells_bytes ?kept) < 2 ^ 32" by (auto simp: u32_try_from_def split: if_splits)
  from truncate_holds [OF assms(1,2) this] obtain t where "truncate_to_relative lib s rel = (Inr (), t)" "seg_holds lib t ?kept"
    "sg_base_offset t = sg_base_offset s" "\<not> sg_sealed t" by blast
  then show "seg_holds lib s' ?kept" "sg_base_offset s' = sg_base_offset s" "\<not> sg_sealed s'" using assms(3) by simp_all
qed

lemma cut_segment_holds:
  assumes "seg_holds lib s cs" and "list_all2 (seg_holds lib) (lg_segments l) css" and "chained (lg_segments l @ [s])"
    and "cut_segment lib s off l = Some (Inr (), l')" and "off \<le> i64_MAX" and "0 \<le> off"
  shows "log_holds lib l' css (before off cs) \<and> log_end_offset l' \<le> off"
proof -
  note h = seg_holdsD [OF assms(1)]
  obtain rel where rel: "u32_try_from (i64_wrapping_sub off (sg_base_offset s)) = Some rel"
    using assms(4) by (auto simp: cut_segment_def split: option.splits)
  have "i64_wrapping_sub off (sg_base_offset s) = off - sg_base_offset s"
    using assms(5,6) h(1,2) by (intro i64_wrapping_sub_ok) (simp add: int_width)
  then have off: "off = sg_base_offset s + uint rel" using u32_try_from_Some [OF rel] by simp
  obtain x s' where cut: "truncate_to_relative lib s rel = (x, s')" by (cases "truncate_to_relative lib s rel")
  have x: "x = Inr ()" and l': "lg_active l' = Some s'" "lg_segments l' = lg_segments l"
    using assms(4) rel cut by (auto simp: cut_segment_def abind_def aresult_def open_txn_index_def split: option.splits sum.splits if_splits)
  note t = truncate_Inr [OF assms(1) _ cut [unfolded x]]
  have "chained (lg_segments l @ [s'])" using assms(3) t(2) assms(5) off by (auto simp: chained_append)
  moreover have "- 1 < uint rel" by (rule less_le_trans [of _ 0]) simp_all
  then have "end_of (sg_base_offset s) (before off cs) < off"
    using off set_takeWhileD [OF last_in_set, of "\<lambda>(b, _). batch_last b < off" cs] by (auto simp: end_of_def split_def)
  then have "log_end_offset l' \<le> off"
    using log_end_holds [OF l'(1) t(1)] seg_holdsD(6) [OF t(1)] t(2) assms(5) off by simp
  ultimately show ?thesis using t assms(2,5) off l' by (simp add: log_holds_def)
qed

text \<open>Cells of later segments end at or above the base of the first of them.\<close>

lemma before_append_all: "list_all (\<lambda>c. batch_last (fst c) < off) xs \<Longrightarrow> before off (xs @ ys) = xs @ before off ys"
  by (induction xs) auto

lemma before_stop: "list_all (\<lambda>c. off \<le> batch_last (fst c)) ys \<Longrightarrow> before off (xs @ ys) = before off xs"
proof (induction xs)
  case Nil
  then show ?case by (cases ys) auto
qed auto

lemma holds_above:
  assumes "seg_holds lib s cs" and "off \<le> sg_base_offset s"
  shows "list_all (\<lambda>c. off \<le> batch_last (fst c)) cs"
  using offsets_ok_mem [OF seg_holdsD(5) [OF assms(1)]] assms(2) by (fastforce simp: list_all_iff)

lemma all_holds_above:
  assumes "list_all2 (seg_holds lib) ss css" and "\<And>s. s \<in> set ss \<Longrightarrow> off \<le> sg_base_offset s"
  shows "list_all (\<lambda>c. off \<le> batch_last (fst c)) (concat css)"
  using assms
proof (induction rule: list_all2_induct)
  case (Cons s ss cs css)
  then show ?case using holds_above [of lib s cs off] by simp
qed simp

lemma cut_log_holds:
  assumes "log_holds lib l css cs" and "off < log_end_offset l" and "0 \<le> off"
    and "cut_log lib off (drop_tail off l) = Some (Inr (), l')"
  shows "(\<exists>css' cs'. log_holds lib l' css' cs' \<and> concat css' @ cs' = before off (concat css @ cs)) \<and> log_end_offset l' \<le> off"
proof -
  obtain a where a: "lg_active l = Some a" "\<not> sg_sealed a" "seg_holds lib a cs"
    "list_all2 (seg_holds lib) (lg_segments l) css" "chained (lg_segments l @ [a])"
    using assms(1) by (rule log_holdsE)
  have off_max: "off \<le> i64_MAX" using assms(2) log_end_ok [of l] by (simp add: i64_ok_def)
  note dt = drop_tail_data [OF a(1,5), of off]
  show ?thesis
  proof (cases "off \<le> sg_base_offset a")
    case False
    have "sg_base_offset s < off" if "s \<in> set (lg_segments l)" for s
      using chained_sorted [OF a(5)] that False by (fastforce simp: sorted_wrt_append)
    then have all: "lg_segments (drop_tail off l) = lg_segments l" using dt(1) by (simp add: takeWhile_eq_all_conv)
    have "off \<le> sg_last_offset a" using assms(2) log_end_holds [OF a(1,3)] by simp
    then have "cut_segment lib a off (drop_tail off l) = Some (Inr (), l')" using assms(4) dt(2) False by (simp add: cut_log_def)
    from cut_segment_holds [OF a(3) _ _ this off_max assms(3)] have "log_holds lib l' css (before off cs) \<and> log_end_offset l' \<le> off" using all a(4,5) by simp
    moreover have "list_all (\<lambda>c. batch_last (fst c) < off) (concat css)"
      using holds_below [OF a(4), of _ off] chained_sorted [OF a(5)] False by (fastforce simp: list_all_iff sorted_wrt_append)
    ultimately show ?thesis using before_append_all by metis
  next
    case True
    define ts where "ts = takeWhile (\<lambda>s. sg_base_offset s < off) (lg_segments l)"
    define us where "us = dropWhile (\<lambda>s. sg_base_offset s < off) (lg_segments l)"
    have split: "lg_segments l = ts @ us" by (simp add: ts_def us_def)
    obtain css1 css2 where css: "css = css1 @ css2" "list_all2 (seg_holds lib) ts css1" "list_all2 (seg_holds lib) us css2"
      using a(4) unfolding split by (auto simp: list_all2_append1)
    have "off \<le> sg_base_offset s" if "s \<in> set us" for s
    proof (cases us)
      case (Cons u us')
      then have "off \<le> sg_base_offset u" using hd_dropWhile [of "\<lambda>s. sg_base_offset s < off" "lg_segments l"] by (simp add: us_def [symmetric])
      then show ?thesis using chained_bases [OF a(5)] that unfolding split Cons by (auto simp: sorted_wrt_append)
    qed (use that in simp)
    then have above: "list_all (\<lambda>c. off \<le> batch_last (fst c)) (concat css2 @ cs)"
      using all_holds_above [OF css(3)] holds_above [OF a(3) True] by simp
    have cut: "before off (concat css @ cs) = before off (concat css1)"
      using before_stop [OF above, of "concat css1"] css(1) by simp
    show ?thesis
    proof (cases ts rule: rev_cases)
      case Nil
      then have "css1 = []" using css(2) by simp
      have st: "start_segment off (drop_tail off l) = Some (Inr (), l')"
        using assms(4) dt True Nil by (simp add: cut_log_def ts_def)
      have "log_holds lib l' [] []"
        using start_segment_Inr [OF st] dt(1) Nil seg_holds_create [OF assms(3) off_max, of lib] by (simp add: log_holds_def ts_def seg_create_def)
      moreover have "log_end_offset l' = off"
        using start_segment_Inr(1) [OF st] assms(3) off_max wrap_pred_succ [of off] by (simp add: log_end_offset_def seg_create_def int_width)
      ultimately show ?thesis using cut \<open>css1 = []\<close> by (metis append_Nil2 concat.simps(1) takeWhile.simps(1) order_refl)
    next
      case (snoc ks s)
      obtain ccs c where css1: "css1 = ccs @ [c]" "list_all2 (seg_holds lib) ks ccs" "seg_holds lib s c"
        using css(2) unfolding snoc by (auto simp: list_all2_append1 list_all2_Cons1)
      have seg: "cut_segment lib s off ((drop_tail off l)\<lparr>lg_segments := ks\<rparr>) = Some (Inr (), l')"
        using assms(4) dt True snoc by (simp add: cut_log_def ts_def)
      have chain: "chained (ks @ [s])" using a(5) unfolding split snoc by (simp add: chained_append)
      have "log_holds lib l' ccs (before off c) \<and> log_end_offset l' \<le> off"
        using cut_segment_holds [OF css1(3) _ _ seg off_max assms(3)] css1(2) chain by simp
      moreover have "sg_base_offset s < off" using snoc set_takeWhileD [of s _ "lg_segments l"] by (metis in_set_conv_decomp ts_def)
      then have "list_all (\<lambda>c. batch_last (fst c) < off) (concat ccs)"
        using holds_below [OF css1(2), of _ off] chained_sorted [OF chain] by (fastforce simp: list_all_iff sorted_wrt_append)
      then have "before off (concat css1) = concat ccs @ before off c" using before_append_all css1(1) by simp
      ultimately show ?thesis using cut by metis
    qed
  qed
qed

lemma contents_below_end:
  assumes "log_contents lib l xs" and "log_end_offset l \<le> off"
  shows "before off xs = xs"
proof -
  obtain css cs where holds: "log_holds lib l css cs" and xs: "xs = concat css @ cs" using assms(1) by (auto simp: log_contents_def)
  obtain a where a: "lg_active l = Some a" "seg_holds lib a cs" "list_all2 (seg_holds lib) (lg_segments l) css" "chained (lg_segments l @ [a])"
    using holds by (rule log_holdsE)
  have off: "sg_last_offset a < off" "sg_base_offset a \<le> off" using assms(2) log_end_holds [OF a(1,2)] holds_bounds(1) [OF a(2)] by simp_all
  have "batch_last (fst c) < off" if "c \<in> set (concat css)" for c
    using holds_below [OF a(3) that, of off] chained_sorted [OF a(4)] off by (fastforce simp: sorted_wrt_append)
  moreover have "batch_last (fst c) < off" if "c \<in> set cs" for c
    using end_of_ge [OF seg_holdsD(5) [OF a(2)] that] seg_holdsD(6) [OF a(2)] off by simp
  ultimately have "\<forall>c \<in> set xs. batch_last (fst c) < off" using xs by (metis Un_iff set_append)
  then show ?thesis by (simp add: takeWhile_eq_all_conv split_def)
qed

lemma truncate_contents:
  assumes "log_contents lib l xs" and "log_truncate_to lib off l = Some (Inr (), l')"
  shows "log_contents lib l' (before off xs) \<and> (if log_end_offset l \<le> off then l' = l else log_end_offset l' \<le> off)"
proof (cases "log_end_offset l \<le> off")
  case True
  then have "l' = l" using assms(2) by (simp add: log_truncate_to_def)
  then show ?thesis using assms(1) True unfolding contents_below_end [OF assms(1) True] by simp
next
  case False
  obtain css cs where holds: "log_holds lib l css cs" and xs: "xs = concat css @ cs" using assms(1) by (auto simp: log_contents_def)
  let ?l1 = "if lg_segments l \<noteq> [] then l\<lparr>lg_snapshots := ps_remove_after (lg_snapshots l) off\<rparr> else l"
  have d1: "same_data l ?l1" by (simp add: same_data_def)
  then have holds1: "log_holds lib ?l1 css cs" using holds same_data_holds by blast
  have end1: "off < log_end_offset ?l1" using False by (simp add: log_end_offset_def)
  have start: "log_start_offset l \<le> off" using assms(2) False by (auto simp: log_truncate_to_def split: if_splits)
  have "0 \<le> first_base l"
  proof -
    obtain a where a: "lg_active l = Some a" "seg_holds lib a cs" "list_all2 (seg_holds lib) (lg_segments l) css" using holds by (rule log_holdsE)
    then show ?thesis using seg_holdsD(1) by (cases "lg_segments l") (auto simp: first_base_def list_all2_Cons1)
  qed
  then have "0 \<le> off" using start by (auto simp: log_start_first split: option.splits)
  obtain l2 l3 where l2: "cut_log lib off (drop_tail off ?l1) = Some (Inr (), l2)"
    and l3: "(if lg_producer_state l2 \<noteq> [] then rebuild_producer_and_transaction_state lib l2 else Some (Inr (), l2)) = Some (Inr (), l3)"
    and l': "same_data l3 l'"
    using assms(2) False start unfolding log_truncate_to_def Let_def
    by (auto split: if_splits elim!: abind_InrE simp: same_data_def)
  have "same_data l2 l3" using l3 rebuild_core [THEN core_data] by (auto split: if_splits)
  then have d3: "same_data l2 l'" using l' by (rule same_data_trans)
  have "log_end_offset l' = log_end_offset l2" using d3 by (simp add: same_data_def log_end_offset_def)
  moreover obtain css' cs' where "log_holds lib l2 css' cs'" "concat css' @ cs' = before off xs" "log_end_offset l2 \<le> off"
    using cut_log_holds [OF holds1 end1 \<open>0 \<le> off\<close> l2] xs by metis
  ultimately show ?thesis using False same_data_holds [OF d3] unfolding log_contents_def by metis
qed

lemma reset_contents:
  assumes "reset_to new_base l = Some (Inr (), l')" and "new_base \<le> i64_MAX"
  shows "log_contents lib l' [] \<and> log_end_offset l' = new_base"
proof -
  have "0 \<le> new_base" using assms(1) by (auto simp: reset_to_def split: if_splits)
  moreover obtain l0 l1 where "lg_segments l0 = []" and st: "start_segment new_base l0 = Some (Inr (), l1)" and "same_data l1 l'"
    using assms(1) unfolding reset_to_def Let_def
    by (auto split: if_splits elim!: abind_InrE simp: drop_files_def same_data_def intro!: that)
  then have "lg_active l' = Some (seg_create new_base)" "lg_segments l' = []"
    using start_segment_Inr [OF st] by (simp_all add: same_data_def)
  ultimately have "log_holds lib l' [] []" using seg_holds_create [of new_base lib] assms(2) by (simp add: log_holds_def seg_create_def)
  moreover have "log_end_offset l' = new_base"
    using \<open>lg_active l' = _\<close> \<open>0 \<le> new_base\<close> assms(2) wrap_pred_succ [of new_base] by (simp add: log_end_offset_def seg_create_def int_width)
  ultimately show ?thesis unfolding log_contents_def by (metis append_Nil2 concat.simps(1))
qed

lemma contents_end:
  assumes "log_contents lib l xs" and "xs \<noteq> []"
  shows "log_end_offset l = batch_last (fst (last xs)) + 1"
proof -
  obtain css cs where holds: "log_holds lib l css cs" and xs: "xs = concat css @ cs" using assms(1) by (auto simp: log_contents_def)
  obtain a where a: "lg_active l = Some a" "seg_holds lib a cs" "list_all2 (seg_holds lib) (lg_segments l) css" "chained (lg_segments l @ [a])"
    using holds by (rule log_holdsE)
  note last_a = seg_holdsD(6) [OF a(2)]
  show ?thesis
  proof (cases "cs = []")
    case True
    then have "css \<noteq> []" using assms(2) xs by auto
    then obtain ss s ccs c where s: "lg_segments l = ss @ [s]" "css = ccs @ [c]" "seg_holds lib s c"
      using a(3) by (cases css rule: rev_cases) (auto simp: list_all2_append2 list_all2_Cons2)
    have next_base: "sg_last_offset s + 1 = sg_base_offset a" "sg_base_offset s < sg_base_offset a" using a(4) unfolding s(1) by (simp_all add: chained_append)
    then have "c \<noteq> []" using seg_holdsD(6) [OF s(3)] by (auto simp: end_of_def)
    then show ?thesis using log_end_holds [OF a(1,2)] last_a True seg_holdsD(6) [OF s(3)] next_base xs s(2) by (simp add: end_of_def)
  qed (use log_end_holds [OF a(1,2)] last_a xs in \<open>simp add: end_of_def\<close>)
qed

section \<open>The log refines a sequence of batches\<close>

datatype log_op = Append record_batch | AppendAt record_batch int | AppendVerbatim verbatim_batch | AppendVerbatimAt verbatim_batch int
  | Tick int | Trim int | DeleteLocal int | TruncateTo int | ResetTo int | SetStart int | Reconcile int

definition void :: "'a log_act \<Rightarrow> unit log_act" where
  "void m l = map_option (map_prod (map_sum id (\<lambda>_. ())) id) (m l)"

fun run_op :: "batch_lib \<Rightarrow> log_op \<Rightarrow> unit log_act" where
  "run_op lib (Append b) = void (log_append lib b)"
| "run_op lib (AppendAt b base) = append_at lib b base"
| "run_op lib (AppendVerbatim v) = void (append_verbatim lib v)"
| "run_op lib (AppendVerbatimAt v base) = void (append_verbatim_at lib v base)"
| "run_op lib (Tick now) = log_tick lib now"
| "run_op lib (Trim target) = void (trim_to_offset target)"
| "run_op lib (DeleteLocal target) = void (delete_local_segments_through target)"
| "run_op lib (TruncateTo off) = log_truncate_to lib off"
| "run_op lib (ResetTo base) = reset_to base"
| "run_op lib (SetStart n) = set_log_start_offset n"
| "run_op lib (Reconcile n) = aupdate (\<lambda>l. reconcile_next_offset l n)"

text \<open>What an operation may be called with: offsets that fit and bytes that decode to the batch.\<close>

definition batch_fits :: "batch_lib \<Rightarrow> record_batch \<Rightarrow> bool" where
  "batch_fits lib b \<longleftrightarrow> 0 \<le> rb_last_offset_delta b \<and> rb_base_offset b + rb_last_offset_delta b < i64_MAX
     \<and> (\<forall>out. batch_encode lib b = Some (Inr out) \<longrightarrow> stored lib b out)"

definition verbatim_fits :: "batch_lib \<Rightarrow> verbatim_batch \<Rightarrow> int \<Rightarrow> record_batch \<Rightarrow> bool" where
  "verbatim_fits lib v base b \<longleftrightarrow> batch_decode lib (vbt_bytes v) = Inr (b, []) \<and> vbt_last_offset_delta v = rb_last_offset_delta b
     \<and> i32_ok (vbt_leader_epoch v) \<and> 0 \<le> rb_last_offset_delta b \<and> base + rb_last_offset_delta b < i64_MAX"

fun op_fits :: "batch_lib \<Rightarrow> log_op \<Rightarrow> partition_log \<Rightarrow> bool" where
  "op_fits lib (Append b) l = batch_fits lib (b\<lparr>rb_base_offset := log_end_offset l\<rparr>)"
| "op_fits lib (AppendAt b base) l = batch_fits lib (b\<lparr>rb_base_offset := base\<rparr>)"
| "op_fits lib (AppendVerbatim v) l = (\<exists>b. verbatim_fits lib v (log_end_offset l) b)"
| "op_fits lib (AppendVerbatimAt v base) l = (\<exists>b. verbatim_fits lib v base b)"
| "op_fits lib (ResetTo base) l = (base \<le> i64_MAX)"
| "op_fits lib _ l = True"

text \<open>
  The specification works on the offset that comes next and the sequence. An append adds one batch at the
  end, at the next offset or, for the calls that name one, at an offset not below it; retention, trimming and
  deletion take batches off the front, the last two only below their target; truncation keeps exactly
  the batches that end below its offset; a reset empties the sequence and sets the next offset.
\<close>

definition adds :: "record_batch \<Rightarrow> int \<times> cells \<Rightarrow> int \<times> cells \<Rightarrow> bool" where
  "adds b = (\<lambda>(n, xs) (n', ys). n \<le> rb_base_offset b \<and> n' = batch_last b + 1 \<and> butlast ys = xs \<and> ys \<noteq> [] \<and> fst (last ys) = b
     \<and> list_all (\<lambda>c. batch_last (fst c) < rb_base_offset b) xs)"

definition drops :: "(record_batch \<Rightarrow> bool) \<Rightarrow> int \<times> cells \<Rightarrow> int \<times> cells \<Rightarrow> bool" where
  "drops p = (\<lambda>(n, xs) (n', ys). n' = n \<and> (\<exists>zs. xs = zs @ ys \<and> list_all (\<lambda>c. p (fst c)) zs))"

definition placed :: "batch_lib \<Rightarrow> verbatim_batch \<Rightarrow> int \<Rightarrow> record_batch \<Rightarrow> bool" where
  "placed lib v base b \<longleftrightarrow> (\<exists>b0. batch_decode lib (vbt_bytes v) = Inr (b0, [])
     \<and> b = b0\<lparr>rb_base_offset := base, rb_partition_leader_epoch := vbt_leader_epoch v\<rparr>)"

fun abs_op :: "batch_lib \<Rightarrow> log_op \<Rightarrow> int \<times> cells \<Rightarrow> int \<times> cells \<Rightarrow> bool" where
  "abs_op lib (Append b) st st' = adds (b\<lparr>rb_base_offset := fst st\<rparr>) st st'"
| "abs_op lib (AppendAt b base) st st' = adds (b\<lparr>rb_base_offset := base\<rparr>) st st'"
| "abs_op lib (AppendVerbatim v) st st' = (\<exists>b. placed lib v (fst st) b \<and> adds b st st')"
| "abs_op lib (AppendVerbatimAt v base) st st' = (\<exists>b. placed lib v base b \<and> adds b st st')"
| "abs_op lib (Tick now) st st' = drops (\<lambda>_. True) st st'"
| "abs_op lib (Trim target) st st' = drops (\<lambda>b. batch_last b < target) st st'"
| "abs_op lib (DeleteLocal target) st st' = drops (\<lambda>b. batch_last b < target) st st'"
| "abs_op lib (TruncateTo off) st st' = (if fst st \<le> off then st' = st else fst st' \<le> off \<and> snd st' = before off (snd st))"
| "abs_op lib (ResetTo base) st st' = (st' = (base, []))"
| "abs_op lib _ st st' = (st' = st)"

text \<open>A log stands for the next offset and the sequence it holds.\<close>

definition log_abs :: "batch_lib \<Rightarrow> partition_log \<Rightarrow> int \<times> cells \<Rightarrow> bool" where
  "log_abs lib l st \<longleftrightarrow> fst st = log_end_offset l \<and> log_contents lib l (snd st)"

lemma void_Inr: "void m l = Some (Inr (), l') \<longleftrightarrow> (\<exists>a. m l = Some (Inr a, l'))"
proof (cases "m l")
  case (Some p)
  then show ?thesis by (cases p; cases "fst p") (auto simp: void_def)
qed (simp add: void_def)

lemma contents_below:
  assumes "log_contents lib l xs" and "log_end_offset l \<le> base"
  shows "list_all (\<lambda>c. batch_last (fst c) < base) xs"
  using contents_below_end [OF assms] by (auto simp: takeWhile_eq_all_conv list_all_iff)

lemma adds_contents:
  assumes "log_contents lib l xs" and "log_contents lib l' (xs @ [(b, out)])" and "log_end_offset l \<le> rb_base_offset b"
  shows "\<exists>st'. adds b (log_end_offset l, xs) st' \<and> log_abs lib l' st'"
  using contents_end [OF assms(2)] contents_below [OF assms(1,3)] assms(2,3)
  by (intro exI [of _ "(log_end_offset l', xs @ [(b, out)])"]) (simp add: adds_def log_abs_def)

lemma same_end: "same_data l l' \<Longrightarrow> log_end_offset l' = log_end_offset l"
  by (simp add: same_data_def log_end_offset_def)

lemma run_append_refines:
  assumes "log_contents lib l xs" and "batch_fits lib (b\<lparr>rb_base_offset := log_end_offset l\<rparr>)" and "log_append lib b l = Some (Inr base, l')"
  shows "\<exists>st'. adds (b\<lparr>rb_base_offset := log_end_offset l\<rparr>) (log_end_offset l, xs) st' \<and> log_abs lib l' st'"
proof -
  have base: "base = log_end_offset l" using assms(3) unfolding log_append_def Let_def by (elim abind_InrE) auto
  then obtain out where "log_contents lib l' (xs @ [(b\<lparr>rb_base_offset := log_end_offset l\<rparr>, out)])"
    using log_append_contents [OF assms(1,3) refl] assms(2) by (auto simp: batch_fits_def)
  from adds_contents [OF assms(1) this] show ?thesis by simp
qed

lemma run_append_at_refines:
  assumes "log_contents lib l xs" and "batch_fits lib (b\<lparr>rb_base_offset := base\<rparr>)" and "append_at lib b base l = Some (Inr (), l')"
  shows "\<exists>st'. adds (b\<lparr>rb_base_offset := base\<rparr>) (log_end_offset l, xs) st' \<and> log_abs lib l' st'"
proof -
  have base: "log_end_offset l \<le> base"
    using assms(3) by (auto simp: append_at_def append_at_expected_offset_def Let_def split: if_splits)
  obtain out where "log_contents lib l' (xs @ [(b\<lparr>rb_base_offset := base\<rparr>, out)])"
    using append_at_contents [OF assms(1,3) refl] assms(2) by (auto simp: batch_fits_def)
  from adds_contents [OF assms(1) this] base show ?thesis by simp
qed

lemma run_verbatim_refines:
  assumes "log_contents lib l xs" and "verbatim_fits lib v base b" and "log_end_offset l \<le> base"
    and "append_verbatim_preserving_offset lib v base l = Some (Inr (), l1)" and "note_epoch e base l1 = Some (Inr (), l')"
  shows "\<exists>b' st'. placed lib v base b' \<and> adds b' (log_end_offset l, xs) st' \<and> log_abs lib l' st'"
proof -
  let ?b = "b\<lparr>rb_base_offset := base, rb_partition_leader_epoch := vbt_leader_epoch v\<rparr>"
  obtain out where "log_contents lib l1 (xs @ [(?b, out)])"
    using append_verbatim_contents [OF assms(1,4)] assms(2,3) by (auto simp: verbatim_fits_def)
  then have "log_contents lib l' (xs @ [(?b, out)])"
    using same_data_holds [OF note_epoch_data [OF assms(5)]] by (simp add: log_contents_def)
  from adds_contents [OF assms(1) this] have "\<exists>st'. adds ?b (log_end_offset l, xs) st' \<and> log_abs lib l' st'" using assms(3) by simp
  moreover have "placed lib v base ?b" using assms(2) by (auto simp: placed_def verbatim_fits_def)
  ultimately show ?thesis by blast
qed

lemma run_drop_refines:
  assumes "\<exists>zs ys. xs = zs @ ys \<and> list_all (\<lambda>c. p (fst c)) zs \<and> log_contents lib l' ys" and "same_txn l l'"
  shows "\<exists>st'. drops p (log_end_offset l, xs) st' \<and> log_abs lib l' st'"
  using assms by (auto simp: drops_def log_abs_def same_txn_def)

lemma run_same_refines:
  assumes "log_abs lib l st" and "same_data l l'"
  shows "log_abs lib l' st"
  using assms same_data_holds [OF assms(2)] same_end [OF assms(2)] by (simp add: log_abs_def log_contents_def)

lemma run_op_refines:
  assumes "log_abs lib l st" and "op_fits lib op l" and "run_op lib op l = Some (Inr (), l')"
  shows "\<exists>st'. abs_op lib op st st' \<and> log_abs lib l' st'"
proof -
  obtain xs where xs: "log_contents lib l xs" and st: "st = (log_end_offset l, xs)" using assms(1) by (cases st) (auto simp: log_abs_def)
  show ?thesis
  proof (cases op)
    case (Append b)
    then show ?thesis using run_append_refines [OF xs] assms(2,3) by (fastforce simp: void_Inr st)
  next
    case (AppendAt b base)
    then show ?thesis using run_append_at_refines [OF xs] assms(2,3) by (fastforce simp: st)
  next
    case (AppendVerbatim v)
    then obtain b l1 where "verbatim_fits lib v (log_end_offset l) b" "append_verbatim_preserving_offset lib v (log_end_offset l) l = Some (Inr (), l1)"
      "note_epoch (vbt_leader_epoch v) (log_end_offset l) l1 = Some (Inr (), l')"
      using assms(2,3) by (auto simp: void_Inr append_verbatim_def Let_def elim!: abind_InrE)
    from run_verbatim_refines [OF xs this(1) order_refl this(2,3)] show ?thesis using AppendVerbatim by (auto simp: st)
  next
    case (AppendVerbatimAt v base)
    then obtain b l1 where "verbatim_fits lib v base b" "log_end_offset l \<le> base"
      "append_verbatim_preserving_offset lib v base l = Some (Inr (), l1)" "note_epoch (vbt_leader_epoch v) base l1 = Some (Inr (), l')"
      using assms(2,3) by (auto simp: void_Inr append_verbatim_at_def append_at_expected_offset_def Let_def split: if_splits elim!: abind_InrE)
    from run_verbatim_refines [OF xs this] show ?thesis using AppendVerbatimAt by (auto simp: st)
  next
    case (Tick now)
    then have "log_tick lib now l = Some (Inr (), l')" using assms(3) by simp
    then have "\<exists>st'. drops (\<lambda>_. True) (log_end_offset l, xs) st' \<and> log_abs lib l' st'"
      using log_tick_contents [OF xs] log_tick_same by (intro run_drop_refines) (fastforce simp: list_all_iff)+
    then show ?thesis using Tick by (simp add: st)
  next
    case (Trim target)
    then obtain r where "trim_to_offset target l = Some (Inr r, l')" using assms(3) by (auto simp: void_Inr)
    then show ?thesis using run_drop_refines [OF _ trim_same] trim_contents [OF xs] Trim by (fastforce simp: st)
  next
    case (DeleteLocal target)
    then obtain r where "delete_local_segments_through target l = Some (Inr r, l')" using assms(3) by (auto simp: void_Inr)
    then show ?thesis using run_drop_refines [OF _ delete_local_same] delete_local_contents [OF xs] DeleteLocal by (fastforce simp: st)
  next
    case (TruncateTo off)
    then have "log_contents lib l' (before off xs)" "if log_end_offset l \<le> off then l' = l else log_end_offset l' \<le> off"
      using truncate_contents [OF xs, of off l'] assms(3) by simp_all
    then show ?thesis using TruncateTo assms(1)
      by (intro exI [of _ "if log_end_offset l \<le> off then st else (log_end_offset l', before off xs)"]) (auto simp: st log_abs_def)
  next
    case (ResetTo base)
    then show ?thesis using reset_contents assms(2,3) by (fastforce simp: log_abs_def)
  next
    case (SetStart n)
    then have "same_data l l'" using assms(3) by (auto simp: set_log_start_offset_def same_data_def split: if_splits)
    then show ?thesis using run_same_refines [OF assms(1)] SetStart by simp
  next
    case (Reconcile n)
    then have "same_data l l'" using assms(3) by (simp add: same_data_def reconcile_next_offset_def)
    then show ?thesis using run_same_refines [OF assms(1)] Reconcile by simp
  qed
qed

section \<open>Reads across segments\<close>

text \<open>The batches that a fetch is about: those that reach its offset and start below its limit.\<close>

definition wanted :: "int \<Rightarrow> int \<Rightarrow> cells \<Rightarrow> cells" where
  "wanted f lim xs = filter (\<lambda>c. f \<le> batch_last (fst c) \<and> rb_base_offset (fst c) < lim) xs"

lemma wanted_append [simp]: "wanted f lim (xs @ ys) = wanted f lim xs @ wanted f lim ys"
  by (simp add: wanted_def)

lemma visible_wanted:
  assumes "offsets_ok base cs"
  shows "visible_cells f lim cs = wanted f lim cs"
proof -
  have sorted: "sorted_wrt (\<lambda>x y. batch_last (fst x) < rb_base_offset (fst y)) cs" and
    le: "\<And>c. c \<in> set cs \<Longrightarrow> rb_base_offset (fst c) \<le> batch_last (fst c)"
    using assms offsets_ok_mem [OF assms] by (auto simp: offsets_ok_def)
  have all: "below_limit lim ds = wanted f lim ds" if "sorted_wrt (\<lambda>x y. batch_last (fst x) < rb_base_offset (fst y)) ds"
    "\<And>c. c \<in> set ds \<Longrightarrow> rb_base_offset (fst c) \<le> batch_last (fst c) \<and> f \<le> batch_last (fst c)" for ds
    using that
  proof (induction ds)
    case (Cons d ds)
    show ?case
    proof (cases "rb_base_offset (fst d) < lim")
      case True
      moreover have "below_limit lim ds = wanted f lim ds" using Cons by simp
      ultimately show ?thesis using Cons.prems(2) by (simp add: wanted_def split_def)
    next
      case False
      have "rb_base_offset (fst d) \<le> rb_base_offset (fst e)" if "e \<in> set ds" for e using Cons.prems that by fastforce
      then have "wanted f lim ds = []" using False by (fastforce simp: wanted_def filter_empty_conv)
      then show ?thesis using False by (simp add: wanted_def split_def)
    qed
  qed (simp add: wanted_def)
  show ?thesis using sorted le
  proof (induction cs)
    case (Cons c cs)
    then have IH: "visible_cells f lim cs = wanted f lim cs" by simp
    show ?case
    proof (cases "batch_last (fst c) < f")
      case True
      then show ?thesis using IH by (cases c) (simp add: visible_cells_def wanted_def)
    next
      case False
      then have "f \<le> batch_last (fst d)" if "d \<in> set (c # cs)" for d using that Cons.prems by fastforce
      then have "below_limit lim (c # cs) = wanted f lim (c # cs)" using Cons.prems by (intro all) auto
      moreover have "visible_cells f lim (c # cs) = below_limit lim (c # cs)" using False by (cases c) (simp add: visible_cells_def)
      ultimately show ?thesis by simp
    qed
  qed (simp add: visible_cells_def wanted_def)
qed

text \<open>The accumulator between two segments: the walk goes on exactly when there is budget and offset range left.\<close>

definition acc_ok :: "int \<Rightarrow> raw_acc \<Rightarrow> bool" where
  "acc_ok lim a \<longleftrightarrow> (ra_done a \<longleftrightarrow> ra_got_first a \<and> (ra_remaining a = 0 \<or> lim \<le> ra_current a))
     \<and> (\<not> ra_got_first a \<longrightarrow> ra_current a < lim)"

lemma acc_ok_add: "acc_ok lim a \<Longrightarrow> acc_ok lim (raw_acc_add r lim a)"
  by (auto simp: acc_ok_def raw_acc_add_def Let_def)

text \<open>The last step of \<open>Log::read_raw\<close> treats the active segment as the walk treats the sealed ones.\<close>

lemma raw_segments_ok: "raw_segments ss lim a = Inr a' \<Longrightarrow> acc_ok lim a \<Longrightarrow> acc_ok lim a'"
  by (induction ss lim a rule: raw_segments.induct) (auto split: if_splits sum.splits dest: acc_ok_add)

lemma raw_segments_snoc:
  "raw_segments (ss @ [s]) lim a = (case raw_segments ss lim a of Inl e \<Rightarrow> Inl e | Inr a' \<Rightarrow> raw_segments [s] lim a')"
  by (induction ss lim a rule: raw_segments.induct) (auto split: sum.splits)

definition raw_start :: "int \<Rightarrow> nat \<Rightarrow> raw_acc" where
  "raw_start f m = \<lparr>ra_chunks = [], ra_start_offset = f, ra_current = f, ra_remaining = m, ra_got_first = False,
     ra_last_offset = None, ra_done = False\<rparr>"

lemma log_read_raw_walk:
  assumes "log_read_raw l f lim m = Inr r" and "lg_active l = Some act" and "f < lim"
  obtains a where "raw_segments (lg_segments l @ [act]) lim (raw_start f m) = Inr a" "rr_bytes r = concat (ra_chunks a)"
proof -
  obtain a1 where a1: "raw_segments (lg_segments l) lim (raw_start f m) = Inr a1"
    using assms(1,3) by (auto simp: log_read_raw_def raw_start_def split: if_splits sum.splits)
  have ok: "acc_ok lim a1" by (rule raw_segments_ok [OF a1]) (simp add: acc_ok_def raw_start_def assms(3))
  obtain t where t: "(if (0 < ra_remaining a1 \<or> \<not> ra_got_first a1) \<and> ra_current a1 < lim \<and> ra_current a1 \<le> sg_last_offset act
      then seg_read_raw act (ra_current a1) lim (max (ra_remaining a1) HEADER_LEN) else Inr rsr_empty) = Inr t"
    and r: "rr_bytes r = concat (ra_chunks (raw_acc_add t lim a1))"
    using assms a1 by (auto simp: log_read_raw_def raw_start_def Let_def split: if_splits sum.splits)
  have "raw_segments [act] lim a1 = Inr (raw_acc_add t lim a1)"
    using t ok by (auto simp: acc_ok_def raw_acc_add_def rsr_is_empty_def rsr_empty_def not_less split: if_splits)
  then show thesis using that r a1 by (simp add: raw_segments_snoc)
qed

text \<open>
  What one segment contributes. Later segments hold only batches that start above its last offset, so
  the new position of the walk asks for the same batches there.
\<close>

lemma seg_walk_step:
  assumes "seg_holds lib s cs" and "0 \<le> ra_current a" and "acc_ok lim a" and "\<not> ra_done a" and "ra_current a \<le> sg_last_offset s"
    and "seg_read_raw s (ra_current a) lim (max (ra_remaining a) HEADER_LEN) = Inr r"
  obtains zs where "prefix zs (wanted (ra_current a) lim cs)" "concat (ra_chunks (raw_acc_add r lim a)) = concat (ra_chunks a) @ cells_bytes zs"
    "ra_current a \<le> ra_current (raw_acc_add r lim a)" "ra_current (raw_acc_add r lim a) \<le> sg_last_offset s + 1"
    "ra_remaining (raw_acc_add r lim a) = ra_remaining a - length (cells_bytes zs)"
    "length (cells_bytes cs) \<le> ra_remaining a \<Longrightarrow> zs = wanted (ra_current a) lim cs"
proof -
  note h = seg_holdsD [OF assms(1)]
  let ?f = "ra_current a" let ?m = "max (ra_remaining a) HEADER_LEN"
  note vis = visible_wanted [OF h(5), of ?f lim]
  have lim: "?f < lim" using assms(3,4) by (auto simp: acc_ok_def)
  obtain zs where zs: "prefix zs (wanted ?f lim cs)" "r = raw_result zs"
    and all: "length (cells_bytes (before ?f cs)) + length (cells_bytes (wanted ?f lim cs)) \<le> ?m \<longrightarrow> zs = wanted ?f lim cs"
    using seg_read_raw_run [OF assms(1,2,5) lim assms(6)] unfolding vis by blast
  have mem: "c \<in> set cs \<and> ?f \<le> batch_last (fst c)" if "c \<in> set zs" for c
    using set_mono_prefix [OF zs(1)] that by (auto simp: wanted_def)
  have cs: "cs = before ?f cs @ drop (length (before ?f cs)) cs"
    using takeWhile_eq_take [of "\<lambda>(b, _). batch_last b < ?f" cs] append_take_drop_id by metis
  have "length (cells_bytes (wanted ?f lim cs)) \<le> length (cells_bytes (drop (length (before ?f cs)) cs))"
    unfolding vis [symmetric] visible_cells_def using takeWhile_dropWhile_id [of "\<lambda>(b, _). rb_base_offset b < lim" "drop (length (before ?f cs)) cs"]
    by (metis cells_bytes_simps(3) le_add1 length_append)
  then have "length (cells_bytes (before ?f cs)) + length (cells_bytes (wanted ?f lim cs)) \<le> length (cells_bytes cs)"
    using arg_cong [OF cs, of "\<lambda>x. length (cells_bytes x)"] by simp
  then have enough: "length (cells_bytes cs) \<le> ra_remaining a \<Longrightarrow> zs = wanted ?f lim cs" using all by simp
  show thesis
  proof (cases "zs = []")
    case True
    then have "raw_acc_add r lim a = a" using zs(2) by (simp add: raw_result_def raw_acc_add_def rsr_is_empty_def rsr_empty_def)
    then show thesis using that [OF zs(1)] True enough assms(5) by simp
  next
    case False
    have "last zs \<in> set cs" "?f \<le> batch_last (fst (last zs))" using mem [of "last zs"] False by simp_all
    moreover have "batch_last (fst (last zs)) \<le> sg_last_offset s" using end_of_ge [OF h(5)] h(6) \<open>last zs \<in> set cs\<close> by simp
    moreover have "i64_wrapping_add (batch_last (fst (last zs))) 1 = batch_last (fst (last zs)) + 1"
      using calculation(2) offsets_ok_mem [OF h(5) \<open>last zs \<in> set cs\<close>] assms(2) by (intro i64_wrapping_add_ok) (simp add: int_width)
    moreover have "cells_bytes zs \<noteq> []"
      using False mem [of "hd zs"] h(4) stored_length [of lib] by (cases zs) (fastforce simp: list_all_iff)+
    ultimately show thesis using that [OF zs(1)] enough zs(2) False
      by (simp add: raw_result_def raw_acc_add_def rsr_is_empty_def Let_def)
  qed
qed

lemma wanted_later:
  assumes "\<And>c. c \<in> set xs \<Longrightarrow> g \<le> rb_base_offset (fst c) \<and> rb_base_offset (fst c) \<le> batch_last (fst c)" and "f \<le> g"
  shows "wanted f lim xs = wanted g lim xs" and "lim \<le> g \<Longrightarrow> wanted f lim xs = []"
  using assms by (fastforce simp: wanted_def filter_empty_conv intro: filter_cong)+

lemma wanted_same:
  assumes "\<And>c. c \<in> set xs \<Longrightarrow> g \<le> rb_base_offset (fst c) \<and> rb_base_offset (fst c) \<le> batch_last (fst c)" and "f \<le> g" and "h \<le> g"
  shows "wanted f lim xs = wanted h lim xs"
  using wanted_later(1) [of xs g f lim] wanted_later(1) [of xs g h lim] assms by simp

lemma later_cells:
  assumes "list_all2 (seg_holds lib) ss css" and "chained (s # ss)" and "c \<in> set (concat css)"
  shows "sg_last_offset s + 1 \<le> rb_base_offset (fst c) \<and> rb_base_offset (fst c) \<le> batch_last (fst c)"
proof -
  obtain cs where "cs \<in> set css" "c \<in> set cs" using assms(3) by auto
  then obtain t where t: "t \<in> set ss" "seg_holds lib t cs" using assms(1) by (metis in_set_conv_nth list_all2_conv_all_nth)
  have "sg_last_offset s < sg_base_offset t" using chained_sorted [OF assms(2)] t(1) by simp
  then show ?thesis using offsets_ok_mem [OF seg_holdsD(5) [OF t(2)] \<open>c \<in> set cs\<close>] by simp
qed

lemma wanted_length: "length (cells_bytes (wanted f lim cs)) \<le> length (cells_bytes cs)"
  by (induction cs) (auto simp: wanted_def)

lemma walk_exact:
  assumes "\<And>c. c \<in> set xs \<Longrightarrow> g \<le> rb_base_offset (fst c) \<and> rb_base_offset (fst c) \<le> batch_last (fst c)" and "f \<le> g"
    and "ra_current a \<le> g" and "acc_ok lim a" and "subseq ys (wanted (ra_current a) lim xs)"
    and "\<not> ra_done a \<and> length (cells_bytes xs) < ra_remaining a \<longrightarrow> ys = wanted (ra_current a) lim xs"
    and "length (cells_bytes xs) < ra_remaining a"
  shows "ys = wanted f lim xs"
proof -
  have same: "wanted f lim xs = wanted (ra_current a) lim xs" using assms(1-3) by (rule wanted_same)
  show ?thesis
  proof (cases "ra_done a")
    case True
    then have "lim \<le> g" using assms(3,4,7) by (auto simp: acc_ok_def)
    then have "wanted f lim xs = []" using wanted_later(2) [OF assms(1,2)] by simp
    then show ?thesis using assms(5) same by simp
  qed (use assms(6,7) same in simp)
qed

lemma raw_segments_run:
  assumes "list_all2 (seg_holds lib) ss css" and "chained ss" and "0 \<le> ra_current a" and "acc_ok lim a"
    and "raw_segments ss lim a = Inr a'"
  shows "\<exists>ys. subseq ys (wanted (ra_current a) lim (concat css)) \<and> concat (ra_chunks a') = concat (ra_chunks a) @ cells_bytes ys
    \<and> (\<not> ra_done a \<and> length (cells_bytes (concat css)) < ra_remaining a \<longrightarrow> ys = wanted (ra_current a) lim (concat css))"
  using assms
proof (induction arbitrary: a rule: list_all2_induct)
  case Nil
  then show ?case by (intro exI [of _ "[]"]) (simp add: wanted_def)
next
  case (Cons s ss cs css)
  have chain: "chained ss" using Cons.prems(1) by (cases ss) simp_all
  note later = later_cells [OF Cons.hyps(2) Cons.prems(1)]
  consider "ra_done a" | "\<not> ra_done a" "sg_last_offset s < ra_current a" | "\<not> ra_done a" "ra_current a \<le> sg_last_offset s" by linarith
  then show ?case
  proof cases
    case 1
    then show ?thesis using Cons.prems(4) by (intro exI [of _ "[]"]) simp
  next
    case 2
    have "wanted (ra_current a) lim cs = []"
      using end_of_ge [OF seg_holdsD(5) [OF Cons.hyps(1)]] seg_holdsD(6) [OF Cons.hyps(1)] 2(2)
      by (fastforce simp: wanted_def filter_empty_conv)
    moreover have "raw_segments ss lim a = Inr a'" using Cons.prems(4) 2 by simp
    ultimately show ?thesis using Cons.IH [OF chain Cons.prems(2,3)] by fastforce
  next
    case 3
    obtain r where r: "seg_read_raw s (ra_current a) lim (max (ra_remaining a) HEADER_LEN) = Inr r"
      and rest: "raw_segments ss lim (raw_acc_add r lim a) = Inr a'"
      using Cons.prems(4) 3 by (auto split: sum.splits)
    let ?a = "raw_acc_add r lim a"
    obtain zs where zs: "prefix zs (wanted (ra_current a) lim cs)" "concat (ra_chunks ?a) = concat (ra_chunks a) @ cells_bytes zs"
      and cur: "ra_current a \<le> ra_current ?a" "ra_current ?a \<le> sg_last_offset s + 1"
      and left: "ra_remaining ?a = ra_remaining a - length (cells_bytes zs)"
      and all: "length (cells_bytes cs) \<le> ra_remaining a \<Longrightarrow> zs = wanted (ra_current a) lim cs"
      using seg_walk_step [OF Cons.hyps(1) Cons.prems(2,3) 3 r] by metis
    have ok: "acc_ok lim ?a" using Cons.prems(3) by (rule acc_ok_add)
    obtain ys where ys: "subseq ys (wanted (ra_current ?a) lim (concat css))" "concat (ra_chunks a') = concat (ra_chunks ?a) @ cells_bytes ys"
      and rest_all: "\<not> ra_done ?a \<and> length (cells_bytes (concat css)) < ra_remaining ?a \<longrightarrow> ys = wanted (ra_current ?a) lim (concat css)"
      using Cons.IH [OF chain _ ok rest] Cons.prems(2) cur(1) by auto
    have same: "wanted (ra_current ?a) lim (concat css) = wanted (ra_current a) lim (concat css)"
      by (rule wanted_same [OF later]) (use cur 3(2) in simp_all)
    have "subseq (zs @ ys) (wanted (ra_current a) lim (concat (cs # css)))"
      using list_emb_append_mono [OF prefix_imp_subseq [OF zs(1)] ys(1)] same by simp
    moreover have "zs @ ys = wanted (ra_current a) lim (concat (cs # css))" if "length (cells_bytes (concat (cs # css))) < ra_remaining a"
    proof -
      have zs': "zs = wanted (ra_current a) lim cs" using all that by simp
      have "length (cells_bytes zs) \<le> length (cells_bytes cs)" unfolding zs' by (rule wanted_length)
      then have more: "length (cells_bytes (concat css)) < ra_remaining ?a" using left that by simp
      have "ys = wanted (ra_current a) lim (concat css)"
        by (rule walk_exact [OF later _ cur(2) ok ys(1) rest_all more]) (use 3(2) in simp_all)
      then show ?thesis using zs' by simp
    qed
    ultimately show ?thesis using ys(2) zs(2) by (intro exI [of _ "zs @ ys"]) simp
  qed
qed

lemma log_read_raw_run:
  assumes "log_contents lib l xs" and "0 \<le> f" and "log_read_raw l f lim m = Inr r"
  shows "\<exists>ys. subseq ys (wanted f lim xs) \<and> rr_bytes r = cells_bytes ys
    \<and> (f < lim \<and> length (cells_bytes xs) < m \<longrightarrow> ys = wanted f lim xs)"
proof (cases "f < lim")
  case True
  obtain css cs where holds: "log_holds lib l css cs" and xs: "xs = concat css @ cs" using assms(1) by (auto simp: log_contents_def)
  obtain act where act: "lg_active l = Some act" "seg_holds lib act cs" "list_all2 (seg_holds lib) (lg_segments l) css" "chained (lg_segments l @ [act])"
    using holds by (rule log_holdsE)
  obtain a where a: "raw_segments (lg_segments l @ [act]) lim (raw_start f m) = Inr a" "rr_bytes r = concat (ra_chunks a)"
    using assms(3) act(1) True by (rule log_read_raw_walk)
  have segs: "list_all2 (seg_holds lib) (lg_segments l @ [act]) (css @ [cs])" using act(2,3) by (simp add: list_all2_appendI)
  have ok: "acc_ok lim (raw_start f m)" using True by (simp add: acc_ok_def raw_start_def)
  show ?thesis using raw_segments_run [OF segs act(4) _ ok a(1)] assms(2) a(2) xs True by (simp add: raw_start_def)
next
  case False
  then have "rr_bytes r = []" using assms(3) by (auto simp: log_read_raw_def rr_empty_def split: if_splits)
  then show ?thesis using False by (intro exI [of _ "[]"]) simp
qed

section \<open>Sample logs\<close>

definition base_config :: log_config where
  "base_config = \<lparr>lc_timestamp_scan_window = 1048576, lc_segment_size = 1073741824, lc_segment_roll_interval = 604800000,
     lc_retention = None, lc_retention_size = None, lc_index_interval = 4096, lc_validate_on_open = True,
     lc_remote_storage_enable = False\<rparr>"

definition log_at :: "int list list \<Rightarrow> int list \<Rightarrow> partition_log" where
  "log_at sealed active = \<lparr>lg_config = base_config, lg_segments = map (\<lambda>offs. seg_seal (segment_at offs)) sealed,
     lg_active = Some (segment_at active), lg_start_offset_override = None, lg_lso = last active + 1, lg_pending = [],
     lg_pending_stamp_ranges = [], lg_coordinator_epochs = [], lg_producer_state = [],
     lg_active_txn_index = \<lparr>tx_file = [], tx_entries = []\<rparr>, lg_epoch_checkpoint = \<lparr>lec_file = None, lec_entries = []\<rparr>,
     lg_reconciled_frontier = 0, lg_txn_files = [], lg_snapshots = []\<rparr>"

lemma segment_at_fields [simp]: "sg_base_offset (segment_at offs) = hd offs" "sg_last_offset (segment_at offs) = last offs"
  "\<not> sg_sealed (segment_at offs)" "sg_log (segment_at offs) = cells_bytes (cells_at offs)"
  by (simp_all add: segment_at_def)

lemma log_at_fields [simp]: "lg_active (log_at ss a) = Some (segment_at a)" "lg_segments (log_at ss a) = map (\<lambda>offs. seg_seal (segment_at offs)) ss"
  "lg_config (log_at ss a) = base_config" "lg_start_offset_override (log_at ss a) = None"
  by (simp_all add: log_at_def)

lemma log_at_two: "log_holds plain_lib (log_at [[0, 1]] [2]) [cells_at [0, 1]] (cells_at [2])"
proof -
  have "seg_holds plain_lib (segment_at [0, 1]) (cells_at [0, 1])" "seg_holds plain_lib (segment_at [2]) (cells_at [2])"
    by (rule segment_at_holds; simp add: int_width)+
  then show ?thesis by (simp add: log_holds_def seg_seal_def) (simp add: seg_holds_def)
qed

lemma log_at_contents: "log_contents plain_lib (log_at [[0, 1]] [2]) (cells_at [0, 1, 2])"
  using log_at_two unfolding log_contents_def by (force simp: cells_at_def)

text \<open>A read that starts at or below the first offset of a segment skips nothing.\<close>

lemma read_raw_from_start:
  assumes "seg_holds lib s cs" and "0 \<le> f" and "f \<le> sg_base_offset s" and "f \<le> sg_last_offset s" and "f < lim"
  shows "seg_read_raw s f lim m = Inr (raw_result (raw_cells (max m HEADER_LEN) m 0 (visible_cells f lim cs)))"
proof -
  note h = seg_holdsD [OF assms(1)]
  have "i64_wrapping_sub f (sg_base_offset s) = f - sg_base_offset s"
    using assms(2,3) h(2) by (intro i64_wrapping_sub_ok) (simp add: int_width)
  then have rel: "target_rel s f = Some 0" using assms(3) by (simp add: target_rel_def u32_try_from_def)
  have "f \<le> rb_base_offset (fst c) \<and> rb_base_offset (fst c) \<le> batch_last (fst c)" if "c \<in> set cs" for c
    using offsets_ok_mem [OF h(5) that] assms(3) by simp
  then have none: "before f cs = []" by (cases cs) force+
  have max: "f \<le> i64_MAX" using assms(3) h(2) by simp
  obtain k where "before f cs = take k cs @ before f (drop k cs)"
    and "seg_read_raw s f lim m = Inr (raw_result (raw_cells (max m HEADER_LEN) m (length (cells_bytes (before f (drop k cs)))) (visible_cells f lim cs)))"
    using seg_read_raw_exact [OF assms(1,2) max assms(4,5) rel] by metis
  then show ?thesis using none by simp
qed

lemma log_append_total:
  assumes "lg_active l = Some s" and "\<not> sg_sealed s" and "length (sg_log s) < lc_segment_size (lg_config l)"
    and "0 \<le> rb_last_offset_delta b" and "i64_ok (log_end_offset l + rb_last_offset_delta b)"
    and "b' = b\<lparr>rb_base_offset := log_end_offset l\<rparr>" and "batch_encode lib b' = Some (Inr out)"
    and "write_batch s out (log_end_offset l) (batch_last b') (rb_max_timestamp b) (lc_index_interval (lg_config l)) = (Inr pos, s')"
  shows "\<exists>l'. log_append lib b l = Some (Inr (log_end_offset l), l')"
proof -
  have tail: "\<exists>t. data_producer_tail (rb_producer_id b') (rb_base_sequence b') (rb_last_offset_delta b') (rb_base_offset b') = Inr t"
    using assms(4-6) by (simp add: data_producer_tail_def i64_checked_add_def)
  have roll: "maybe_roll lib l = Some (Inr (), l)" using assms(1,3) by (simp add: maybe_roll_def)
  have app: "seg_append lib s b' (lc_index_interval (lg_config l)) = Some (Inr pos, s')"
    using assms(2,6-8) by (simp add: seg_append_def)
  have "\<exists>l2. update_owned_producer_entry b' l1 = Some (Inr (), l2)" for l1
    using tail by (auto simp: update_owned_producer_entry_def update_data_producer_entry_def Let_def split: option.splits)
  then have "\<exists>l'. append_preserving_offset lib b' l = Some (Inr (), l')"
    using tail roll app assms(1) by (auto simp: append_preserving_offset_def abind_def with_active_def aupdate_def)
  then show ?thesis using assms(6) by (auto simp: log_append_def Let_def abind_def note_epoch_def aresult_def split: option.splits)
qed

section \<open>Properties\<close>

text \<open>
  C3. The partition log implements a sequence of batches. Whatever segments it is split into, a
  successful append puts the batch at the end, at an offset above every other; retention, trimming and
  deletion only take batches off the front, and the last two only batches that end below their target;
  truncation keeps exactly the batches that end below its offset, also when the cut falls into a sealed
  segment; a reset empties the log; moving the log start or the append frontier leaves the data alone.
\<close>

theorem log_refines_batches:
  assumes "log_abs lib l st" and "op_fits lib op l" and "run_op lib op l = Some (Inr (), l')"
  shows "\<exists>st'. abs_op lib op st st' \<and> log_abs lib l' st'"
  using assms by (rule run_op_refines)

theorem log_refines_batches_witness:
  "\<exists>l' st'. run_op plain_lib (Append sample_batch) (log_at [[0, 1]] [2]) = Some (Inr (), l')
     \<and> adds (batch_at 3) (3, cells_at [0, 1, 2]) st' \<and> log_abs plain_lib l' st'"
proof -
  let ?l = "log_at [[0, 1]] [2]"
  have end3: "log_end_offset ?l = 3" by (simp add: log_end_offset_def int_width)
  have abs: "log_abs plain_lib ?l (3, cells_at [0, 1, 2])" using log_at_contents by (simp add: log_abs_def end3)
  have at3: "sample_batch\<lparr>rb_base_offset := 3\<rparr> = batch_at 3" by (simp add: batch_at_def)
  have fields: "rb_last_offset_delta (batch_at 3) = 0" "rb_last_offset_delta sample_batch = 0"
    by (simp_all add: batch_at_def sample_batch_def record_batch_default_def)
  have enc: "batch_encode plain_lib (batch_at 3) = Some (Inr (bytes_at 3))" by (rule encode_at)
  have fits: "op_fits plain_lib (Append sample_batch) ?l"
    using stored_at [of 3] by (simp add: end3 at3 batch_fits_def fields enc batch_at_offsets int_width)
  obtain pos s' where "write_batch (segment_at [2]) (bytes_at 3) 3 (batch_last (batch_at 3)) (rb_max_timestamp sample_batch) 4096 = (Inr pos, s')"
    by (simp add: write_batch_def segment_at_def cells_at_def batch_at_offsets u32_try_from_def oi_last_entry_def Let_def int_width)
  then obtain l' where "log_append plain_lib sample_batch ?l = Some (Inr 3, l')"
    using log_append_total [of ?l "segment_at [2]" sample_batch "batch_at 3" plain_lib "bytes_at 3" pos s'] enc fields
    by (auto simp: end3 at3 base_config_def cells_at_def int_width)
  then have run: "run_op plain_lib (Append sample_batch) ?l = Some (Inr (), l')" by (simp add: void_Inr)
  from log_refines_batches [OF abs fits run] show ?thesis using run by (simp add: at3)
qed

text \<open>
  C10. A raw fetch from a partition returns stored bytes only: whatever segments the log is split into
  and whatever the byte budget, the result is made of whole batches in log order, each reaching the
  fetch offset and starting below the limit offset. With a budget above the size of the log it is exactly
  all of them, so nothing above the limit (the high watermark or the last stable offset) leaks.
\<close>

theorem fetch_returns_stored:
  assumes "log_contents lib l xs" and "0 \<le> f" and "log_read_raw l f lim m = Inr r"
  shows "\<exists>ys. subseq ys (wanted f lim xs) \<and> rr_bytes r = cells_bytes ys
    \<and> (f < lim \<and> length (cells_bytes xs) < m \<longrightarrow> ys = wanted f lim xs)"
  using assms by (rule log_read_raw_run)

theorem fetch_returns_stored_witness:
  "\<exists>r. log_read_raw (log_at [[0, 1]] [2]) 0 3 1000 = Inr r \<and> rr_bytes r = bytes_at 0 @ bytes_at 1 @ bytes_at 2"
proof -
  have holds: "seg_holds plain_lib (seg_seal (segment_at [0, 1])) (cells_at [0, 1])" "seg_holds plain_lib (segment_at [2]) (cells_at [2])"
    by (simp_all add: segment_at_holds int_width)
  have vis: "visible_cells 0 3 (cells_at [0, 1]) = cells_at [0, 1]" "visible_cells 2 3 (cells_at [2]) = cells_at [2]"
    by (simp_all add: visible_cells_def cells_at_def batch_at_offsets int_width)
  have "raw_cells 1000 1000 0 (cells_at [0, 1]) = cells_at [0, 1]" "raw_cells 858 858 0 (cells_at [2]) = cells_at [2]"
    by (simp_all add: raw_cells_def cells_at_def HEADER_LEN_def)
  then have "seg_read_raw (seg_seal (segment_at [0, 1])) 0 3 1000 = Inr (raw_result (cells_at [0, 1]))"
    and "seg_read_raw (segment_at [2]) 2 3 858 = Inr (raw_result (cells_at [2]))"
    using read_raw_from_start [OF holds(1), of 0 3 1000] read_raw_from_start [OF holds(2), of 2 3 858] vis
    by (simp_all add: HEADER_LEN_def seg_seal_def)
  moreover have "bytes_at off \<noteq> []" for off using length_bytes_at [of off] by fastforce
  ultimately obtain r where r: "log_read_raw (log_at [[0, 1]] [2]) 0 3 1000 = Inr r"
    by (simp add: log_read_raw_def log_start_offset_def seg_seal_def raw_acc_add_def raw_result_def cells_at_def rsr_is_empty_def
        HEADER_LEN_def batch_at_offsets int_width Let_def)
  have "wanted 0 3 (cells_at [0, 1, 2]) = cells_at [0, 1, 2]"
    by (simp add: wanted_def cells_at_def batch_at_offsets int_width)
  then show ?thesis using r fetch_returns_stored [OF log_at_contents _ r] by (auto simp: cells_at_def)
qed

text \<open>The walk passes over the segments that end below the fetch offset, and then stands at the next one.\<close>

lemma raw_segments_skip:
  "list_all (\<lambda>t. sg_last_offset t < ra_current a) ts \<Longrightarrow> \<not> ra_done a \<Longrightarrow> raw_segments (ts @ ss) lim a = raw_segments ss lim a"
  by (induction ts) auto

lemma wanted_prefix_facts:
  assumes "seg_holds lib s ds" and "prefix ys (wanted f lim ds)" and "ys \<noteq> []" and "0 \<le> f"
  shows "cells_bytes ys \<noteq> []" and "batch_last (fst (last ys)) \<le> sg_last_offset s"
    and "f \<le> batch_last (fst (last ys))" and "i64_wrapping_add (batch_last (fst (last ys))) 1 = batch_last (fst (last ys)) + 1"
proof -
  note h = seg_holdsD [OF assms(1)]
  have mem: "c \<in> set ds \<and> f \<le> batch_last (fst c)" if "c \<in> set ys" for c
    using set_mono_prefix [OF assms(2)] that by (auto simp: wanted_def)
  show "cells_bytes ys \<noteq> []"
    using assms(3) mem [of "hd ys"] h(4) stored_length [of lib] by (cases ys) (fastforce simp: list_all_iff)+
  show last: "f \<le> batch_last (fst (last ys))" using mem [of "last ys"] assms(3) by simp
  show "batch_last (fst (last ys)) \<le> sg_last_offset s" using mem [of "last ys"] assms(3) end_of_ge [OF h(5)] h(6) by simp
  show "i64_wrapping_add (batch_last (fst (last ys))) 1 = batch_last (fst (last ys)) + 1"
    using last mem [of "last ys"] assms(3,4) offsets_ok_mem [OF h(5), of "last ys"] by (intro i64_wrapping_add_ok) (simp add: int_width)
qed

text \<open>A fetch that starts in the last sealed segment: what that segment gives, and what the active one adds while budget is left.\<close>

lemma log_read_raw_two:
  assumes "lg_segments l = ts @ [s]" and "lg_active l = Some a" and "list_all (\<lambda>t. sg_last_offset t < f) ts"
    and "log_start_offset l \<le> f" and "f \<le> sg_last_offset s" and "f < lim"
    and "seg_read_raw s f lim (max m HEADER_LEN) = Inr (raw_result ys)" and "ys \<noteq> []" and "cells_bytes ys \<noteq> []"
    and "cur = i64_wrapping_add (batch_last (fst (last ys))) 1" and "cur < lim" and "cur \<le> sg_last_offset a"
    and "length (cells_bytes ys) < m \<Longrightarrow> seg_read_raw a cur lim (max (m - length (cells_bytes ys)) HEADER_LEN) = Inr (raw_result zs)"
    and "m \<le> length (cells_bytes ys) \<Longrightarrow> zs = []"
  shows "\<exists>r. log_read_raw l f lim m = Inr r \<and> rr_bytes r = cells_bytes (ys @ zs)"
proof -
  define a1 where "a1 = raw_acc_add (raw_result ys) lim (raw_start f m)"
  have walk: "raw_segments (lg_segments l) lim (raw_start f m) = Inr a1"
    using raw_segments_skip [of "raw_start f m" ts "[s]" lim] assms(1,3,5,7) by (simp add: raw_start_def a1_def not_less)
  have a1: "ra_chunks a1 = [cells_bytes ys]" "ra_remaining a1 = m - length (cells_bytes ys)" "ra_current a1 = cur" "ra_got_first a1"
    using assms(8-10) by (simp_all add: a1_def raw_acc_add_def raw_start_def raw_result_def rsr_is_empty_def Let_def)
  have empty: "raw_acc_add rsr_empty lim a1 = a1" by (simp add: raw_acc_add_def rsr_is_empty_def rsr_empty_def)
  have "\<exists>r. log_read_raw l f lim m = Inr r \<and> rr_bytes r = concat (ra_chunks (raw_acc_add (raw_result zs) lim a1))"
    using walk assms(2,4,6,11-14) a1 empty
    by (auto simp: log_read_raw_def raw_start_def [symmetric] Let_def raw_result_def [of "[]"] not_le)
  moreover have "concat (ra_chunks (raw_acc_add (raw_result zs) lim a1)) = cells_bytes (ys @ zs)"
    by (simp add: raw_acc_add_def raw_result_def rsr_is_empty_def rsr_empty_def a1 Let_def)
  ultimately show ?thesis by simp
qed

text \<open>A run that leaves a batch out of the first segment and then takes one of the second is not contiguous.\<close>

lemma hole_iff:
  assumes "prefix ys ws" and "prefix zs vs" and "set ws \<inter> set vs = {}"
  shows "prefix (ys @ zs) (ws @ vs) \<longleftrightarrow> ys = ws \<or> zs = []"
proof -
  obtain sk where ws: "ws = ys @ sk" using assms(1) by (auto simp: prefix_def)
  have "sk = []" if "prefix zs (sk @ vs)" "zs \<noteq> []"
  proof (rule ccontr)
    assume "sk \<noteq> []"
    then have "hd zs = hd sk" using that by (cases zs; cases sk) auto
    moreover have "hd zs \<in> set vs" using that(2) set_mono_prefix [OF assms(2)] by (cases zs) auto
    ultimately show False using assms(3) ws \<open>sk \<noteq> []\<close> by (cases sk) auto
  qed
  then show ?thesis using ws assms(2) by auto
qed

text \<open>
  C38. When a fetch is contiguous across a segment boundary. Let a fetch start in the last sealed segment, let that
  segment yield a run of batches, and let the limit lie beyond some batch of the active one. The fetch answers
  with that run followed by batches of the active segment, and it takes at least one of the latter exactly when
  the run did not use up the byte budget. So the answer has no hole if and only if the run reaches the end of the sealed
  segment or uses up the budget; otherwise the batches in between are passed over, and a reader that goes on
  after the last returned offset never sees them.
\<close>

theorem fetch_contiguous_iff:
  assumes "log_holds lib l (css @ [ds]) cs" and "lg_segments l = ts @ [s]" and "list_all (\<lambda>t. sg_last_offset t < f) ts"
    and "0 \<le> f" and "log_start_offset l \<le> f" and "f \<le> sg_last_offset s" and "wanted f lim cs \<noteq> []"
    and "seg_read_raw s f lim (max m HEADER_LEN) = Inr (raw_result ys)" and "prefix ys (wanted f lim ds)" and "ys \<noteq> []"
  shows "\<exists>r zs. log_read_raw l f lim m = Inr r \<and> rr_bytes r = cells_bytes (ys @ zs) \<and> prefix zs (wanted f lim cs)
    \<and> (zs = [] \<longleftrightarrow> m \<le> length (cells_bytes ys))
    \<and> (prefix (ys @ zs) (wanted f lim (ds @ cs)) \<longleftrightarrow> ys = wanted f lim ds \<or> m \<le> length (cells_bytes ys))"
proof -
  obtain a where a: "lg_active l = Some a" "seg_holds lib a cs" "list_all2 (seg_holds lib) (ts @ [s]) (css @ [ds])" "chained (ts @ [s, a])"
    using assms(1,2) by (auto elim: log_holdsE)
  have s: "seg_holds lib s ds" using a(3) list_all2_lengthD [OF a(3)] by (auto simp: list_all2_append)
  have base: "sg_last_offset s + 1 = sg_base_offset a" using a(4) by (auto simp: chained_append)
  note run = wanted_prefix_facts [OF s assms(9,10,4)]
  let ?cur = "batch_last (fst (last ys)) + 1"
  have cs: "sg_base_offset a \<le> rb_base_offset (fst c) \<and> rb_base_offset (fst c) \<le> batch_last (fst c) \<and> batch_last (fst c) \<le> sg_last_offset a"
    if "c \<in> set cs" for c
    using offsets_ok_mem [OF seg_holdsD(5) [OF a(2)] that] end_of_ge [OF seg_holdsD(5) [OF a(2)] that] seg_holdsD(6) [OF a(2)] by simp
  obtain c where c: "c \<in> set cs" "rb_base_offset (fst c) < lim" using assms(7) by (auto simp: wanted_def filter_empty_conv)
  have cur: "0 \<le> ?cur" "?cur \<le> sg_base_offset a" "?cur \<le> sg_last_offset a" "?cur < lim"
    using run base cs [OF c(1)] c(2) assms(4) by simp_all
  have vis: "visible_cells ?cur lim cs = wanted f lim cs"
    unfolding visible_wanted [OF seg_holdsD(5) [OF a(2)]]
    by (rule wanted_same [where g = "sg_base_offset a"]) (use cs cur(2) base assms(6) in auto)
  let ?left = "m - length (cells_bytes ys)"
  define zs where "zs = (if m \<le> length (cells_bytes ys) then [] else raw_cells (max ?left HEADER_LEN) (max ?left HEADER_LEN) 0 (wanted f lim cs))"
  have read: "seg_read_raw a ?cur lim (max ?left HEADER_LEN) = Inr (raw_result zs)" if "length (cells_bytes ys) < m"
    using read_raw_from_start [OF a(2) cur, of "max ?left HEADER_LEN"] that by (simp add: vis zs_def max.assoc)
  have zs: "prefix zs (wanted f lim cs)" "zs = [] \<longleftrightarrow> m \<le> length (cells_bytes ys)"
    using raw_cells_prefix raw_cells_nonempty [OF assms(7)] by (auto simp: zs_def)
  have "f < lim" using run(3) cur(4) by simp
  then have "\<exists>r. log_read_raw l f lim m = Inr r \<and> rr_bytes r = cells_bytes (ys @ zs)"
    using run(1,4) cur read zs(2) assms(10)
    by (intro log_read_raw_two [OF assms(2) a(1) assms(3,5,6) _ assms(8), where cur = ?cur]) simp_all
  moreover have "set (wanted f lim ds) \<inter> set (wanted f lim cs) = {}"
    using cs offsets_ok_mem [OF seg_holdsD(5) [OF s]] end_of_ge [OF seg_holdsD(5) [OF s]] seg_holdsD(6) [OF s] base
    by (fastforce simp: wanted_def)
  then have "prefix (ys @ zs) (wanted f lim (ds @ cs)) \<longleftrightarrow> ys = wanted f lim ds \<or> zs = []"
    using hole_iff [OF assms(9) zs(1)] by simp
  ultimately show ?thesis using zs by auto
qed

text \<open>
  The batches 0 and 1 in a sealed segment and 2 in the active one: a fetch from 0 with a budget of 100 bytes
  returns batch 0 and then batch 2.
\<close>

theorem fetch_contiguous_iff_witness:
  "\<exists>r. log_read_raw (log_at [[0, 1]] [2]) 0 3 100 = Inr r \<and> rr_bytes r = bytes_at 0 @ bytes_at 2
     \<and> \<not> prefix (cells_at [0, 2]) (cells_at [0, 1, 2])"
proof -
  let ?s = "seg_seal (segment_at [0, 1])"
  have holds: "seg_holds plain_lib ?s (cells_at [0, 1])" by (simp add: segment_at_holds int_width)
  have want: "wanted 0 3 (cells_at [0, 1]) = cells_at [0, 1]" "wanted 0 3 (cells_at [2]) = cells_at [2]"
    by (simp_all add: wanted_def cells_at_def batch_at_offsets int_width)
  have vis: "visible_cells 0 3 (cells_at [0, 1]) = cells_at [0, 1]"
    by (simp add: visible_cells_def cells_at_def batch_at_offsets int_width)
  have "raw_cells 100 100 0 (cells_at [0, 1]) = cells_at [0]" by (simp add: raw_cells_def cells_at_def HEADER_LEN_def)
  then have read: "seg_read_raw ?s 0 3 (max 100 HEADER_LEN) = Inr (raw_result (cells_at [0]))"
    using read_raw_from_start [OF holds, of 0 3 100] vis by (simp add: HEADER_LEN_def seg_seal_def)
  have "\<exists>r zs. log_read_raw (log_at [[0, 1]] [2]) 0 3 100 = Inr r \<and> rr_bytes r = cells_bytes (cells_at [0] @ zs)
      \<and> prefix zs (wanted 0 3 (cells_at [2])) \<and> (zs = [] \<longleftrightarrow> 100 \<le> length (cells_bytes (cells_at [0])))
      \<and> (prefix (cells_at [0] @ zs) (wanted 0 3 (cells_at [0, 1] @ cells_at [2]))
          \<longleftrightarrow> cells_at [0] = wanted 0 3 (cells_at [0, 1]) \<or> 100 \<le> length (cells_bytes (cells_at [0])))"
    by (rule fetch_contiguous_iff [where css = "[]" and ts = "[]" and s = ?s])
       (use log_at_two read want in \<open>simp_all add: log_start_offset_def seg_seal_def cells_at_def\<close>)
  then obtain r zs where r: "log_read_raw (log_at [[0, 1]] [2]) 0 3 100 = Inr r" "rr_bytes r = cells_bytes (cells_at [0] @ zs)"
    and zs: "prefix zs (cells_at [2])" "zs \<noteq> []" and "\<not> prefix (cells_at [0] @ zs) (wanted 0 3 (cells_at [0, 1] @ cells_at [2]))"
    unfolding want by (auto simp: cells_at_def)
  moreover have "zs = cells_at [2]" using zs by (auto simp: cells_at_def prefix_Cons)
  moreover have "wanted 0 3 (cells_at [0, 1] @ cells_at [2]) = cells_at [0, 1, 2]"
    by (simp add: wanted_def cells_at_def batch_at_offsets int_width)
  ultimately show ?thesis by (auto simp: cells_at_def)
qed

end
