(* ===== verification/Log_Transactions.thy ===== *)
theory Log_Transactions
  imports Log_Contents
begin

text \<open>
  Transactions in the partition log: the last stable offset against the sequence of appended batches,
  and what is lost of the aborted transactions at a segment roll.
\<close>

section \<open>The last stable offset\<close>

text \<open>
  The specification: what a sequence of appended batches means for transactions. A data batch of a
  transaction opens it at the batch's offset unless it is open, a marker ends it.
\<close>

datatype txn_event = TxnData int int | TxnEnd int | Plain

fun open_txns :: "txn_event list \<Rightarrow> int \<Rightarrow> int option" where
  "open_txns [] = Map.empty"
| "open_txns (TxnData pid off # h) = (\<lambda>p. if p = pid \<and> open_txns h pid = None then Some off else open_txns h p)"
| "open_txns (TxnEnd pid # h) = (open_txns h)(pid := None)"
| "open_txns (Plain # h) = open_txns h"

definition event_of :: "record_batch \<Rightarrow> txn_event" where
  "event_of b = (if is_control_batch (rb_attributes b) then TxnEnd (rb_producer_id b)
     else if is_transactional (rb_attributes b) \<and> 0 \<le> rb_producer_id b then TxnData (rb_producer_id b) (rb_base_offset b)
     else Plain)"

definition verbatim_event :: "verbatim_batch \<Rightarrow> int \<Rightarrow> txn_event" where
  "verbatim_event v base = (if vbt_is_transactional v \<and> 0 \<le> vbt_producer_id v then TxnData (vbt_producer_id v) base else Plain)"

text \<open>
  A history of appends, newest first, pairs each event with the log end after it. The log end after a history,
  and the longest part of it, from the oldest append on, that leaves no transaction open.
\<close>

type_synonym history = "(txn_event \<times> int) list"

abbreviation open_of :: "history \<Rightarrow> int \<Rightarrow> int option" where
  "open_of h \<equiv> open_txns (map fst h)"

fun end_after :: "int \<Rightarrow> history \<Rightarrow> int" where
  "end_after start [] = start"
| "end_after start ((ev, e) # h) = e"

fun closed_part :: "history \<Rightarrow> history" where
  "closed_part [] = []"
| "closed_part (x # h) = (if open_of (x # h) = Map.empty then x # h else closed_part h)"

declare closed_part.simps(2) [simp del]

lemma closed_part_none: "open_of h = Map.empty \<Longrightarrow> closed_part h = h"
  by (cases h) (simp_all add: closed_part.simps(2))

lemma closed_part_some: "open_of (x # h) \<noteq> Map.empty \<Longrightarrow> closed_part (x # h) = closed_part h"
  by (simp add: closed_part.simps(2))

lemma closed_part_longest:
  "suffix (closed_part h) h \<and> open_of (closed_part h) = Map.empty
     \<and> (\<forall>h'. suffix h' h \<and> length (closed_part h) < length h' \<longrightarrow> open_of h' \<noteq> Map.empty)"
proof (induction h)
  case (Cons x h)
  show ?case
  proof (cases "open_of (x # h) = Map.empty")
    case True
    then show ?thesis by (auto simp: closed_part.simps(2) dest!: suffix_length_le)
  next
    case False
    then have "closed_part (x # h) = closed_part h" by (rule closed_part_some)
    then show ?thesis using Cons False by (auto simp only: suffix_Cons)
  qed
qed simp

text \<open>The log against its history: the open transactions and where the last stable offset stands.\<close>

definition lso_inv :: "partition_log \<Rightarrow> int \<Rightarrow> history \<Rightarrow> bool" where
  "lso_inv l start h \<longleftrightarrow> bt_wf (lg_pending l) \<and> bt_get (lg_pending l) = open_of h \<and> lg_lso l \<le> log_end_offset l
     \<and> (\<forall>pid off. open_of h pid = Some off \<longrightarrow> lg_lso l \<le> off \<and> off < log_end_offset l)
     \<and> end_after start h = log_end_offset l \<and> lg_lso l = end_after start (closed_part h)"

lemma lso_inv_same:
  assumes "lso_inv l start h" and "same_txn l l'"
  shows "lso_inv l' start h"
proof -
  have same: "lg_pending l' = lg_pending l" "lg_lso l' = lg_lso l" "log_end_offset l' = log_end_offset l"
    using assms(2) by (simp_all add: same_txn_def)
  show ?thesis using assms(1) unfolding lso_inv_def same .
qed

lemma lso_inv_later:
  assumes "lso_inv l start ((ev, log_end_offset l) # h)" and "same_txn l l'"
  shows "lso_inv l' start ((ev, log_end_offset l') # h)"
  using lso_inv_same [OF assms] assms(2) by (simp add: same_txn_def)

lemma pending_empty: "bt_get m = Map.empty \<longleftrightarrow> m = []"
  by (cases m) (auto simp: bt_get_def fun_eq_iff)

definition track_event :: "txn_event \<Rightarrow> partition_log \<Rightarrow> partition_log" where
  "track_event ev l = (case ev of
     TxnData pid off \<Rightarrow> l\<lparr>lg_pending := bt_or_insert (lg_pending l) pid off\<rparr>
   | TxnEnd pid \<Rightarrow> advance_lso (l\<lparr>lg_pending := bt_remove (lg_pending l) pid\<rparr>)
   | Plain \<Rightarrow> advance_lso l)"

lemma track_batch_event: "same_txn (track_event (event_of b) l) (track_batch b l)"
  by (auto simp: same_txn_def track_event_def event_of_def track_batch_def advance_lso_def record_abort_def Let_def
      log_end_offset_def split: option.splits)

lemma advance_lso_pending [simp]: "lg_pending (advance_lso l) = lg_pending l"
  by (simp add: advance_lso_def)

lemma track_event_end: "log_end_offset (track_event ev l) = log_end_offset l"
  by (cases ev) (simp_all add: track_event_def advance_lso_def log_end_offset_def)

lemma lso_inv_advance:
  assumes "bt_wf (lg_pending l)" and "bt_get (lg_pending l) = open_of ((ev, log_end_offset l) # h)" and "lg_lso l \<le> log_end_offset l"
    and "\<And>pid off. open_of ((ev, log_end_offset l) # h) pid = Some off \<Longrightarrow> lg_lso l \<le> off \<and> off < log_end_offset l"
    and "lg_lso l = end_after start (closed_part h)"
  shows "lso_inv (advance_lso l) start ((ev, log_end_offset l) # h)"
proof (cases "lg_pending l = []")
  case True
  then have none: "open_of ((ev, log_end_offset l) # h) = Map.empty" using assms(2) by (simp add: bt_get_def fun_eq_iff)
  then have "closed_part ((ev, log_end_offset l) # h) = (ev, log_end_offset l) # h" by (rule closed_part_none)
  then show ?thesis using True assms(1) none
    by (simp add: lso_inv_def advance_lso_def log_end_offset_def bt_get_def fun_eq_iff)
next
  case False
  then have "open_of ((ev, log_end_offset l) # h) \<noteq> Map.empty" using assms(2) pending_empty [of "lg_pending l"] by simp
  then have "closed_part ((ev, log_end_offset l) # h) = closed_part h" by (rule closed_part_some)
  then show ?thesis using assms False by (simp add: lso_inv_def advance_lso_def)
qed

text \<open>One append: the log end moves up to the batch, then the bookkeeping runs.\<close>

lemma lso_inv_track:
  assumes "lso_inv l start h" and "lg_pending l1 = lg_pending l" and "lg_lso l1 = lg_lso l"
    and "log_end_offset l \<le> base" and "base < log_end_offset l1"
    and "\<And>pid off. ev = TxnData pid off \<Longrightarrow> off = base"
  shows "lso_inv (track_event ev l1) start ((ev, log_end_offset l1) # h)"
proof -
  have inv: "bt_wf (lg_pending l)" "bt_get (lg_pending l) = open_of h" "lg_lso l \<le> log_end_offset l"
    "lg_lso l = end_after start (closed_part h)"
    using assms(1) by (simp_all add: lso_inv_def)
  have starts: "lg_lso l1 \<le> off \<and> off < log_end_offset l1" if "open_of h pid = Some off" for pid off
    using assms that by (fastforce simp: lso_inv_def)
  have wf: "bt_wf (lg_pending l1)" "lg_lso l1 \<le> log_end_offset l1" using inv assms by simp_all
  let ?h = "(ev, log_end_offset l1) # h"
  show ?thesis
  proof (cases ev)
    case (TxnData pid off)
    define l2 where "l2 = track_event ev l1"
    have l2: "lg_pending l2 = bt_or_insert (lg_pending l) pid off" "lg_lso l2 = lg_lso l1" "log_end_offset l2 = log_end_offset l1"
      by (simp_all add: l2_def TxnData track_event_def log_end_offset_def assms(2))
    have get: "bt_get (lg_pending l2) = open_of ?h"
      using inv(1,2) by (auto simp: l2 TxnData fun_eq_iff)
    have "bt_get (lg_pending l2) pid \<noteq> None" using inv(1) by (simp add: l2)
    then have "open_of ?h \<noteq> Map.empty" unfolding get by (auto simp: fun_eq_iff)
    then have "closed_part ?h = closed_part h" by (rule closed_part_some)
    moreover have "lg_lso l2 \<le> o' \<and> o' < log_end_offset l2" if "open_of ?h p = Some o'" for p o'
    proof (cases "p = pid \<and> open_of h pid = None")
      case True
      then have "o' = base" using that assms(6) [OF TxnData] by (simp add: TxnData)
      then show ?thesis using assms inv(3) by (simp add: l2)
    next
      case False
      then have "open_of h p = Some o'" using that by (auto simp: TxnData split: if_splits)
      then show ?thesis using starts by (simp add: l2)
    qed
    ultimately have "lso_inv l2 start ?h" using get inv wf(2) assms(3) by (auto simp: lso_inv_def l2)
    then show ?thesis by (simp add: l2_def)
  next
    case (TxnEnd pid)
    let ?l = "l1\<lparr>lg_pending := bt_remove (lg_pending l1) pid\<rparr>"
    have end_l: "log_end_offset ?l = log_end_offset l1" by (simp add: log_end_offset_def)
    have "lso_inv (advance_lso ?l) start ((ev, log_end_offset ?l) # h)"
    proof (rule lso_inv_advance)
      show "bt_get (lg_pending ?l) = open_of ((ev, log_end_offset ?l) # h)" using inv(2) by (simp add: TxnEnd assms(2) fun_eq_iff)
      show "lg_lso ?l \<le> off \<and> off < log_end_offset ?l" if "open_of ((ev, log_end_offset ?l) # h) p = Some off" for p off
        using starts that by (auto simp: TxnEnd end_l split: if_splits)
    qed (use wf inv(4) assms(3) end_l in simp_all)
    then show ?thesis by (simp add: TxnEnd track_event_def end_l)
  next
    case Plain
    then show ?thesis using lso_inv_advance [of l1 ev h start] wf inv(2,4) starts assms(2,3) by (simp add: track_event_def)
  qed
qed

lemma append_preserving_lso:
  assumes "lso_inv l start h" and "append_preserving_offset lib b l = Some (Inr (), l')"
    and "log_end_offset l \<le> rb_base_offset b" and "0 \<le> rb_last_offset_delta b"
    and "rb_base_offset b + rb_last_offset_delta b < i64_MAX"
  shows "lso_inv l' start ((event_of b, log_end_offset l') # h)" and "log_end_offset l' = rb_base_offset b + rb_last_offset_delta b + 1"
proof -
  obtain l1 l2 where l1: "maybe_roll lib l = Some (Inr (), l1)"
    and l2: "with_active (\<lambda>s. seg_append lib s b (lc_index_interval (lg_config l1))) l1 = Some (Inr (), l2)"
    and l': "update_owned_producer_entry b (track_batch b l2) = Some (Inr (), l')"
    using assms(2) unfolding append_preserving_offset_def
    by (elim abind_InrE) (auto simp: map_sum_def split: sum.splits)
  have same1: "same_txn l l1" using l1 by (rule maybe_roll_same)
  obtain s s' pos where "seg_append lib s b (lc_index_interval (lg_config l1)) = Some (Inr pos, s')" "l2 = l1\<lparr>lg_active := Some s'\<rparr>"
    using l2 by (rule with_active_Inr)
  then have end2: "log_end_offset l2 = i64_wrapping_add (batch_last b) 1" "lg_pending l2 = lg_pending l1" "lg_lso l2 = lg_lso l1"
    using seg_append_last by (auto simp: log_end_offset_def)
  have lo: "i64_MIN \<le> rb_base_offset b" using assms(3) log_end_ok [of l] by (simp add: i64_ok_def)
  then have last: "batch_last b = rb_base_offset b + rb_last_offset_delta b"
    using assms(4,5) by (simp add: batch_last_def i64_ok_def)
  then have end2': "log_end_offset l2 = rb_base_offset b + rb_last_offset_delta b + 1"
    using assms(4,5) lo end2(1) by (simp add: i64_ok_def)
  have "lso_inv l1 start h" using assms(1) same1 by (rule lso_inv_same)
  moreover have "log_end_offset l1 \<le> rb_base_offset b" using assms(3) same1 by (simp add: same_txn_def)
  ultimately have "lso_inv (track_event (event_of b) l2) start ((event_of b, log_end_offset l2) # h)"
    using end2 end2' assms(4) by (intro lso_inv_track [of l1 start h l2 "rb_base_offset b"]) (auto simp: event_of_def split: if_splits)
  then have "lso_inv (track_batch b l2) start ((event_of b, log_end_offset l2) # h)" by (rule lso_inv_same [OF _ track_batch_event])
  moreover have end3: "log_end_offset (track_batch b l2) = log_end_offset l2"
    using track_batch_event [of b l2] track_event_end by (simp add: same_txn_def)
  ultimately have "lso_inv (track_batch b l2) start ((event_of b, log_end_offset (track_batch b l2)) # h)" by simp
  then show "lso_inv l' start ((event_of b, log_end_offset l') # h)" using update_owned_same [OF l'] by (rule lso_inv_later)
  from end3 show "log_end_offset l' = rb_base_offset b + rb_last_offset_delta b + 1"
    using update_owned_same [OF l'] end2' by (simp add: same_txn_def)
qed

lemma append_verbatim_lso:
  assumes "lso_inv l start h" and "append_verbatim_preserving_offset lib v base l = Some (Inr (), l')"
    and "log_end_offset l \<le> base" and "0 \<le> vbt_last_offset_delta v"
    and "base + vbt_last_offset_delta v < i64_MAX"
  shows "lso_inv l' start ((verbatim_event v base, log_end_offset l') # h)" and "log_end_offset l' = base + vbt_last_offset_delta v + 1"
proof -
  let ?ev = "verbatim_event v base"
  let ?tr = "vbt_is_transactional v \<and> 0 \<le> vbt_producer_id v"
  define tracked where "tracked l = (if ?tr
      then l\<lparr>lg_pending := bt_or_insert (lg_pending l) (vbt_producer_id v) base,
             lg_pending_stamp_ranges := push_range (lg_pending_stamp_ranges l) (vbt_producer_id v)
               (base, i64_wrapping_add base (vbt_last_offset_delta v))\<rparr>
      else advance_lso l)" for l
  obtain l1 l2 where l1: "maybe_roll lib l = Some (Inr (), l1)"
    and l2: "with_active (\<lambda>s. seg_append_verbatim s (vbt_bytes v) base (vbt_last_offset_delta v) (vbt_max_timestamp v)
                 (vbt_leader_epoch v) (lc_index_interval (lg_config l1))) l1 = Some (Inr (), l2)"
    and l': "update_data_producer_entry (vbt_producer_id v) (vbt_producer_epoch v) (vbt_base_sequence v) (vbt_last_offset_delta v) base
        (vbt_max_timestamp v) ?tr (tracked l2) = Some (Inr (), l')"
    using assms(2) unfolding append_verbatim_preserving_offset_def Let_def tracked_def [symmetric]
    by (elim abind_InrE) (auto simp: map_sum_def split: sum.splits)
  have l3: "same_txn (track_event ?ev l2) (tracked l2)"
    by (simp add: tracked_def track_event_def verbatim_event_def same_txn_def log_end_offset_def)
  have same1: "same_txn l l1" using l1 by (rule maybe_roll_same)
  obtain s s' pos where "seg_append_verbatim s (vbt_bytes v) base (vbt_last_offset_delta v) (vbt_max_timestamp v)
                 (vbt_leader_epoch v) (lc_index_interval (lg_config l1)) = Some (Inr pos, s')" "l2 = l1\<lparr>lg_active := Some s'\<rparr>"
    using l2 by (rule with_active_Inr)
  then have end2: "log_end_offset l2 = i64_wrapping_add (i64_wrapping_add base (vbt_last_offset_delta v)) 1"
    "lg_pending l2 = lg_pending l1" "lg_lso l2 = lg_lso l1"
    using seg_append_verbatim_last by (auto simp: log_end_offset_def)
  have lo: "i64_MIN \<le> base" using assms(3) log_end_ok [of l] by (simp add: i64_ok_def)
  then have end2': "log_end_offset l2 = base + vbt_last_offset_delta v + 1"
    using assms(4,5) end2(1) by (simp add: i64_ok_def)
  have "lso_inv l1 start h" using assms(1) same1 by (rule lso_inv_same)
  moreover have "log_end_offset l1 \<le> base" using assms(3) same1 by (simp add: same_txn_def)
  ultimately have "lso_inv (track_event ?ev l2) start ((?ev, log_end_offset l2) # h)"
    using end2 end2' assms(4) by (intro lso_inv_track [of l1 start h l2 base]) (auto simp: verbatim_event_def split: if_splits)
  then have "lso_inv (tracked l2) start ((?ev, log_end_offset l2) # h)" using l3 by (rule lso_inv_same)
  moreover have "log_end_offset (tracked l2) = log_end_offset l2" using l3 track_event_end [of ?ev l2] by (simp add: same_txn_def)
  ultimately have "lso_inv (tracked l2) start ((?ev, log_end_offset (tracked l2)) # h)" by simp
  then show "lso_inv l' start ((?ev, log_end_offset l') # h)" using update_data_same [OF l'] by (rule lso_inv_later)
  show "log_end_offset l' = base + vbt_last_offset_delta v + 1"
    using update_data_same [OF l'] l3 end2' track_event_end [of ?ev l2] by (simp add: same_txn_def)
qed

lemma reset_lso:
  assumes "reset_to new_base l = Some (Inr (), l')"
  shows "lso_inv l' (log_end_offset l') []"
  using assms unfolding reset_to_def Let_def
  by (auto split: if_splits elim!: abind_InrE simp: lso_inv_def log_end_offset_def bt_wf_def bt_get_def fun_eq_iff)

text \<open>
  The runs of an open log: appends of batches with a non-negative offset delta that fit below the
  largest offset, and the maintenance operations. The list holds the events of the appended batches,
  newest first.
\<close>

inductive log_run :: "batch_lib \<Rightarrow> partition_log \<Rightarrow> int \<Rightarrow> history \<Rightarrow> bool" for lib where
  run_empty: "lg_active l = Some (seg_create base) \<Longrightarrow> lg_pending l = [] \<Longrightarrow> lg_lso l = log_end_offset l \<Longrightarrow> log_run lib l (log_end_offset l) []"
| run_append: "log_run lib l start h \<Longrightarrow> log_append lib b l = Some (Inr base, l') \<Longrightarrow> 0 \<le> rb_last_offset_delta b
    \<Longrightarrow> base + rb_last_offset_delta b < i64_MAX \<Longrightarrow> log_run lib l' start ((event_of (b\<lparr>rb_base_offset := base\<rparr>), log_end_offset l') # h)"
| run_append_at: "log_run lib l start h \<Longrightarrow> append_at lib b base l = Some (Inr (), l') \<Longrightarrow> 0 \<le> rb_last_offset_delta b
    \<Longrightarrow> base + rb_last_offset_delta b < i64_MAX \<Longrightarrow> log_run lib l' start ((event_of (b\<lparr>rb_base_offset := base\<rparr>), log_end_offset l') # h)"
| run_verbatim: "log_run lib l start h \<Longrightarrow> append_verbatim lib v l = Some (Inr base, l') \<Longrightarrow> 0 \<le> vbt_last_offset_delta v
    \<Longrightarrow> base + vbt_last_offset_delta v < i64_MAX \<Longrightarrow> log_run lib l' start ((verbatim_event v base, log_end_offset l') # h)"
| run_verbatim_at: "log_run lib l start h \<Longrightarrow> append_verbatim_at lib v base l = Some (Inr base, l') \<Longrightarrow> 0 \<le> vbt_last_offset_delta v
    \<Longrightarrow> base + vbt_last_offset_delta v < i64_MAX \<Longrightarrow> log_run lib l' start ((verbatim_event v base, log_end_offset l') # h)"
| run_tick: "log_run lib l start h \<Longrightarrow> log_tick lib now l = Some (Inr (), l') \<Longrightarrow> log_run lib l' start h"
| run_trim: "log_run lib l start h \<Longrightarrow> trim_to_offset target l = Some (Inr r, l') \<Longrightarrow> log_run lib l' start h"
| run_delete: "log_run lib l start h \<Longrightarrow> delete_local_segments_through target l = Some (Inr n, l') \<Longrightarrow> log_run lib l' start h"
| run_set_start: "log_run lib l start h \<Longrightarrow> set_log_start_offset n l = Some (Inr (), l') \<Longrightarrow> log_run lib l' start h"
| run_reconcile: "log_run lib l start h \<Longrightarrow> log_run lib (reconcile_next_offset l frontier) start h"
| run_reset: "log_run lib l start h \<Longrightarrow> reset_to new_base l = Some (Inr (), l') \<Longrightarrow> log_run lib l' (log_end_offset l') []"

lemma log_append_lso:
  assumes "lso_inv l start h" and "log_append lib b l = Some (Inr base, l')" and "0 \<le> rb_last_offset_delta b"
    and "base + rb_last_offset_delta b < i64_MAX"
  shows "lso_inv l' start ((event_of (b\<lparr>rb_base_offset := base\<rparr>), log_end_offset l') # h)"
proof -
  obtain l1 where "base = log_end_offset l"
    and l1: "append_preserving_offset lib (b\<lparr>rb_base_offset := base\<rparr>) l = Some (Inr (), l1)"
    and l': "note_epoch (rb_partition_leader_epoch b) base l1 = Some (Inr (), l')"
    using assms(2) unfolding log_append_def Let_def by (elim abind_InrE) auto
  have "lso_inv l1 start ((event_of (b\<lparr>rb_base_offset := base\<rparr>), log_end_offset l1) # h)"
    using append_preserving_lso(1) [OF assms(1) l1] assms(3,4) \<open>base = _\<close> by simp
  then show ?thesis using note_epoch_same [OF l'] by (rule lso_inv_later)
qed

lemma append_at_lso:
  assumes "lso_inv l start h" and "append_at lib b base l = Some (Inr (), l')" and "0 \<le> rb_last_offset_delta b"
    and "base + rb_last_offset_delta b < i64_MAX"
  shows "lso_inv l' start ((event_of (b\<lparr>rb_base_offset := base\<rparr>), log_end_offset l') # h)"
proof -
  obtain l1 where "base = append_at_expected_offset l"
    and l1: "append_preserving_offset lib (b\<lparr>rb_base_offset := base\<rparr>) l = Some (Inr (), l1)"
    and l': "note_epoch (rb_partition_leader_epoch b) base l1 = Some (Inr (), l')"
    using assms(2) unfolding append_at_def Let_def by (auto split: if_splits elim!: abind_InrE)
  have "lso_inv l1 start ((event_of (b\<lparr>rb_base_offset := base\<rparr>), log_end_offset l1) # h)"
    using append_preserving_lso(1) [OF assms(1) l1] assms(3,4) \<open>base = _\<close> by (simp add: append_at_expected_offset_def)
  then show ?thesis using note_epoch_same [OF l'] by (rule lso_inv_later)
qed

lemma append_verbatim_assigned_lso:
  assumes "lso_inv l start h" and "append_verbatim lib v l = Some (Inr base, l')" and "0 \<le> vbt_last_offset_delta v"
    and "base + vbt_last_offset_delta v < i64_MAX"
  shows "lso_inv l' start ((verbatim_event v base, log_end_offset l') # h)"
proof -
  obtain l1 where "base = log_end_offset l"
    and l1: "append_verbatim_preserving_offset lib v base l = Some (Inr (), l1)"
    and l': "note_epoch (vbt_leader_epoch v) base l1 = Some (Inr (), l')"
    using assms(2) unfolding append_verbatim_def Let_def by (elim abind_InrE) auto
  have "lso_inv l1 start ((verbatim_event v base, log_end_offset l1) # h)"
    using append_verbatim_lso(1) [OF assms(1) l1] assms(3,4) \<open>base = _\<close> by simp
  then show ?thesis using note_epoch_same [OF l'] by (rule lso_inv_later)
qed

lemma append_verbatim_at_lso:
  assumes "lso_inv l start h" and "append_verbatim_at lib v base l = Some (Inr base, l')" and "0 \<le> vbt_last_offset_delta v"
    and "base + vbt_last_offset_delta v < i64_MAX"
  shows "lso_inv l' start ((verbatim_event v base, log_end_offset l') # h)"
proof -
  obtain l1 where "base = append_at_expected_offset l"
    and l1: "append_verbatim_preserving_offset lib v base l = Some (Inr (), l1)"
    and l': "note_epoch (vbt_leader_epoch v) base l1 = Some (Inr (), l')"
    using assms(2) unfolding append_verbatim_at_def Let_def by (auto split: if_splits elim!: abind_InrE)
  have "lso_inv l1 start ((verbatim_event v base, log_end_offset l1) # h)"
    using append_verbatim_lso(1) [OF assms(1) l1] assms(3,4) \<open>base = _\<close> by (simp add: append_at_expected_offset_def)
  then show ?thesis using note_epoch_same [OF l'] by (rule lso_inv_later)
qed

lemma reconcile_same: "same_txn l (reconcile_next_offset l frontier)"
  by (simp add: same_txn_def reconcile_next_offset_def log_end_offset_def)

lemma empty_lso: "lg_active l = Some (seg_create base) \<Longrightarrow> lg_pending l = [] \<Longrightarrow> lg_lso l = log_end_offset l \<Longrightarrow> lso_inv l (log_end_offset l) []"
  by (simp add: lso_inv_def bt_wf_def bt_get_def fun_eq_iff)

lemma log_run_lso: "log_run lib l start h \<Longrightarrow> lso_inv l start h"
  by (induction rule: log_run.induct)
     (blast intro: empty_lso log_append_lso append_at_lso append_verbatim_assigned_lso append_verbatim_at_lso reset_lso
       lso_inv_same log_tick_same trim_same delete_local_same set_start_same reconcile_same)+

section \<open>Aborted transactions and rolling\<close>

text \<open>The transaction index that answers queries is the one of the active segment.\<close>

lemma roll_forgets_aborted:
  assumes "roll_active_segment lib l = Some (Inr (), l')" and "bt_get (lg_txn_files l) (log_end_offset l) = None"
  shows "log_aborted_in_range l' from_off to_off = []"
proof -
  obtain old files where "start_segment (log_end_offset l)
       (l\<lparr>lg_snapshots := files, lg_active := None, lg_segments := lg_segments l @ [seg_seal old]\<rparr>) = Some (Inr (), l')"
    using assms(1) by (rule roll_Inr)
  from start_segment_Inr(5) [OF this] have "tx_open [] = Some (lg_active_txn_index l')" using assms(2) by simp
  then have "lg_active_txn_index l' = \<lparr>tx_file = [], tx_entries = []\<rparr>" by (simp add: tx_open_def rows_of_short ENTRY_BYTES_def)
  then show ?thesis by (simp add: log_aborted_in_range_def tx_aborted_in_range_def)
qed

text \<open>A marker that ends one of several open transactions does not move the last stable offset.\<close>

lemma marker_keeps_lso:
  assumes "bt_get (lg_pending l) other = Some off" and "other \<noteq> rb_producer_id b" and "is_control_batch (rb_attributes b)"
  shows "lg_lso (track_batch b l) = lg_lso l"
proof -
  have "bt_remove (lg_pending l) (rb_producer_id b) \<noteq> []"
    using assms(1,2) bt_get_remove [of "lg_pending l" "rb_producer_id b" other] by (auto simp: bt_get_def)
  then show ?thesis using assms(3) by (auto simp: track_batch_def advance_lso_def record_abort_def Let_def split: option.splits)
qed

section \<open>Properties\<close>


text \<open>An empty log, and a batch of a transaction.\<close>

definition empty_log :: partition_log where
  "empty_log = (log_at [] [0])\<lparr>lg_active := Some (seg_create 0), lg_lso := 0\<rparr>"

definition txn_batch :: record_batch where
  "txn_batch = sample_batch\<lparr>rb_attributes := 16, rb_producer_id := 7, rb_producer_epoch := 0, rb_base_sequence := 0\<rparr>"


end
