(* ===== verification/Kraft_Types.thy ===== *)
theory Kraft_Types
  imports Voters
begin

text \<open>
  The data of the consensus core: \<open>types.rs\<close>, \<open>role.rs\<close>, \<open>event.rs\<close> and \<open>action.rs\<close> of
  \<open>crates/kraft-core/src\<close>, one record or datatype per Rust type with the source's variants. A
  \<open>BTreeSet\<close> of node ids is a HOL set, a \<open>BTreeMap\<close> an ordered map of the prelude. The
  \<open>LogView\<close> trait is the record of its three methods; the locale \<open>log_view_laws\<close> is its contract, which
  \<open>Kraft_Log\<close> discharges for the metadata log.
\<close>

type_synonym sim_instant = u64
type_synonym epoch = u32

definition saturating_add_ms :: "sim_instant \<Rightarrow> u64 \<Rightarrow> sim_instant" where
  "saturating_add_ms t ms = u_saturating_add t ms"

record replica_key =
  rk_id :: node_id
  rk_directory_id :: uuid

record log_offset_metadata =
  lom_offset :: int
  lom_epoch :: epoch

record log_view =
  lv_end_offset :: int
  lv_last_epoch :: epoch
  lv_end_offset_for_epoch :: "epoch \<Rightarrow> int option"

record quorum_state =
  qs_cluster_id :: uuid
  qs_kraft_version :: u16
  qs_leader_epoch :: epoch
  qs_leader_id :: "node_id option"
  qs_voted_key :: "replica_key option"
  qs_voters :: voter_set

definition qs_bootstrap :: "uuid \<Rightarrow> voter_set \<Rightarrow> quorum_state" where
  "qs_bootstrap cluster_id voters =
     \<lparr>qs_cluster_id = cluster_id, qs_kraft_version = 0, qs_leader_epoch = 0,
      qs_leader_id = None, qs_voted_key = None, qs_voters = voters\<rparr>"

definition qs_majority :: "quorum_state \<Rightarrow> nat" where
  "qs_majority q = vs_len (qs_voters q) div 2 + 1"

record replica_progress =
  rp_fetch_offset :: int

definition replica_progress_default :: replica_progress where
  "replica_progress_default = \<lparr>rp_fetch_offset = 0\<rparr>"

datatype role =
    Unattached sim_instant
  | Voted sim_instant
  | Follower node_id sim_instant
  | Prospective "node_id set" sim_instant
  | Candidate "node_id set" sim_instant
  | Leader "(node_id, replica_progress) btree_map" int int
  | Resigned
  | Observer "node_id option" sim_instant

definition role_default :: role where
  "role_default = Unattached 0"

fun is_leader :: "role \<Rightarrow> bool" where
  "is_leader (Leader _ _ _) = True"
| "is_leader _ = False"

fun role_name :: "role \<Rightarrow> string" where
  "role_name (Unattached _) = ''Unattached''"
| "role_name (Voted _) = ''Voted''"
| "role_name (Follower _ _) = ''Follower''"
| "role_name (Prospective _ _) = ''Prospective''"
| "role_name (Candidate _ _) = ''Candidate''"
| "role_name (Leader _ _ _) = ''Leader''"
| "role_name Resigned = ''Resigned''"
| "role_name (Observer _ _) = ''Observer''"

record log_end =
  le_last_epoch :: epoch
  le_last_offset :: int

record vote_request =
  vr_from :: node_id
  vr_voter_id :: node_id
  vr_candidate_epoch :: epoch
  vr_candidate :: node_id
  vr_candidate_log_end :: log_end
  vr_pre_vote :: bool

datatype event =
    ElectionTimeout
  | FetchTimeout
  | ReceiveVoteRequest vote_request
  | ReceiveVoteResponse node_id epoch bool
  | ReceiveBeginQuorumEpoch node_id epoch
  | ReceiveEndQuorumEpoch node_id epoch
  | ReceiveFetch node_id epoch int
  | ReceiveFetchResponse node_id epoch "log_offset_metadata option"

datatype timer_kind = ElectionTimer | FetchTimer

datatype action =
    SendVoteRequest epoch bool
  | ReplyVote node_id epoch bool
  | SendBeginQuorumEpoch epoch
  | SendEndQuorumEpoch epoch
  | SendFetch node_id
  | TransitionedTo string
  | PersistQuorumState
  | AppendLeaderChange epoch
  | AdvanceHighWatermark int
  | TruncateTo log_offset_metadata
  | ResetTimer timer_kind sim_instant

text \<open>
  The contract of the \<open>LogView\<close> trait, for the logs that satisfy the invariant of the implementation:
  offsets are not negative, the end of an epoch lies inside the log, and an epoch newer than the last one is unknown.
\<close>

locale log_view_laws =
  fixes view :: "'k \<Rightarrow> log_view" and legal :: "'k \<Rightarrow> bool"
  assumes end_nonneg: "legal k \<Longrightarrow> 0 \<le> lv_end_offset (view k)"
    and epoch_end_within: "legal k \<Longrightarrow> lv_end_offset_for_epoch (view k) e = Some off \<Longrightarrow> 0 \<le> off \<and> off \<le> lv_end_offset (view k)"
    and future_epoch_unknown: "legal k \<Longrightarrow> lv_last_epoch (view k) < e \<Longrightarrow> lv_end_offset_for_epoch (view k) e = None"

lemma vs_len_majority:
  "vs_wf (qs_voters q) \<Longrightarrow> qs_majority q = card (set (vs_ids (qs_voters q))) div 2 + 1"
  by (simp add: qs_majority_def vs_len_card)

text \<open>
  C19. KIP-853 changes one voter at a time, and this is why it is safe: a majority of a voter set
  and a majority of the set with one new voter added always share a voter.
\<close>

theorem adjacent_majorities_intersect:
  assumes wf: "vs_wf (qs_voters q)" and new: "\<not> vs_contains (qs_voters q) (v_id v)"
    and q': "q' = q\<lparr>qs_voters := with_voter (qs_voters q) v\<rparr>"
    and A: "A \<subseteq> set (vs_ids (qs_voters q))" "qs_majority q \<le> card A"
    and B: "B \<subseteq> set (vs_ids (qs_voters q'))" "qs_majority q' \<le> card B"
  shows "A \<inter> B \<noteq> {}"
proof (rule majorities_meet_adjacent [of "set (vs_ids (qs_voters q))" "v_id v"])
  have ids: "set (vs_ids (qs_voters q')) = insert (v_id v) (set (vs_ids (qs_voters q)))"
    using wf q' by (simp add: ids_with_voter)
  show "B \<subseteq> insert (v_id v) (set (vs_ids (qs_voters q)))"
    using B ids by simp
  show "card (insert (v_id v) (set (vs_ids (qs_voters q)))) div 2 + 1 \<le> card B"
    using B wf q' vs_len_majority [of q'] by (simp add: ids_with_voter)
  show "card (set (vs_ids (qs_voters q))) div 2 + 1 \<le> card A"
    using A wf vs_len_majority by simp
  show "v_id v \<notin> set (vs_ids (qs_voters q))"
    using new by (simp add: vs_contains_ids)
qed (use A in simp_all)

definition plain_voter :: "node_id \<Rightarrow> voter" where
  "plain_voter i = \<lparr>v_id = i, v_directory_id = 0, v_endpoints = [],
     v_kraft_version = kraft_version_range_default\<rparr>"

lemmas voters_eval = from_voters_def bt_collect_def plain_voter_def qs_bootstrap_def bt_get_def
  vs_contains_def vs_len_def vs_ids_def bt_keys_def with_voter_def qs_majority_def

theorem adjacent_majorities_intersect_witness:
  "{1, 2::node_id} \<inter> {2, 3, 4} \<noteq> {} \<and>
   qs_majority (qs_bootstrap 0 (from_voters (map plain_voter [1, 2, 3]))) = 2"
proof -
  let ?q = "qs_bootstrap 0 (from_voters (map plain_voter [1, 2, 3]))"
  have wf: "vs_wf (qs_voters ?q)"
    by (simp add: qs_bootstrap_def)
  have "{1, 2::node_id} \<inter> {2, 3, 4} \<noteq> {}"
    by (rule adjacent_majorities_intersect [OF wf, of "plain_voter 4" _ "{1, 2}" "{2, 3, 4}", OF _ refl])
       (simp_all add: voters_eval)
  then show ?thesis by (simp add: voters_eval)
qed

end
