(* ===== verification/Consensus_Kernels.thy ===== *)
theory Consensus_Kernels
  imports Prelude "HOL-Library.Multiset"
begin

text \<open>
  The decision kernels of \<open>crates/verified/src/consensus.rs\<close>: election jitter, the KIP-595
  log comparison, the majority count and the high watermark. The count and the watermark are
  loops over a slice and are modelled by the list recursion each loop performs. The lemmas
  show that the loop result is the majority-th largest offset, that is, that it agrees with
  sorting all offsets in descending order and indexing.
\<close>

unbundle bit_operations_syntax

section \<open>Definitions\<close>

definition election_jitter_ms :: "u64 \<Rightarrow> u32 \<Rightarrow> u64 \<Rightarrow> u64" where
  "election_jitter_ms me epoch base_ms =
     (if base_ms = 0 then 0
      else (let mix = (me * 0x9E3779B97F4A7C15) XOR (ucast epoch * 0xD1B54A32D192ED03)
            in mix mod base_ms))"

definition log_is_up_to_date :: "u32 \<Rightarrow> int \<Rightarrow> u32 \<Rightarrow> int \<Rightarrow> bool" where
  "log_is_up_to_date my_epoch my_end cand_epoch cand_offset =
     (cand_epoch > my_epoch \<or> (cand_epoch = my_epoch \<and> cand_offset \<ge> my_end))"

text \<open>The \<open>while j < n\<close> loop of \<open>candidate_has_majority\<close>, one slice element per call.\<close>

fun chm_loop :: "int list \<Rightarrow> int \<Rightarrow> nat \<Rightarrow> nat \<Rightarrow> nat" where
  "chm_loop [] cand majority cnt = cnt"
| "chm_loop (x # xs) cand majority cnt =
     chm_loop xs cand majority (if x \<ge> cand \<and> cnt < majority then cnt + 1 else cnt)"

definition candidate_has_majority :: "int \<Rightarrow> int list \<Rightarrow> int \<Rightarrow> nat \<Rightarrow> bool" where
  "candidate_has_majority log_end follower_offsets cand majority =
     (let cnt = (if log_end \<ge> cand \<and> 0 < majority then 1 else 0)
      in chm_loop follower_offsets cand majority cnt \<ge> majority)"

text \<open>The \<open>while i < n\<close> loop of \<open>recompute_high_watermark\<close> over the remaining slice elements.\<close>

fun hwm_loop :: "int \<Rightarrow> int list \<Rightarrow> nat \<Rightarrow> int list \<Rightarrow> int \<Rightarrow> int" where
  "hwm_loop log_end fos majority [] majority_offset = majority_offset"
| "hwm_loop log_end fos majority (cand # rest) majority_offset =
     hwm_loop log_end fos majority rest
       (if cand > majority_offset \<and> candidate_has_majority log_end fos cand majority
        then cand else majority_offset)"

definition recompute_high_watermark :: "int \<Rightarrow> int list \<Rightarrow> nat \<Rightarrow> int \<Rightarrow> int \<Rightarrow> int" where
  "recompute_high_watermark log_end follower_offsets majority epoch_start_offset current_hwm =
     (let m0 = (if candidate_has_majority log_end follower_offsets log_end majority
                then log_end else i64_MIN);
          majority_offset = hwm_loop log_end follower_offsets majority follower_offsets m0;
          gated = (if majority_offset > epoch_start_offset then majority_offset else current_hwm)
      in max gated current_hwm)"

definition handoff_high_watermark :: "int \<Rightarrow> int \<Rightarrow> int" where
  "handoff_high_watermark previous_hw quorum_frontier =
     (if previous_hw \<ge> quorum_frontier then previous_hw else quorum_frontier)"

section \<open>Counting and the majority offset\<close>

text \<open>The number of replicas, the leader included, whose offset is at least \<open>v\<close>.\<close>

definition count_ge :: "int \<Rightarrow> int list \<Rightarrow> int \<Rightarrow> nat" where
  "count_ge log_end fos v = length (filter (\<lambda>x. x \<ge> v) (log_end # fos))"

lemma chm_loop_count:
  "cnt \<le> majority \<Longrightarrow>
   chm_loop xs cand majority cnt = min majority (cnt + length (filter (\<lambda>x. x \<ge> cand) xs))"
  by (induction xs arbitrary: cnt) auto

lemma candidate_has_majority_count:
  "candidate_has_majority log_end fos cand majority \<longleftrightarrow> count_ge log_end fos cand \<ge> majority"
  by (cases majority) (auto simp: candidate_has_majority_def count_ge_def chm_loop_count Let_def)

lemma Max_insert_insert:
  "finite S \<Longrightarrow> Max (insert m (insert c S)) = Max (insert (max m c) S)" for m c :: int
  by (cases "S = {}") (simp_all add: max.assoc)

lemma hwm_loop_Max:
  "hwm_loop log_end fos majority rest m =
     Max (insert m {c \<in> set rest. candidate_has_majority log_end fos c majority})"
proof (induction rest arbitrary: m)
  case Nil
  then show ?case by simp
next
  case (Cons c rest)
  let ?S = "{c \<in> set rest. candidate_has_majority log_end fos c majority}"
  have "Max (insert m (insert c ?S)) = Max (insert (max m c) ?S)"
    by (rule Max_insert_insert) simp
  moreover have "{x \<in> set (c # rest). candidate_has_majority log_end fos x majority} =
      (if candidate_has_majority log_end fos c majority then insert c ?S else ?S)"
    by auto
  ultimately show ?case
    using Cons.IH by (simp add: max_def)
qed

text \<open>The offset the two loops compute, before the epoch gate.\<close>

definition majority_offset :: "int \<Rightarrow> int list \<Rightarrow> nat \<Rightarrow> int" where
  "majority_offset log_end fos majority =
     hwm_loop log_end fos majority fos
       (if candidate_has_majority log_end fos log_end majority then log_end else i64_MIN)"

lemma recompute_high_watermark_alt:
  "recompute_high_watermark log_end fos majority es hwm =
     (if majority_offset log_end fos majority > es
      then max (majority_offset log_end fos majority) hwm else hwm)"
  by (simp add: recompute_high_watermark_def majority_offset_def Let_def)

lemma count_ge_antimono: "v \<le> w \<Longrightarrow> count_ge log_end fos w \<le> count_ge log_end fos v"
  unfolding count_ge_def by (rule length_filter_imp) auto

section \<open>The reference definition: sort, then index\<close>

definition nth_largest :: "int list \<Rightarrow> nat \<Rightarrow> int" where
  "nth_largest xs m = rev (sort xs) ! (m - 1)"

lemma length_filter_rev_sort:
  "length (filter P (rev (sort xs))) = length (filter P xs)"
  by (metis mset_filter mset_rev mset_sort size_mset)

lemma count_ge_nth_largest:
  "1 \<le> m \<Longrightarrow> m \<le> length fos + 1 \<Longrightarrow>
   (m \<le> count_ge log_end fos v) = (v \<le> nth_largest (log_end # fos) m)"
proof -
  assume m: "1 \<le> m" "m \<le> length fos + 1"
  have "sorted_wrt (\<ge>) (rev (sort (log_end # fos)))"
    using sorted_sort [of "log_end # fos"] unfolding sorted_wrt_rev by simp
  from count_ge_desc [OF this, of m v] m show ?thesis
    unfolding count_ge_def nth_largest_def length_filter_rev_sort by simp
qed

lemma nth_largest_mem:
  "1 \<le> m \<Longrightarrow> m \<le> length xs \<Longrightarrow> nth_largest xs m \<in> set xs"
  unfolding nth_largest_def
  by (metis One_nat_def Suc_le_eq Suc_pred diff_less length_rev length_sort less_le_trans
      nth_mem set_rev set_sort zero_less_one)

lemma majority_offset_nth_largest:
  assumes m: "1 \<le> m" "m \<le> length fos + 1" and ok: "\<forall>x \<in> set (log_end # fos). i64_ok x"
  shows "majority_offset log_end fos m = nth_largest (log_end # fos) m"
proof -
  let ?K = "nth_largest (log_end # fos) m"
  let ?S = "insert (if log_end \<le> ?K then log_end else i64_MIN) {c \<in> set fos. c \<le> ?K}"
  have maj: "candidate_has_majority log_end fos c m \<longleftrightarrow> c \<le> ?K" for c
    using m by (simp add: candidate_has_majority_count count_ge_nth_largest)
  have K: "?K \<in> set (log_end # fos)"
    using nth_largest_mem [of m "log_end # fos"] m by simp
  with ok have "i64_MIN \<le> ?K" by (auto simp: i64_ok_def)
  then have "Max ?S = ?K"
    using K by (intro Max_eqI) auto
  then show ?thesis
    by (simp add: majority_offset_def hwm_loop_Max maj)
qed

text \<open>
  The implementation the kernel replaced: collect all offsets, sort descending, take the
  majority-th, gate on the epoch start, never regress.
\<close>

definition hwm_by_sorting :: "int \<Rightarrow> int list \<Rightarrow> nat \<Rightarrow> int \<Rightarrow> int \<Rightarrow> int" where
  "hwm_by_sorting log_end fos majority es hwm =
     (let mo = nth_largest (log_end # fos) majority
      in max (if mo > es then mo else hwm) hwm)"

section \<open>Properties\<close>

text \<open>
  C12. The high-watermark kernel equals the sort-and-index reference: for every non-empty
  majority size up to the number of replicas and all 64-bit offsets, the two nested scans
  return the majority-th largest offset, gated by the epoch start and clamped so that it never
  regresses.
\<close>

theorem hwm_refines_sorting:
  assumes "1 \<le> majority" and "majority \<le> length follower_offsets + 1"
    and "\<forall>x \<in> set (log_end # follower_offsets). i64_ok x"
  shows "recompute_high_watermark log_end follower_offsets majority es hwm =
         hwm_by_sorting log_end follower_offsets majority es hwm"
  using majority_offset_nth_largest [OF assms]
  by (simp add: recompute_high_watermark_alt hwm_by_sorting_def)

theorem hwm_refines_sorting_witness:
  "(1::nat) \<le> 2 \<and> 2 \<le> length [3, 9::int] + 1 \<and>
   recompute_high_watermark 10 [3, 9] 2 8 5 = hwm_by_sorting 10 [3, 9] 2 8 5"
proof -
  have "\<forall>x \<in> set (10 # [3, 9::int]). i64_ok x"
    by (simp add: int_width)
  then show ?thesis
    using hwm_refines_sorting [of 2 "[3, 9]" 10 8 5] by simp
qed

text \<open>
  Commit safety of the kernel: whenever it moves the high watermark, the new value lies
  strictly past the first offset of the leader's own epoch and at least a majority of the
  replicas (leader included) hold the log up to it; it never moves the watermark back, and with
  every acknowledged offset inside the leader's log it never passes the log end.
\<close>

lemma hwm_advance_safe:
  assumes m: "1 \<le> majority" "majority \<le> length fos + 1"
    and ok: "\<forall>x \<in> set (log_end # fos). i64_ok x"
    and within: "hwm \<le> log_end" "\<forall>x \<in> set fos. x \<le> log_end"
    and r: "r = recompute_high_watermark log_end fos majority es hwm"
  shows "hwm \<le> r \<and> r \<le> log_end \<and>
         (r > hwm \<longrightarrow> r > es \<and> majority \<le> count_ge log_end fos r) \<and>
         (\<forall>v. v > es \<and> majority \<le> count_ge log_end fos v \<longrightarrow> v \<le> r)"
proof -
  let ?K = "nth_largest (log_end # fos) majority"
  have req: "r = (if ?K > es then max ?K hwm else hwm)"
    using r majority_offset_nth_largest [OF m ok] by (simp add: recompute_high_watermark_alt)
  have "?K \<le> log_end"
    using nth_largest_mem [of majority "log_end # fos"] m within(2) by auto
  moreover have "majority \<le> count_ge log_end fos ?K"
    using count_ge_nth_largest [OF m] by simp
  moreover have "v \<le> ?K" if "majority \<le> count_ge log_end fos v" for v
    using count_ge_nth_largest [OF m] that by simp
  ultimately show ?thesis
    using req within(1) by (intro conjI) (auto simp: max_def split: if_splits, fastforce+)
qed

lemma election_jitter_zero [simp]: "election_jitter_ms me epoch 0 = 0"
  by (simp add: election_jitter_ms_def)

lemma election_jitter_bound: "0 < base \<Longrightarrow> election_jitter_ms me epoch base < base"
  by (simp add: election_jitter_ms_def Let_def word_mod_less_divisor word_gt_0)

end
