(* ===== verification/Kraft_Core.thy ===== *)
theory Kraft_Core
  imports Kraft_Types Consensus_Kernels
begin

text \<open>
  The quorum state machine of \<open>crates/kraft-core/src/core.rs\<close>. Every method of
  \<open>QuorumStateMachine\<close> is one definition that takes the machine and returns the new machine
  with the list of actions; the branches, guards and early returns are in the order of the
  source. Log reads go through the \<open>log_view\<close> argument and the clock is the argument \<open>now\<close>, as
  in the code. \<open>debug_assert!\<close> and the tracing calls have no counterpart.

  The election timeout is the whole-millisecond count that \<open>new\<close> computes from its \<open>Time\<close>
  argument. The sum in \<open>election_deadline\<close> wraps on 64 bits as in a release build.
\<close>

record quorum_state_machine =
  qm_me :: node_id
  qm_state :: quorum_state
  qm_adjacent_voters :: "voter_set option"
  qm_role :: role
  qm_election_timeout_ms :: u64

named_theorems kraft_defs "the handlers of the quorum state machine"

text \<open>\<open>u64::try_from(election_timeout.millis_i64()).unwrap_or(0)\<close>\<close>

definition timeout_millis :: "int \<Rightarrow> u64" where
  "timeout_millis millis_i64 = (if 0 \<le> millis_i64 then word_of_int millis_i64 else 0)"

definition qsm_new :: "node_id \<Rightarrow> quorum_state \<Rightarrow> int \<Rightarrow> quorum_state_machine" where
  "qsm_new me state election_timeout_millis =
     (let observer = \<not> vs_contains (qs_voters state) me;
          r = (if observer then Observer None 0 else role_default)
      in \<lparr>qm_me = me, qm_state = state, qm_adjacent_voters = None, qm_role = r,
          qm_election_timeout_ms = timeout_millis election_timeout_millis\<rparr>)"

definition is_voter :: "quorum_state_machine \<Rightarrow> bool" where
  "is_voter m = vs_contains (qs_voters (qm_state m)) (qm_me m)"

definition election_deadline :: "quorum_state_machine \<Rightarrow> sim_instant \<Rightarrow> sim_instant" where
  "election_deadline m now =
     saturating_add_ms now
       (qm_election_timeout_ms m +
        election_jitter_ms (qm_me m) (qs_leader_epoch (qm_state m)) (qm_election_timeout_ms m))"

definition qsm_log_is_up_to_date :: "log_view \<Rightarrow> log_end \<Rightarrow> bool" where
  "qsm_log_is_up_to_date log cand =
     log_is_up_to_date (lv_last_epoch log) (lv_end_offset log) (le_last_epoch cand) (le_last_offset cand)"

definition current_or_adjacent_voter :: "quorum_state_machine \<Rightarrow> node_id \<Rightarrow> bool" where
  "current_or_adjacent_voter m i =
     (vs_contains (qs_voters (qm_state m)) i \<or>
      (case qm_adjacent_voters m of None \<Rightarrow> False | Some vs \<Rightarrow> vs_contains vs i))"

section \<open>Membership changes\<close>

definition apply_voter_set ::
  "quorum_state_machine \<Rightarrow> voter_set \<Rightarrow> sim_instant \<Rightarrow> quorum_state_machine \<times> action list" where
  "apply_voter_set m voters now =
     (let was_voter = is_voter m;
          leader_id = qs_leader_id (qm_state m);
          m1 = (if qs_voters (qm_state m) \<noteq> voters
                then m\<lparr>qm_adjacent_voters := Some (qs_voters (qm_state m))\<rparr> else m);
          m2 = m1\<lparr>qm_state := (qm_state m1)\<lparr>qs_voters := voters\<rparr>\<rparr>;
          fetch_deadline = saturating_add_ms now (qm_election_timeout_ms m2)
      in case qm_role m2 of
           Leader replicas hwm es \<Rightarrow>
             (let kept = bt_retain (\<lambda>i _. vs_contains voters i \<and> i \<noteq> qm_me m2) replicas;
                  filled = fold (\<lambda>i r. if i \<noteq> qm_me m2
                                        then bt_or_insert r i replica_progress_default else r)
                             (vs_ids voters) kept
              in (m2\<lparr>qm_role := Leader filled hwm es\<rparr>, []))
         | _ \<Rightarrow>
             (case (was_voter, is_voter m2) of
                (True, False) \<Rightarrow>
                  (let r = Observer leader_id fetch_deadline
                   in (m2\<lparr>qm_role := r\<rparr>,
                       TransitionedTo (role_name r) #
                       (case leader_id of
                          Some l \<Rightarrow> [SendFetch l, ResetTimer FetchTimer fetch_deadline]
                        | None \<Rightarrow> [])))
              | (False, True) \<Rightarrow>
                  (case leader_id of
                     Some l \<Rightarrow>
                       (let r = Follower l fetch_deadline
                        in (m2\<lparr>qm_role := r\<rparr>,
                            [TransitionedTo (role_name r), SendFetch l,
                             ResetTimer FetchTimer fetch_deadline]))
                   | None \<Rightarrow>
                       (let ed = election_deadline m2 now; r = Unattached ed
                        in (m2\<lparr>qm_role := r\<rparr>,
                            [TransitionedTo (role_name r), ResetTimer ElectionTimer ed])))
              | _ \<Rightarrow> (m2, [])))"

definition set_kraft_version :: "quorum_state_machine \<Rightarrow> u16 \<Rightarrow> quorum_state_machine" where
  "set_kraft_version m version = m\<lparr>qm_state := (qm_state m)\<lparr>qs_kraft_version := version\<rparr>\<rparr>"

definition commit_voter_set :: "quorum_state_machine \<Rightarrow> quorum_state_machine" where
  "commit_voter_set m = m\<lparr>qm_adjacent_voters := None\<rparr>"

definition finish_local_leader_removal ::
  "quorum_state_machine \<Rightarrow> sim_instant \<Rightarrow> quorum_state_machine \<times> action list" where
  "finish_local_leader_removal m now =
     (if is_voter m \<or> \<not> is_leader (qm_role m) then (m, [])
      else
        (let e = qs_leader_epoch (qm_state m);
             fetch_deadline = saturating_add_ms now (qm_election_timeout_ms m);
             r = Observer None fetch_deadline
         in (m\<lparr>qm_state := (qm_state m)\<lparr>qs_leader_id := None\<rparr>, qm_role := r\<rparr>,
             [SendEndQuorumEpoch e, PersistQuorumState, TransitionedTo (role_name r)])))"

section \<open>Elections\<close>

definition transition_to_unattached ::
  "quorum_state_machine \<Rightarrow> epoch \<Rightarrow> sim_instant \<Rightarrow> quorum_state_machine \<times> action list" where
  [kraft_defs]: "transition_to_unattached m e deadline =
     (m\<lparr>qm_state := (qm_state m)\<lparr>qs_leader_epoch := e, qs_leader_id := None, qs_voted_key := None\<rparr>,
        qm_role := Unattached deadline\<rparr>,
      [PersistQuorumState, TransitionedTo ''Unattached'', ResetTimer ElectionTimer deadline])"

definition tally_prevote_reached_majority :: "quorum_state_machine \<Rightarrow> bool" where
  [kraft_defs]: "tally_prevote_reached_majority m =
     (case qm_role m of Prospective granted _ \<Rightarrow> card granted \<ge> qs_majority (qm_state m) | _ \<Rightarrow> False)"

definition tally_candidate_reached_majority :: "quorum_state_machine \<Rightarrow> bool" where
  [kraft_defs]: "tally_candidate_reached_majority m =
     (case qm_role m of Candidate granted _ \<Rightarrow> card granted \<ge> qs_majority (qm_state m) | _ \<Rightarrow> False)"

definition promote_to_leader ::
  "quorum_state_machine \<Rightarrow> log_view \<Rightarrow> quorum_state_machine \<times> action list" where
  [kraft_defs]: "promote_to_leader m log =
     (let e = qs_leader_epoch (qm_state m);
          replicas = fold (\<lambda>i r. if i \<noteq> qm_me m then bt_insert r i replica_progress_default else r)
                       (vs_ids (qs_voters (qm_state m))) [];
          epoch_start_offset = lv_end_offset log;
          r = Leader replicas 0 epoch_start_offset
      in (m\<lparr>qm_state := (qm_state m)\<lparr>qs_leader_id := Some (qm_me m)\<rparr>, qm_role := r\<rparr>,
          [AppendLeaderChange e, SendBeginQuorumEpoch e, PersistQuorumState,
           TransitionedTo (role_name r)]))"

definition promote_to_candidate ::
  "quorum_state_machine \<Rightarrow> log_view \<Rightarrow> sim_instant \<Rightarrow> quorum_state_machine \<times> action list" where
  [kraft_defs]: "promote_to_candidate m log now =
     (let m1 = m\<lparr>qm_state := (qm_state m)\<lparr>
                   qs_leader_epoch := u_saturating_add (qs_leader_epoch (qm_state m)) 1,
                   qs_leader_id := None,
                   qs_voted_key := Some \<lparr>rk_id = qm_me m, rk_directory_id = 0\<rparr>\<rparr>\<rparr>;
          deadline = election_deadline m1 now;
          r = Candidate {qm_me m} deadline;
          m2 = m1\<lparr>qm_role := r\<rparr>;
          actions = [PersistQuorumState, TransitionedTo (role_name r),
                     SendVoteRequest (qs_leader_epoch (qm_state m2)) False,
                     ResetTimer ElectionTimer deadline]
      in if tally_candidate_reached_majority m2
         then (let (m3, more) = promote_to_leader m2 log in (m3, actions @ more))
         else (m2, actions))"

definition start_election ::
  "quorum_state_machine \<Rightarrow> log_view \<Rightarrow> sim_instant \<Rightarrow> quorum_state_machine \<times> action list" where
  [kraft_defs]: "start_election m log now =
     (let m1 = m\<lparr>qm_state := (qm_state m)\<lparr>qs_leader_id := None\<rparr>\<rparr>;
          deadline = election_deadline m1 now;
          r = Prospective {qm_me m} deadline;
          m2 = m1\<lparr>qm_role := r\<rparr>;
          actions = [TransitionedTo (role_name r),
                     SendVoteRequest (qs_leader_epoch (qm_state m2)) True,
                     ResetTimer ElectionTimer deadline]
      in if tally_prevote_reached_majority m2
         then (let (m3, more) = promote_to_candidate m2 log now in (m3, actions @ more))
         else (m2, actions))"

definition handle_election_timeout ::
  "quorum_state_machine \<Rightarrow> log_view \<Rightarrow> sim_instant \<Rightarrow> quorum_state_machine \<times> action list" where
  [kraft_defs]: "handle_election_timeout m log now =
     (if \<not> is_voter m then (m, []) else start_election m log now)"

definition handle_fetch_timeout ::
  "quorum_state_machine \<Rightarrow> log_view \<Rightarrow> sim_instant \<Rightarrow> quorum_state_machine \<times> action list" where
  [kraft_defs]: "handle_fetch_timeout m log now =
     (if is_voter m then start_election m log now else (m, []))"

definition handle_vote_response ::
  "quorum_state_machine \<Rightarrow> log_view \<Rightarrow> node_id \<Rightarrow> epoch \<Rightarrow> bool \<Rightarrow> sim_instant \<Rightarrow>
   quorum_state_machine \<times> action list" where
  [kraft_defs]: "handle_vote_response m log from e vote_granted now =
     (if \<not> vote_granted \<and> e > qs_leader_epoch (qm_state m) then transition_to_unattached m e now
      else if \<not> vote_granted then (m, [])
      else case qm_role m of
          Prospective granted ed \<Rightarrow>
            (if e = qs_leader_epoch (qm_state m)
             then (let m1 = m\<lparr>qm_role := Prospective (insert from granted) ed\<rparr>
                   in if tally_prevote_reached_majority m1 then promote_to_candidate m1 log now
                      else (m1, []))
             else (m, []))
        | Candidate granted ed \<Rightarrow>
            (if e = qs_leader_epoch (qm_state m)
             then (let m1 = m\<lparr>qm_role := Candidate (insert from granted) ed\<rparr>
                   in if tally_candidate_reached_majority m1 then promote_to_leader m1 log
                      else (m1, []))
             else (m, []))
        | _ \<Rightarrow> (m, []))"

text \<open>The grant decision of \<open>handle_vote_request\<close>, after the epoch has been adopted.\<close>

definition vote_granted :: "quorum_state_machine \<Rightarrow> log_view \<Rightarrow> vote_request \<Rightarrow> bool" where
  [kraft_defs]: "vote_granted m log req =
     (let up_to_date = qsm_log_is_up_to_date log (vr_candidate_log_end req)
      in if vr_pre_vote req then up_to_date \<and> qs_leader_id (qm_state m) = None
         else (let not_voted_other =
                     (case qs_voted_key (qm_state m) of
                        None \<Rightarrow> True | Some k \<Rightarrow> rk_id k = vr_candidate req)
               in up_to_date \<and> not_voted_other \<and> qs_leader_id (qm_state m) = None))"

definition handle_vote_request ::
  "quorum_state_machine \<Rightarrow> vote_request \<Rightarrow> log_view \<Rightarrow> sim_instant \<Rightarrow>
   quorum_state_machine \<times> action list" where
  [kraft_defs]: "handle_vote_request m req log now =
     (if vr_voter_id req \<noteq> qm_me m \<and> vr_voter_id req \<noteq> 0 then (m, [])
      else if \<not> is_voter m \<or> \<not> current_or_adjacent_voter m (vr_candidate req)
      then (m, [ReplyVote (vr_from req) (qs_leader_epoch (qm_state m)) False])
      else if vr_candidate_epoch req < qs_leader_epoch (qm_state m)
      then (m, [ReplyVote (vr_from req) (qs_leader_epoch (qm_state m)) False])
      else
        (let (m1, actions) =
               (if \<not> vr_pre_vote req \<and> vr_candidate_epoch req > qs_leader_epoch (qm_state m)
                then transition_to_unattached m (vr_candidate_epoch req) now else (m, []));
             granted = vote_granted m1 log req
         in if granted \<and> \<not> vr_pre_vote req
            then (let m2 = m1\<lparr>qm_state := (qm_state m1)\<lparr>
                             qs_voted_key := Some \<lparr>rk_id = vr_candidate req, rk_directory_id = 0\<rparr>\<rparr>\<rparr>;
                      deadline = election_deadline m2 now;
                      r = Voted deadline
                  in (m2\<lparr>qm_role := r\<rparr>,
                      actions @ [PersistQuorumState, TransitionedTo (role_name r),
                                 ResetTimer ElectionTimer deadline,
                                 ReplyVote (vr_from req) (qs_leader_epoch (qm_state m2)) granted]))
            else (m1, actions @ [ReplyVote (vr_from req) (qs_leader_epoch (qm_state m1)) granted])))"

definition handle_begin_quorum_epoch ::
  "quorum_state_machine \<Rightarrow> node_id \<Rightarrow> epoch \<Rightarrow> sim_instant \<Rightarrow>
   quorum_state_machine \<times> action list" where
  [kraft_defs]: "handle_begin_quorum_epoch m leader_id leader_epoch now =
     (let membership_known =
            (\<not> vs_is_empty (qs_voters (qm_state m)) \<or>
             (case qm_adjacent_voters m of None \<Rightarrow> False | Some vs \<Rightarrow> \<not> vs_is_empty vs));
          accept = (leader_epoch > qs_leader_epoch (qm_state m) \<or>
                    (leader_epoch = qs_leader_epoch (qm_state m) \<and> qs_leader_id (qm_state m) = None))
      in if membership_known \<and> \<not> current_or_adjacent_voter m leader_id then (m, [])
         else if \<not> accept then (m, [])
         else
           (let m1 = m\<lparr>qm_state := (qm_state m)\<lparr>qs_leader_epoch := leader_epoch,
                          qs_leader_id := Some leader_id, qs_voted_key := None\<rparr>\<rparr>;
                fetch_deadline = saturating_add_ms now (qm_election_timeout_ms m1);
                r = (if is_voter m1 then Follower leader_id fetch_deadline
                     else Observer (Some leader_id) fetch_deadline)
            in (m1\<lparr>qm_role := r\<rparr>,
                [PersistQuorumState, TransitionedTo (role_name r), SendFetch leader_id,
                 ResetTimer FetchTimer fetch_deadline])))"

definition handle_end_quorum_epoch ::
  "quorum_state_machine \<Rightarrow> log_view \<Rightarrow> node_id \<Rightarrow> epoch \<Rightarrow> sim_instant \<Rightarrow>
   quorum_state_machine \<times> action list" where
  [kraft_defs]: "handle_end_quorum_epoch m log leader_id leader_epoch now =
     (if leader_epoch < qs_leader_epoch (qm_state m) then (m, [])
      else if is_voter m then start_election m log now
      else transition_to_unattached m (qs_leader_epoch (qm_state m)) now)"

section \<open>Replication progress\<close>

definition qsm_recompute_high_watermark :: "quorum_state_machine \<Rightarrow> int \<Rightarrow> int" where
  "qsm_recompute_high_watermark m log_end =
     (case qm_role m of
        Leader replicas high_watermark epoch_start_offset \<Rightarrow>
          (let follower_offsets = map (\<lambda>(_, p). min (rp_fetch_offset p) log_end) replicas;
               majority = qs_majority (qm_state m)
           in if is_voter m
              then recompute_high_watermark log_end follower_offsets majority
                     epoch_start_offset (min high_watermark log_end)
              else
                (let desc = rev (sort follower_offsets);
                     pick = (if majority - 1 < length desc then Some (desc ! (majority - 1)) else None);
                     chosen = (case pick of
                                 Some off \<Rightarrow> if off > epoch_start_offset then off else high_watermark
                               | None \<Rightarrow> high_watermark)
                 in max chosen high_watermark))
      | _ \<Rightarrow> 0)"

text \<open>The consistent branch of \<open>handle_fetch\<close>: record the progress, recompute, maybe advance.\<close>

definition record_fetch ::
  "quorum_state_machine \<Rightarrow> log_view \<Rightarrow> node_id \<Rightarrow> int \<Rightarrow> quorum_state_machine \<times> action list" where
  [kraft_defs]: "record_fetch m log from fetch_offset =
     (case qm_role m of
        Leader replicas high_watermark epoch_start_offset \<Rightarrow>
          (let replicas1 = (case bt_get replicas from of
                              Some progress \<Rightarrow>
                                bt_insert replicas from (progress\<lparr>rp_fetch_offset := fetch_offset\<rparr>)
                            | None \<Rightarrow> replicas);
               m1 = m\<lparr>qm_role := Leader replicas1 high_watermark epoch_start_offset\<rparr>;
               new_hwm = qsm_recompute_high_watermark m1 (lv_end_offset log)
           in if new_hwm > high_watermark
              then (m1\<lparr>qm_role := Leader replicas1 new_hwm epoch_start_offset\<rparr>,
                    [AdvanceHighWatermark new_hwm])
              else (m1, []))
      | _ \<Rightarrow> (m, []))"

definition handle_fetch ::
  "quorum_state_machine \<Rightarrow> log_view \<Rightarrow> node_id \<Rightarrow> epoch \<Rightarrow> int \<Rightarrow>
   quorum_state_machine \<times> action list" where
  [kraft_defs]: "handle_fetch m log from fetch_epoch fetch_offset =
     (case qm_role m of
        Leader replicas high_watermark epoch_start_offset \<Rightarrow>
          (case (if fetch_offset > 0 then lv_end_offset_for_epoch log fetch_epoch else None) of
             Some div_end \<Rightarrow>
               if fetch_offset > div_end
               then (m, [TruncateTo \<lparr>lom_offset = div_end, lom_epoch = fetch_epoch\<rparr>])
               else record_fetch m log from fetch_offset
           | None \<Rightarrow> record_fetch m log from fetch_offset)
      | _ \<Rightarrow> (m, []))"

definition handle_fetch_response ::
  "quorum_state_machine \<Rightarrow> node_id \<Rightarrow> epoch \<Rightarrow> log_offset_metadata option \<Rightarrow> sim_instant \<Rightarrow>
   quorum_state_machine \<times> action list" where
  [kraft_defs]: "handle_fetch_response m leader_id leader_epoch diverging now =
     (case diverging of
        Some point \<Rightarrow> (m, [TruncateTo point])
      | None \<Rightarrow>
          (let fetch_deadline = saturating_add_ms now (qm_election_timeout_ms m)
           in (m, [SendFetch leader_id, ResetTimer FetchTimer fetch_deadline])))"

fun on_event ::
  "quorum_state_machine \<Rightarrow> event \<Rightarrow> log_view \<Rightarrow> sim_instant \<Rightarrow> quorum_state_machine \<times> action list" where
  "on_event m (ReceiveVoteRequest req) log now = handle_vote_request m req log now"
| "on_event m ElectionTimeout log now = handle_election_timeout m log now"
| "on_event m (ReceiveVoteResponse from e granted) log now = handle_vote_response m log from e granted now"
| "on_event m (ReceiveBeginQuorumEpoch l e) log now = handle_begin_quorum_epoch m l e now"
| "on_event m (ReceiveEndQuorumEpoch l e) log now = handle_end_quorum_epoch m log l e now"
| "on_event m (ReceiveFetch from e off) log now = handle_fetch m log from e off"
| "on_event m (ReceiveFetchResponse l e d) log now = handle_fetch_response m l e d now"
| "on_event m FetchTimeout log now = handle_fetch_timeout m log now"

section \<open>Divergence hints\<close>

text \<open>
  What a leader may rely on when it answers a fetch, for every log that keeps the contract of \<open>LogView\<close>:
  a truncation hint names an offset of its own log below the one asked for, in an epoch that it knows.
\<close>

lemma record_fetch_no_truncate: "TruncateTo p \<notin> set (snd (record_fetch m log src off))"
  by (auto simp: record_fetch_def Let_def split: role.splits option.splits)

lemma handle_fetch_truncate:
  assumes "TruncateTo p \<in> set (snd (handle_fetch m log src fe fo))"
  shows "lv_end_offset_for_epoch log fe = Some (lom_offset p)" and "lom_offset p < fo" and "lom_epoch p = fe"
  using assms record_fetch_no_truncate [of p m log src fo] by (auto simp: handle_fetch_def split: role.splits option.splits if_splits)

context log_view_laws
begin

lemma truncation_hint_within:
  assumes "legal k" and "TruncateTo p \<in> set (snd (handle_fetch m (view k) src fe fo))"
  shows "0 \<le> lom_offset p \<and> lom_offset p \<le> lv_end_offset (view k) \<and> lom_offset p < fo \<and> lom_epoch p \<le> lv_last_epoch (view k)"
proof -
  note hint = handle_fetch_truncate [OF assms(2)]
  have "\<not> lv_last_epoch (view k) < fe" using future_epoch_unknown [OF assms(1), of fe] hint(1) by auto
  then show ?thesis using epoch_end_within [OF assms(1) hint(1)] hint by simp
qed

end

end
