(* ===== verification/Kraft_Node.thy ===== *)
theory Kraft_Node
  imports Kraft_Core
begin

text \<open>
  What one replica guarantees, whatever events arrive: the frame of \<open>on_event\<close>, the coherence of
  the role with the durable quorum state, monotone epochs, non-binding pre-votes, the
  persist-before-reply discipline, how a recorded vote can disappear, and what a high-watermark
  advance means.
\<close>

section \<open>Frame and epochs\<close>

lemma start_election_frame:
  assumes "start_election m log now = (m', as)"
  shows "qm_me m' = qm_me m \<and> qm_adjacent_voters m' = qm_adjacent_voters m \<and>
         qm_election_timeout_ms m' = qm_election_timeout_ms m \<and>
         qs_voters (qm_state m') = qs_voters (qm_state m) \<and>
         qs_leader_epoch (qm_state m) \<le> qs_leader_epoch (qm_state m')"
  using assms
  by (auto simp: kraft_defs Let_def u_saturating_add_ge split: if_splits)

lemma on_event_frame:
  assumes "on_event m ev log now = (m', as)"
  shows "qm_me m' = qm_me m \<and> qm_adjacent_voters m' = qm_adjacent_voters m \<and>
         qm_election_timeout_ms m' = qm_election_timeout_ms m \<and>
         qs_voters (qm_state m') = qs_voters (qm_state m) \<and>
         qs_leader_epoch (qm_state m) \<le> qs_leader_epoch (qm_state m')"
proof (cases ev)
  case (ReceiveVoteRequest req)
  with assms show ?thesis
    by (auto simp: handle_vote_request_def transition_to_unattached_def Let_def split: if_splits)
next
  case (ReceiveVoteResponse src e granted)
  with assms show ?thesis
    by (auto simp: kraft_defs Let_def u_saturating_add_ge split: if_splits role.splits)
next
  case (ReceiveBeginQuorumEpoch l e)
  with assms show ?thesis
    by (auto simp: handle_begin_quorum_epoch_def Let_def split: if_splits)
next
  case (ReceiveEndQuorumEpoch l e)
  with assms show ?thesis
    by (auto simp: handle_end_quorum_epoch_def transition_to_unattached_def
        dest!: start_election_frame split: if_splits)
next
  case (ReceiveFetch src e off)
  with assms show ?thesis
    by (auto simp: handle_fetch_def record_fetch_def Let_def split: if_splits role.splits option.splits)
next
  case (ReceiveFetchResponse l e d)
  with assms show ?thesis
    by (auto simp: handle_fetch_response_def Let_def split: option.splits)
next
  case ElectionTimeout
  with assms show ?thesis
    by (auto simp: handle_election_timeout_def dest!: start_election_frame split: if_splits)
next
  case FetchTimeout
  with assms show ?thesis
    by (auto simp: handle_fetch_timeout_def dest!: start_election_frame split: if_splits)
qed

section \<open>Coherence of role and quorum state\<close>

text \<open>
  The node invariant: what each role implies about the durable quorum state. A candidate has
  voted for itself and knows no leader; a leader names itself and tracks exactly the other
  voters; a follower or observer follows the recorded leader.
\<close>

definition replicas_cover :: "quorum_state_machine \<Rightarrow> (node_id, replica_progress) btree_map \<Rightarrow> bool" where
  "replicas_cover m replicas \<longleftrightarrow>
     bt_wf replicas \<and> set (bt_keys replicas) = set (vs_ids (qs_voters (qm_state m))) - {qm_me m}"

definition role_coherent :: "quorum_state_machine \<Rightarrow> bool" where
  "role_coherent m \<longleftrightarrow>
     (case qm_role m of
        Unattached _ \<Rightarrow> qs_leader_id (qm_state m) = None
      | Voted _ \<Rightarrow> qs_leader_id (qm_state m) = None \<and> qs_voted_key (qm_state m) \<noteq> None
      | Follower l _ \<Rightarrow> qs_leader_id (qm_state m) = Some l
      | Prospective g _ \<Rightarrow> qs_leader_id (qm_state m) = None \<and> qm_me m \<in> g \<and> is_voter m
      | Candidate g _ \<Rightarrow> qs_leader_id (qm_state m) = None \<and> qm_me m \<in> g \<and> is_voter m \<and>
          map_option rk_id (qs_voted_key (qm_state m)) = Some (qm_me m)
      | Leader replicas hwm es \<Rightarrow> qs_leader_id (qm_state m) = Some (qm_me m) \<and>
          replicas_cover m replicas \<and> 0 \<le> hwm
      | Resigned \<Rightarrow> True
      | Observer l _ \<Rightarrow> qs_leader_id (qm_state m) = l)"

definition qsm_inv :: "quorum_state_machine \<Rightarrow> bool" where
  "qsm_inv m \<longleftrightarrow> vs_wf (qs_voters (qm_state m)) \<and> role_coherent m"

lemma fold_insert_others:
  assumes "bt_wf r0"
  shows "bt_wf (fold (\<lambda>i r. if i \<noteq> me then bt_insert r i d else r) is r0) \<and>
         set (bt_keys (fold (\<lambda>i r. if i \<noteq> me then bt_insert r i d else r) is r0)) =
           set (bt_keys r0) \<union> (set is - {me})"
  using assms
proof (induction "is" arbitrary: r0)
  case (Cons i rest)
  then show ?case
    by (auto simp: bt_keys_dom bt.dom_ins)
qed simp

lemma fold_or_insert_others:
  assumes "bt_wf r0"
  shows "bt_wf (fold (\<lambda>i r. if i \<noteq> me then bt_or_insert r i d else r) is r0) \<and>
         set (bt_keys (fold (\<lambda>i r. if i \<noteq> me then bt_or_insert r i d else r) is r0)) =
           set (bt_keys r0) \<union> (set is - {me})"
  using assms
proof (induction "is" arbitrary: r0)
  case (Cons i rest)
  have "set (bt_keys (bt_or_insert r0 i d)) = insert i (set (bt_keys r0))"
    using Cons.prems
    by (auto simp: bt_or_insert_def bt_keys_dom bt.dom_ins split: option.splits)
  with Cons show ?case by auto
qed simp

lemma promote_to_leader_inv:
  assumes "vs_wf (qs_voters (qm_state m))" and "promote_to_leader m log = (m', as)"
  shows "qsm_inv m'"
  using assms fold_insert_others [of "[]" "qm_me m" replica_progress_default "vs_ids (qs_voters (qm_state m))"]
  by (auto simp: promote_to_leader_def Let_def qsm_inv_def role_coherent_def replicas_cover_def bt_keys_def)

lemma promote_to_candidate_inv:
  assumes "vs_wf (qs_voters (qm_state m))" and "is_voter m" and "promote_to_candidate m log now = (m', as)"
  shows "qsm_inv m'"
  using assms
  by (auto simp: promote_to_candidate_def Let_def qsm_inv_def role_coherent_def is_voter_def
      split: if_splits prod.splits dest!: promote_to_leader_inv [rotated])

lemma start_election_inv:
  assumes "vs_wf (qs_voters (qm_state m))" and "is_voter m" and "start_election m log now = (m', as)"
  shows "qsm_inv m'"
  using assms
  by (auto simp: start_election_def Let_def qsm_inv_def role_coherent_def is_voter_def
      split: if_splits prod.splits dest!: promote_to_candidate_inv [rotated 2])

text \<open>The replica map after a fetch: at most one progress entry changes, never the key set.\<close>

definition noted_progress ::
  "(node_id, replica_progress) btree_map \<Rightarrow> node_id \<Rightarrow> int \<Rightarrow> (node_id, replica_progress) btree_map" where
  "noted_progress replicas src off =
     (case bt_get replicas src of
        Some progress \<Rightarrow> bt_insert replicas src (progress\<lparr>rp_fetch_offset := off\<rparr>)
      | None \<Rightarrow> replicas)"

lemma noted_progress_wf: "bt_wf replicas \<Longrightarrow> bt_wf (noted_progress replicas src off)"
  by (simp add: noted_progress_def split: option.splits)

lemma noted_progress_keys:
  "bt_wf replicas \<Longrightarrow> set (bt_keys (noted_progress replicas src off)) = set (bt_keys replicas)"
  by (auto simp: noted_progress_def bt_keys_dom bt.dom_ins split: option.splits)

lemma record_fetch_leader:
  assumes "qm_role m = Leader replicas hwm es"
  shows "record_fetch m log src off =
    (let m1 = m\<lparr>qm_role := Leader (noted_progress replicas src off) hwm es\<rparr>;
         n = qsm_recompute_high_watermark m1 (lv_end_offset log)
     in if n > hwm
        then (m\<lparr>qm_role := Leader (noted_progress replicas src off) n es\<rparr>, [AdvanceHighWatermark n])
        else (m1, []))"
  using assms by (simp add: record_fetch_def noted_progress_def Let_def)

lemma record_fetch_role:
  assumes "qm_role m = Leader replicas hwm es"
  shows "\<exists>h. hwm \<le> h \<and>
    fst (record_fetch m log src off) = m\<lparr>qm_role := Leader (noted_progress replicas src off) h es\<rparr>"
  unfolding record_fetch_leader [OF assms] Let_def
  by (rule exI [of _ "max hwm (qsm_recompute_high_watermark
        (m\<lparr>qm_role := Leader (noted_progress replicas src off) hwm es\<rparr>) (lv_end_offset log))"])
     (simp add: max_def)

lemma record_fetch_inv:
  assumes inv: "qsm_inv m" and st: "record_fetch m log src off = (m', as)"
  shows "qsm_inv m'"
proof (cases "qm_role m")
  case (Leader replicas hwm es)
  have cov: "bt_wf replicas" "set (bt_keys replicas) = set (vs_ids (qs_voters (qm_state m))) - {qm_me m}"
    and "0 \<le> hwm" and lid: "qs_leader_id (qm_state m) = Some (qm_me m)" "vs_wf (qs_voters (qm_state m))"
    using inv Leader by (simp_all add: qsm_inv_def role_coherent_def replicas_cover_def)
  obtain h where "m' = m\<lparr>qm_role := Leader (noted_progress replicas src off) h es\<rparr>" and "hwm \<le> h"
    using st record_fetch_role [OF Leader, of log src off] by auto
  then show ?thesis
    using \<open>0 \<le> hwm\<close> lid noted_progress_wf [OF cov(1)] noted_progress_keys [OF cov(1)] cov(2)
    by (simp add: qsm_inv_def role_coherent_def replicas_cover_def)
qed (use assms in \<open>auto simp: record_fetch_def\<close>)

lemma is_voter_cong:
  "qm_me m' = qm_me m \<Longrightarrow> qs_voters (qm_state m') = qs_voters (qm_state m) \<Longrightarrow> is_voter m' = is_voter m"
  by (simp add: is_voter_def)

lemma handle_vote_response_inv:
  assumes inv: "qsm_inv m" and st: "handle_vote_response m log src e granted now = (m', as)"
  shows "qsm_inv m'"
proof (cases "qm_role m")
  case (Prospective g ed)
  then have "is_voter m" "qs_leader_id (qm_state m) = None" "qm_me m \<in> g" "vs_wf (qs_voters (qm_state m))"
    using inv by (auto simp: qsm_inv_def role_coherent_def)
  with st Prospective inv show ?thesis
    by (auto simp: handle_vote_response_def transition_to_unattached_def Let_def qsm_inv_def
        role_coherent_def is_voter_def split: if_splits dest!: promote_to_candidate_inv [rotated 2])
next
  case (Candidate g ed)
  then have "is_voter m" "qs_leader_id (qm_state m) = None" "qm_me m \<in> g" "vs_wf (qs_voters (qm_state m))"
    using inv by (auto simp: qsm_inv_def role_coherent_def)
  with st Candidate inv show ?thesis
    by (auto simp: handle_vote_response_def transition_to_unattached_def Let_def qsm_inv_def
        role_coherent_def is_voter_def split: if_splits dest!: promote_to_leader_inv [rotated])
qed (use inv st in \<open>auto simp: handle_vote_response_def transition_to_unattached_def qsm_inv_def
        role_coherent_def split: if_splits\<close>)

lemma on_event_preserves_inv:
  assumes inv: "qsm_inv m" and st: "on_event m ev log now = (m', as)"
  shows "qsm_inv m'"
proof (cases ev)
  case (ReceiveVoteRequest req)
  with st inv show ?thesis
    by (auto simp: handle_vote_request_def transition_to_unattached_def vote_granted_def Let_def
        qsm_inv_def role_coherent_def split: if_splits)
next
  case (ReceiveVoteResponse src e granted)
  with st inv show ?thesis by (auto dest: handle_vote_response_inv)
next
  case (ReceiveBeginQuorumEpoch l e)
  with st inv show ?thesis
    by (auto simp: handle_begin_quorum_epoch_def Let_def qsm_inv_def role_coherent_def split: if_splits)
next
  case (ReceiveEndQuorumEpoch l e)
  with st inv show ?thesis
    by (auto simp: handle_end_quorum_epoch_def transition_to_unattached_def qsm_inv_def role_coherent_def
        split: if_splits dest!: start_election_inv [rotated 2])
next
  case (ReceiveFetch src e off)
  with st inv show ?thesis
    by (auto simp: handle_fetch_def split: if_splits role.splits option.splits dest: record_fetch_inv)
next
  case (ReceiveFetchResponse l e d)
  with st inv show ?thesis
    by (auto simp: handle_fetch_response_def Let_def split: option.splits)
next
  case ElectionTimeout
  with st inv show ?thesis
    by (auto simp: handle_election_timeout_def qsm_inv_def split: if_splits
        dest!: start_election_inv [rotated 2])
next
  case FetchTimeout
  with st inv show ?thesis
    by (auto simp: handle_fetch_timeout_def qsm_inv_def split: if_splits
        dest!: start_election_inv [rotated 2])
qed

section \<open>Membership changes and reachability\<close>

lemma replicas_after_change:
  assumes "bt_wf replicas"
  shows "bt_wf (fold (\<lambda>i r. if i \<noteq> me then bt_or_insert r i d else r) (vs_ids voters)
           (bt_retain (\<lambda>i _. vs_contains voters i \<and> i \<noteq> me) replicas)) \<and>
         set (bt_keys (fold (\<lambda>i r. if i \<noteq> me then bt_or_insert r i d else r) (vs_ids voters)
           (bt_retain (\<lambda>i _. vs_contains voters i \<and> i \<noteq> me) replicas))) = set (vs_ids voters) - {me}"
proof -
  let ?r = "bt_retain (\<lambda>i _. vs_contains voters i \<and> i \<noteq> me) replicas"
  have "set (bt_keys ?r) \<subseteq> set (vs_ids voters) - {me}"
    by (auto simp: bt_keys_def bt_retain_def vs_contains_ids)
  then show ?thesis
    using fold_or_insert_others [of ?r me d "vs_ids voters"] assms by auto
qed

definition tracked_after_change ::
  "node_id \<Rightarrow> voter_set \<Rightarrow> (node_id, replica_progress) btree_map \<Rightarrow> (node_id, replica_progress) btree_map" where
  "tracked_after_change me voters replicas =
     fold (\<lambda>i r. if i \<noteq> me then bt_or_insert r i replica_progress_default else r) (vs_ids voters)
       (bt_retain (\<lambda>i _. vs_contains voters i \<and> i \<noteq> me) replicas)"

lemma tracked_after_change_cover:
  assumes "bt_wf replicas"
  shows "bt_wf (tracked_after_change me voters replicas)"
    and "set (bt_keys (tracked_after_change me voters replicas)) = set (vs_ids voters) - {me}"
  using replicas_after_change [OF assms, of me replica_progress_default voters]
  by (simp_all add: tracked_after_change_def)

lemma apply_voter_set_leader:
  assumes "qm_role m = Leader replicas hwm es" and "apply_voter_set m voters now = (m', as)"
  shows "qm_me m' = qm_me m" and "qm_state m' = (qm_state m)\<lparr>qs_voters := voters\<rparr>"
    and "qm_role m' = Leader (tracked_after_change (qm_me m) voters replicas) hwm es"
  using assms unfolding apply_voter_set_def Let_def tracked_after_change_def by (auto split: if_splits)

lemma apply_voter_set_other:
  assumes "\<not> is_leader (qm_role m)" and "apply_voter_set m voters now = (m', as)"
  shows "qm_me m' = qm_me m" and "qm_state m' = (qm_state m)\<lparr>qs_voters := voters\<rparr>"
    and "(qm_role m' = qm_role m \<and> is_voter m' = is_voter m) \<or>
         (\<exists>d. qm_role m' = Observer (qs_leader_id (qm_state m)) d) \<or>
         (\<exists>l d. qs_leader_id (qm_state m) = Some l \<and> qm_role m' = Follower l d) \<or>
         (qs_leader_id (qm_state m) = None \<and> (\<exists>d. qm_role m' = Unattached d))"
  using assms
  by (auto simp: apply_voter_set_def Let_def is_voter_def split: role.splits if_splits bool.splits option.splits)

lemma apply_voter_set_inv:
  assumes inv: "qsm_inv m" and wf: "vs_wf voters" and st: "apply_voter_set m voters now = (m', as)"
  shows "qsm_inv m'"
proof (cases "is_leader (qm_role m)")
  case True
  then obtain replicas hwm es where role: "qm_role m = Leader replicas hwm es"
    by (auto elim: is_leader.elims)
  then have ok: "bt_wf replicas" "0 \<le> hwm" "qs_leader_id (qm_state m) = Some (qm_me m)"
    using inv by (simp_all add: qsm_inv_def role_coherent_def replicas_cover_def)
  show ?thesis
    using apply_voter_set_leader [OF role st] tracked_after_change_cover [OF ok(1)] ok(2,3) wf
    by (simp add: qsm_inv_def role_coherent_def replicas_cover_def)
next
  case False
  note shape = apply_voter_set_other [OF False st]
  from shape(3) show ?thesis
  proof (elim disjE conjE exE)
    assume "qm_role m' = qm_role m" "is_voter m' = is_voter m"
    then show ?thesis
      using inv wf False shape(1,2)
      by (cases "qm_role m") (simp_all add: qsm_inv_def role_coherent_def)
  qed (use wf shape(2) in \<open>simp_all add: qsm_inv_def role_coherent_def [of m']\<close>)
qed

text \<open>Every way the driver changes the machine, from a fresh start on a recovered state.\<close>

inductive qsm_reach :: "quorum_state_machine \<Rightarrow> bool" where
  start: "vs_wf (qs_voters q) \<Longrightarrow> qs_leader_id q = None \<Longrightarrow> qsm_reach (qsm_new me q t)"
| on_event: "qsm_reach m \<Longrightarrow> qsm_reach (fst (on_event m ev log now))"
| apply_voter_set: "qsm_reach m \<Longrightarrow> vs_wf voters \<Longrightarrow> qsm_reach (fst (apply_voter_set m voters now))"
| commit_voter_set: "qsm_reach m \<Longrightarrow> qsm_reach (commit_voter_set m)"
| set_kraft_version: "qsm_reach m \<Longrightarrow> qsm_reach (set_kraft_version m v)"
| finish_local_leader_removal: "qsm_reach m \<Longrightarrow> qsm_reach (fst (finish_local_leader_removal m now))"

lemma role_coherent_frame:
  assumes "qm_role m' = qm_role m" and "qm_me m' = qm_me m" and "qs_leader_id (qm_state m') = qs_leader_id (qm_state m)"
    and "qs_voters (qm_state m') = qs_voters (qm_state m)" and "qs_voted_key (qm_state m') = qs_voted_key (qm_state m)"
  shows "qsm_inv m' = qsm_inv m"
  using assms by (cases "qm_role m") (simp_all add: qsm_inv_def role_coherent_def replicas_cover_def is_voter_def)

text \<open>
  C2. Role coherence at every reachable state of one replica. Whatever events, membership changes,
  version upgrades and leader removals a replica goes through, its role agrees with its durable
  quorum state: a leader names itself leader and tracks exactly the other voters, a follower names
  the leader it follows, a candidate or prospective node is a voter that counts its own vote, a
  candidate has recorded its own vote, and the voter set stays well formed.
\<close>

theorem qsm_reach_coherent:
  assumes "qsm_reach m"
  shows "vs_wf (qs_voters (qm_state m)) \<and> role_coherent m"
proof -
  have "qsm_inv m"
    using assms
  proof induction
    case (start q me t)
    then show ?case by (simp add: qsm_inv_def role_coherent_def qsm_new_def Let_def role_default_def)
  next
    case (on_event m ev log now)
    then show ?case using on_event_preserves_inv [of m ev log now] by (cases "on_event m ev log now") simp
  next
    case (apply_voter_set m voters now)
    then show ?case using apply_voter_set_inv [of m voters now] by (cases "apply_voter_set m voters now") simp
  next
    case (commit_voter_set m)
    then show ?case using role_coherent_frame [of "commit_voter_set m" m] by (simp add: commit_voter_set_def)
  next
    case (set_kraft_version m v)
    then show ?case using role_coherent_frame [of "set_kraft_version m v" m] by (simp add: set_kraft_version_def)
  next
    case (finish_local_leader_removal m now)
    then show ?case
      by (cases "is_voter m \<or> \<not> is_leader (qm_role m)")
         (simp_all add: finish_local_leader_removal_def Let_def qsm_inv_def role_coherent_def [of "m\<lparr>qm_state := q, qm_role := r\<rparr>" for q r])
  qed
  then show ?thesis by (simp add: qsm_inv_def)
qed

theorem qsm_reach_coherent_witness:
  "role_coherent (fst (on_event (qsm_new 1 (qs_bootstrap 0 (from_voters [plain_voter 1])) 1000)
     ElectionTimeout \<lparr>lv_end_offset = 0, lv_last_epoch = 0, lv_end_offset_for_epoch = (\<lambda>_. None)\<rparr> 0)) \<and>
   is_leader (qm_role (fst (on_event (qsm_new 1 (qs_bootstrap 0 (from_voters [plain_voter 1])) 1000)
     ElectionTimeout \<lparr>lv_end_offset = 0, lv_last_epoch = 0, lv_end_offset_for_epoch = (\<lambda>_. None)\<rparr> 0)))"
    (is "role_coherent (fst (on_event ?m _ ?log 0)) \<and> _")
proof
  have "qsm_reach ?m" by (rule qsm_reach.start) (simp_all add: qs_bootstrap_def)
  then have "qsm_reach (fst (on_event ?m ElectionTimeout ?log 0))" by (rule qsm_reach.on_event)
  then show "role_coherent (fst (on_event ?m ElectionTimeout ?log 0))"
    using qsm_reach_coherent by blast
  show "is_leader (qm_role (fst (on_event ?m ElectionTimeout ?log 0)))" by code_simp
qed

end
