(* ===== verification/Kraft_Outcomes.thy ===== *)
theory Kraft_Outcomes
  imports Kraft_Node
begin

text \<open>
  What one event can do to the facts that elections depend on: the epoch, the recorded vote, the
  votes collected so far, and the vote messages that leave the node. The predicate
  \<open>node_outcome\<close> lists the six possibilities; \<open>on_event_outcome\<close> shows that every handler of
  \<open>crates/kraft-core/src/core.rs\<close> ends in one of them.
\<close>

section \<open>Outcomes of an event\<close>

abbreviation ep :: "quorum_state_machine \<Rightarrow> epoch" where
  "ep m \<equiv> qs_leader_epoch (qm_state m)"

definition vote_of :: "quorum_state_machine \<Rightarrow> node_id option" where
  "vote_of m = map_option rk_id (qs_voted_key (qm_state m))"

text \<open>Contending for, or holding, the leadership of the current epoch.\<close>

fun contender :: "role \<Rightarrow> bool" where
  "contender (Candidate _ _) = True"
| "contender (Leader _ _ _) = True"
| "contender _ = False"

definition no_grant :: "action list \<Rightarrow> bool" where
  "no_grant as \<longleftrightarrow> (\<forall>to e. ReplyVote to e True \<notin> set as)"

definition no_vote_request :: "action list \<Rightarrow> bool" where
  "no_vote_request as \<longleftrightarrow> (\<forall>e p. SendVoteRequest e p \<notin> set as)"

definition real_requests_at :: "action list \<Rightarrow> epoch \<Rightarrow> bool" where
  "real_requests_at as e \<longleftrightarrow> (\<forall>e'. SendVoteRequest e' False \<in> set as \<longrightarrow> e' = e)"

definition pre_requests_at :: "action list \<Rightarrow> epoch \<Rightarrow> bool" where
  "pre_requests_at as e \<longleftrightarrow> (\<forall>e'. SendVoteRequest e' True \<in> set as \<longrightarrow> e' = e)"

definition replies_at :: "action list \<Rightarrow> node_id \<Rightarrow> epoch \<Rightarrow> bool" where
  "replies_at as dst e \<longleftrightarrow> (\<forall>to e' g. ReplyVote to e' g \<in> set as \<longrightarrow> to = dst \<and> e' = e)"

text \<open>Every granted vote in \<open>as\<close> answers the pre-vote request \<open>ev\<close> at the node's own epoch.\<close>

definition pre_grants_only :: "action list \<Rightarrow> event \<Rightarrow> epoch \<Rightarrow> bool" where
  "pre_grants_only as ev e \<longleftrightarrow> (\<forall>to e'. ReplyVote to e' True \<in> set as \<longrightarrow>
     (\<exists>req. ev = ReceiveVoteRequest req \<and> vr_pre_vote req \<and> to = vr_from req \<and>
        e' = e \<and> e \<le> vr_candidate_epoch req))"

text \<open>The roles after an event that neither starts nor advances a candidacy.\<close>

definition candidacy_kept :: "role \<Rightarrow> role \<Rightarrow> bool" where
  "candidacy_kept r r' \<longleftrightarrow> (\<forall>g d. r' = Candidate g d \<longrightarrow> r = Candidate g d) \<and> (is_leader r' \<longrightarrow> is_leader r)"

inductive node_outcome ::
  "quorum_state_machine \<Rightarrow> event \<Rightarrow> quorum_state_machine \<Rightarrow> action list \<Rightarrow> bool" where
  quiet: "ep m' = ep m \<Longrightarrow> vote_of m' = vote_of m \<Longrightarrow> candidacy_kept (qm_role m) (qm_role m') \<Longrightarrow>
     (\<forall>e. SendVoteRequest e False \<notin> set as) \<Longrightarrow>
     pre_requests_at as (ep m) \<Longrightarrow>
     (\<forall>e. SendVoteRequest e True \<in> set as \<longrightarrow> \<not> contender (qm_role m')) \<Longrightarrow>
     pre_grants_only as ev (ep m) \<Longrightarrow>
     node_outcome m ev m' as"
| stepdown: "ep m \<le> ep m' \<Longrightarrow> (ep m' = ep m \<longrightarrow> \<not> is_voter m) \<Longrightarrow> \<not> contender (qm_role m') \<Longrightarrow>
     no_vote_request as \<Longrightarrow> no_grant as \<Longrightarrow> node_outcome m ev m' as"
| grant: "ev = ReceiveVoteRequest req \<Longrightarrow> \<not> vr_pre_vote req \<Longrightarrow> is_voter m \<Longrightarrow>
     ep m \<le> ep m' \<Longrightarrow> ep m' = vr_candidate_epoch req \<Longrightarrow> vote_of m' = Some (vr_candidate req) \<Longrightarrow>
     (ep m' = ep m \<longrightarrow> vote_of m = None \<or> vote_of m = Some (vr_candidate req)) \<Longrightarrow>
     \<not> contender (qm_role m') \<Longrightarrow> no_vote_request as \<Longrightarrow>
     replies_at as (vr_from req) (ep m') \<Longrightarrow>
     node_outcome m ev m' as"
| adopt: "ev = ReceiveBeginQuorumEpoch l e \<Longrightarrow> ep m \<le> ep m' \<Longrightarrow> ep m' = e \<Longrightarrow>
     \<not> contender (qm_role m') \<Longrightarrow> as \<noteq> [] \<Longrightarrow> no_vote_request as \<Longrightarrow> no_grant as \<Longrightarrow>
     node_outcome m ev m' as"
| campaign: "ep m < ep m' \<Longrightarrow> vote_of m' = Some (qm_me m) \<Longrightarrow> is_voter m \<Longrightarrow>
     SendVoteRequest (ep m') False \<in> set as \<Longrightarrow>
     (\<exists>d. qm_role m' = Candidate {qm_me m} d) \<or> (is_leader (qm_role m') \<and> qs_majority (qm_state m) \<le> 1) \<Longrightarrow>
     real_requests_at as (ep m') \<Longrightarrow> pre_requests_at as (ep m) \<Longrightarrow> no_grant as \<Longrightarrow>
     (\<forall>req. ev \<noteq> ReceiveVoteRequest req) \<Longrightarrow>
     node_outcome m ev m' as"
| tally: "ev = ReceiveVoteResponse src (ep m) True \<Longrightarrow> qm_role m = Candidate g d \<Longrightarrow>
     ep m' = ep m \<Longrightarrow> vote_of m' = vote_of m \<Longrightarrow>
     (\<exists>d'. qm_role m' = Candidate (insert src g) d') \<or>
       (is_leader (qm_role m') \<and> qs_majority (qm_state m) \<le> card (insert src g)) \<Longrightarrow>
     no_vote_request as \<Longrightarrow> no_grant as \<Longrightarrow> node_outcome m ev m' as"

lemmas outcome_defs = no_grant_def no_vote_request_def vote_of_def
lemmas quiet_defs = no_grant_def no_vote_request_def candidacy_kept_def pre_requests_at_def pre_grants_only_def

text \<open>The machine after it has abandoned its leader, and the machine after it has bumped the epoch.\<close>

definition prospective_of :: "quorum_state_machine \<Rightarrow> sim_instant \<Rightarrow> quorum_state_machine" where
  "prospective_of m now = m\<lparr>qm_state := (qm_state m)\<lparr>qs_leader_id := None\<rparr>,
     qm_role := Prospective {qm_me m} (election_deadline m now)\<rparr>"

definition candidate_state :: "quorum_state_machine \<Rightarrow> quorum_state" where
  "candidate_state m = (qm_state m)\<lparr>
     qs_leader_epoch := u_saturating_add (qs_leader_epoch (qm_state m)) 1, qs_leader_id := None,
     qs_voted_key := Some \<lparr>rk_id = qm_me m, rk_directory_id = 0\<rparr>\<rparr>"

definition candidate_of :: "quorum_state_machine \<Rightarrow> sim_instant \<Rightarrow> quorum_state_machine" where
  "candidate_of m now = m\<lparr>qm_state := candidate_state m,
     qm_role := Candidate {qm_me m} (election_deadline (m\<lparr>qm_state := candidate_state m\<rparr>) now)\<rparr>"

lemma election_deadline_leader_id [simp]:
  "election_deadline (m\<lparr>qm_state := (qm_state m)\<lparr>qs_leader_id := l\<rparr>\<rparr>) now = election_deadline m now"
  by (simp add: election_deadline_def)

lemma majority_leader_id [simp]: "qs_majority (q\<lparr>qs_leader_id := l\<rparr>) = qs_majority q"
  by (simp add: qs_majority_def)

lemma majority_candidate_state [simp]: "qs_majority (candidate_state m) = qs_majority (qm_state m)"
  by (simp add: qs_majority_def candidate_state_def)

lemma start_election_alt:
  "start_election m log now =
     (if qs_majority (qm_state m) \<le> 1
      then (fst (promote_to_candidate (prospective_of m now) log now),
            [TransitionedTo ''Prospective'', SendVoteRequest (ep m) True,
             ResetTimer ElectionTimer (election_deadline m now)]
            @ snd (promote_to_candidate (prospective_of m now) log now))
      else (prospective_of m now,
            [TransitionedTo ''Prospective'', SendVoteRequest (ep m) True,
             ResetTimer ElectionTimer (election_deadline m now)]))"
  by (simp add: start_election_def Let_def prospective_of_def tally_prevote_reached_majority_def
      split_def)

lemma promote_to_candidate_alt:
  "promote_to_candidate m log now =
     (let as = [PersistQuorumState, TransitionedTo ''Candidate'',
                SendVoteRequest (ep (candidate_of m now)) False,
                ResetTimer ElectionTimer (election_deadline (m\<lparr>qm_state := candidate_state m\<rparr>) now)]
      in if qs_majority (qm_state m) \<le> 1
         then (fst (promote_to_leader (candidate_of m now) log),
               as @ snd (promote_to_leader (candidate_of m now) log))
         else (candidate_of m now, as))"
  by (simp add: promote_to_candidate_def Let_def candidate_of_def candidate_state_def
      tally_candidate_reached_majority_def split_def qs_majority_def)

lemma promote_to_leader_result [simp]:
  "ep (fst (promote_to_leader m log)) = ep m"
  "vote_of (fst (promote_to_leader m log)) = vote_of m"
  "is_leader (qm_role (fst (promote_to_leader m log)))"
  by (simp_all add: promote_to_leader_def Let_def vote_of_def)

lemma candidate_of_result [simp]:
  "ep (candidate_of m now) = u_saturating_add (ep m) 1"
  "vote_of (candidate_of m now) = Some (qm_me m)"
  "\<exists>d. qm_role (candidate_of m now) = Candidate {qm_me m} d"
  by (simp_all add: candidate_of_def candidate_state_def vote_of_def)

lemma promote_to_leader_msgs:
  "no_grant (snd (promote_to_leader m log)) \<and> no_vote_request (snd (promote_to_leader m log))"
  by (simp add: promote_to_leader_def Let_def outcome_defs)

lemma promote_to_candidate_outcome:
  assumes "promote_to_candidate m log now = (m', as)" and "ep m \<noteq> - 1"
  shows "ep m < ep m'" and "vote_of m' = Some (qm_me m)" and "SendVoteRequest (ep m') False \<in> set as"
    and "(\<exists>d. qm_role m' = Candidate {qm_me m} d) \<or> (is_leader (qm_role m') \<and> qs_majority (qm_state m) \<le> 1)"
    and "\<forall>e p. SendVoteRequest e p \<in> set as \<longrightarrow> e = ep m' \<and> \<not> p" and "no_grant as"
proof -
  note msgs = promote_to_leader_msgs [of "candidate_of m now" log]
  note facts = assms(1) u_saturating_add_one(2) [OF assms(2)]
  show "ep m < ep m'" "vote_of m' = Some (qm_me m)" "SendVoteRequest (ep m') False \<in> set as"
    using facts by (auto simp: promote_to_candidate_alt Let_def split: if_splits)
  show "(\<exists>d. qm_role m' = Candidate {qm_me m} d) \<or> (is_leader (qm_role m') \<and> qs_majority (qm_state m) \<le> 1)"
    using assms(1) by (auto simp: promote_to_candidate_alt Let_def split: if_splits)
  show "\<forall>e p. SendVoteRequest e p \<in> set as \<longrightarrow> e = ep m' \<and> \<not> p" "no_grant as"
    using assms(1) msgs
    by (auto simp: promote_to_candidate_alt Let_def no_grant_def no_vote_request_def split: if_splits)
qed

lemma prospective_of_result [simp]:
  "ep (prospective_of m now) = ep m"
  "vote_of (prospective_of m now) = vote_of m"
  "qm_me (prospective_of m now) = qm_me m"
  "qs_majority (qm_state (prospective_of m now)) = qs_majority (qm_state m)"
  "qm_role (prospective_of m now) = Prospective {qm_me m} (election_deadline m now)"
  by (simp_all add: prospective_of_def vote_of_def)

lemma start_election_outcome:
  assumes st: "start_election m log now = (m', as)" and "ep m \<noteq> - 1" and "is_voter m"
    and "\<forall>req. ev \<noteq> ReceiveVoteRequest req"
  shows "node_outcome m ev m' as"
proof (cases "qs_majority (qm_state m) \<le> 1")
  case False
  then have eqs: "m' = prospective_of m now" "as = [TransitionedTo ''Prospective'',
      SendVoteRequest (ep m) True, ResetTimer ElectionTimer (election_deadline m now)]"
    using st by (simp_all add: start_election_alt)
  show ?thesis unfolding eqs by (rule node_outcome.quiet) (simp_all add: quiet_defs)
next
  case True
  let ?p = "prospective_of m now"
  obtain more where pc: "promote_to_candidate ?p log now = (m', more)"
    and as: "as = [TransitionedTo ''Prospective'', SendVoteRequest (ep m) True,
             ResetTimer ElectionTimer (election_deadline m now)] @ more"
    using st True by (cases "promote_to_candidate ?p log now") (simp add: start_election_alt)
  have "ep ?p \<noteq> - 1" using assms(2) by simp
  note out = promote_to_candidate_outcome [OF pc this]
  show ?thesis
  proof (rule node_outcome.campaign)
    show "ep m < ep m'" "vote_of m' = Some (qm_me m)" "is_voter m" "\<forall>req. ev \<noteq> ReceiveVoteRequest req"
      "SendVoteRequest (ep m') False \<in> set as"
      using out(1-3) assms(3,4) by (simp_all add: as)
    show "(\<exists>d. qm_role m' = Candidate {qm_me m} d) \<or>
        is_leader (qm_role m') \<and> qs_majority (qm_state m) \<le> 1"
      using out(4) by simp
    show "real_requests_at as (ep m')" "pre_requests_at as (ep m)"
      using out(5) unfolding as real_requests_at_def pre_requests_at_def by auto
    show "no_grant as" using out(6) unfolding as by (simp add: no_grant_def)
  qed
qed

lemma quiet_unchanged:
  assumes "no_vote_request as" and "no_grant as"
  shows "node_outcome m ev m as"
  by (rule node_outcome.quiet) (use assms in \<open>simp_all add: quiet_defs\<close>)

lemma transition_to_unattached_outcome:
  assumes "transition_to_unattached m e now = (m', as)" and "ep m \<le> e" and "e = ep m \<longrightarrow> \<not> is_voter m"
  shows "node_outcome m ev m' as"
  by (rule node_outcome.stepdown)
     (use assms in \<open>auto simp: transition_to_unattached_def no_vote_request_def no_grant_def\<close>)

lemma handle_vote_response_outcome:
  assumes inv: "qsm_inv m" and "ep m \<noteq> - 1"
    and st: "handle_vote_response m log src e granted now = (m', as)"
  shows "node_outcome m (ReceiveVoteResponse src e granted) m' as"
proof (cases "granted \<and> e = ep m")
  case False
  show ?thesis
  proof (cases "\<not> granted \<and> e > ep m")
    case True
    then have "transition_to_unattached m e now = (m', as)"
      using st by (simp add: handle_vote_response_def)
    then show ?thesis
      by (rule transition_to_unattached_outcome) (use True in auto)
  next
    case keep: False
    have "m' = m" "as = []"
      using st False keep by (auto simp: handle_vote_response_def split: role.splits if_splits)
    then show ?thesis using quiet_unchanged [of "[]" m] by (simp add: outcome_defs)
  qed
next
  case match: True
  show ?thesis
  proof (cases "qm_role m")
    case (Prospective g d)
    let ?m = "m\<lparr>qm_role := Prospective (insert src g) d\<rparr>"
    have voter: "is_voter m" using inv Prospective by (simp add: qsm_inv_def role_coherent_def)
    show ?thesis
    proof (cases "tally_prevote_reached_majority ?m")
      case True
      then have pc: "promote_to_candidate ?m log now = (m', as)"
        using st match Prospective by (simp add: handle_vote_response_def)
      have "ep ?m \<noteq> - 1" using assms(2) by simp
      note out = promote_to_candidate_outcome [OF pc this, simplified]
      show ?thesis
      proof (rule node_outcome.campaign)
        show "real_requests_at as (ep m')" "pre_requests_at as (ep m)"
          using out(5) unfolding real_requests_at_def pre_requests_at_def by blast+
      qed (fact out(1-4,6) voter | simp)+
    next
      case False
      then have "m' = ?m" "as = []"
        using st match Prospective by (simp_all add: handle_vote_response_def)
      then show ?thesis by (intro node_outcome.quiet) (simp_all add: vote_of_def quiet_defs)
    qed
  next
    case (Candidate g d)
    let ?m = "m\<lparr>qm_role := Candidate (insert src g) d\<rparr>"
    show ?thesis
    proof (cases "tally_candidate_reached_majority ?m")
      case True
      then have pl: "promote_to_leader ?m log = (m', as)"
        using st match Candidate by (simp add: handle_vote_response_def)
      have maj: "qs_majority (qm_state m) \<le> card (insert src g)"
        using True by (simp add: tally_candidate_reached_majority_def)
      note res = promote_to_leader_result [of ?m log] promote_to_leader_msgs [of ?m log]
      show ?thesis
        by (rule node_outcome.tally [OF _ Candidate _ _ disjI2])
           (use res maj match in \<open>simp_all add: pl vote_of_def\<close>)
    next
      case False
      then have "m' = ?m" "as = []"
        using st match Candidate by (simp_all add: handle_vote_response_def)
      then show ?thesis using match
        by (intro node_outcome.tally [OF _ Candidate]) (simp_all add: outcome_defs)
    qed
  qed (use st match in \<open>simp_all add: handle_vote_response_def quiet_unchanged outcome_defs\<close>)
qed

text \<open>A vote request that is considered at all, and the machine after it adopted the request's epoch.\<close>

definition vote_considered :: "quorum_state_machine \<Rightarrow> vote_request \<Rightarrow> bool" where
  "vote_considered m req \<longleftrightarrow> (vr_voter_id req = qm_me m \<or> vr_voter_id req = 0) \<and> is_voter m \<and>
     current_or_adjacent_voter m (vr_candidate req) \<and> ep m \<le> vr_candidate_epoch req"

definition fenced :: "quorum_state_machine \<Rightarrow> vote_request \<Rightarrow> sim_instant \<Rightarrow> quorum_state_machine" where
  "fenced m req now =
     (if ep m < vr_candidate_epoch req then fst (transition_to_unattached m (vr_candidate_epoch req) now) else m)"

lemma vote_not_considered:
  assumes "\<not> vote_considered m req" and "handle_vote_request m req log now = (m', as)"
  shows "m' = m" and "as = [] \<or> as = [ReplyVote (vr_from req) (ep m) False]"
  using assms by (auto simp: handle_vote_request_def vote_considered_def not_le split: if_splits)

lemma pre_vote_considered:
  assumes "vote_considered m req" and "vr_pre_vote req"
  shows "handle_vote_request m req log now = (m, [ReplyVote (vr_from req) (ep m) (vote_granted m log req)])"
  using assms by (simp add: handle_vote_request_def vote_considered_def not_le [symmetric] Let_def)

lemma real_vote_denied:
  assumes "vote_considered m req" and "\<not> vr_pre_vote req" and "\<not> vote_granted (fenced m req now) log req"
    and "handle_vote_request m req log now = (m', as)"
  shows "m' = fenced m req now" and "no_vote_request as" and "no_grant as"
  using assms
  by (auto simp: handle_vote_request_def vote_considered_def not_le [symmetric] Let_def fenced_def
      transition_to_unattached_def no_vote_request_def no_grant_def split: if_splits)

lemma real_vote_granted:
  assumes "vote_considered m req" and "\<not> vr_pre_vote req" and "vote_granted (fenced m req now) log req"
    and "handle_vote_request m req log now = (m', as)"
  shows "vote_of m' = Some (vr_candidate req)" and "ep m' = vr_candidate_epoch req"
    and "\<not> contender (qm_role m')" and "no_vote_request as"
    and "\<forall>to e g. ReplyVote to e g \<in> set as \<longrightarrow> to = vr_from req \<and> e = vr_candidate_epoch req"
  using assms
  by (auto simp: handle_vote_request_def vote_considered_def not_le [symmetric] Let_def fenced_def
      transition_to_unattached_def no_vote_request_def vote_of_def split: if_splits)

lemma handle_vote_request_outcome:
  assumes st: "handle_vote_request m req log now = (m', as)"
  shows "node_outcome m (ReceiveVoteRequest req) m' as"
proof (cases "vote_considered m req")
  case False
  note out = vote_not_considered [OF False st]
  show ?thesis unfolding out(1) by (rule quiet_unchanged) (use out(2) in \<open>auto simp: outcome_defs\<close>)
next
  case True
  then have le: "ep m \<le> vr_candidate_epoch req" and voter: "is_voter m"
    by (simp_all add: vote_considered_def)
  consider (pre) "vr_pre_vote req"
    | (deny) "\<not> vr_pre_vote req" "\<not> vote_granted (fenced m req now) log req"
    | (grant) "\<not> vr_pre_vote req" "vote_granted (fenced m req now) log req" by blast
  then show ?thesis
  proof cases
    case pre
    then have out: "m' = m" "as = [ReplyVote (vr_from req) (ep m) (vote_granted m log req)]"
      using pre_vote_considered [OF True pre, of log now] st by auto
    show ?thesis unfolding out by (rule node_outcome.quiet) (use pre le in \<open>simp_all add: quiet_defs\<close>)
  next
    case deny
    note out = real_vote_denied [OF True deny st]
    show ?thesis
    proof (cases "ep m < vr_candidate_epoch req")
      case True
      then show ?thesis using out
        by (intro node_outcome.stepdown) (auto simp: fenced_def transition_to_unattached_def)
    next
      case False
      then show ?thesis using out quiet_unchanged [of as m] by (simp add: fenced_def)
    qed
  next
    case grant
    note out = real_vote_granted [OF True grant st]
    have old: "vote_of m = None \<or> vote_of m = Some (vr_candidate req)" if "ep m = vr_candidate_epoch req"
      using grant that
      by (auto simp: fenced_def vote_granted_def Let_def vote_of_def split: option.splits)
    show ?thesis
      by (rule node_outcome.grant [OF refl grant(1) voter _ out(2) out(1) _ out(3,4)])
         (use le old out(2,5) in \<open>simp_all add: replies_at_def\<close>)
  qed
qed

lemma handle_begin_quorum_epoch_outcome:
  assumes st: "handle_begin_quorum_epoch m l e now = (m', as)"
  shows "node_outcome m (ReceiveBeginQuorumEpoch l e) m' as"
proof (cases "as = []")
  case True
  then have "m' = m" using st by (auto simp: handle_begin_quorum_epoch_def Let_def split: if_splits)
  with True show ?thesis using quiet_unchanged [of "[]" m] by (simp add: outcome_defs)
next
  case False
  then have "ep m \<le> e" "ep m' = e" "\<not> contender (qm_role m')" "no_vote_request as" "no_grant as"
    using st by (auto simp: handle_begin_quorum_epoch_def Let_def outcome_defs split: if_splits)
  with False show ?thesis by (intro node_outcome.adopt [OF refl]) simp_all
qed

lemma handle_fetch_outcome:
  assumes "handle_fetch m log src e off = (m', as)"
  shows "node_outcome m ev m' as"
proof -
  have "qm_state m' = qm_state m" "no_vote_request as" "no_grant as"
    "is_leader (qm_role m') = is_leader (qm_role m)" "contender (qm_role m') \<Longrightarrow> \<not> is_leader (qm_role m) \<Longrightarrow> m' = m"
    using assms
    by (auto simp: handle_fetch_def record_fetch_def Let_def outcome_defs split: role.splits if_splits option.splits)
  then show ?thesis
    by (intro node_outcome.quiet) (auto simp: outcome_defs quiet_defs)
qed

lemma on_event_outcome:
  assumes "qsm_inv m" and "ep m \<noteq> - 1" and "on_event m ev log now = (m', as)"
  shows "node_outcome m ev m' as"
proof (cases ev)
  case (ReceiveFetchResponse l e d)
  have "m' = m" "no_vote_request as" "no_grant as"
    using assms(3) ReceiveFetchResponse
    by (auto simp: handle_fetch_response_def outcome_defs split: option.splits)
  then show ?thesis by (simp add: quiet_unchanged)
next
  case ElectionTimeout
  then show ?thesis
    using assms start_election_outcome [of m log now m' as ElectionTimeout] quiet_unchanged [of "[]" m]
    by (auto simp: handle_election_timeout_def outcome_defs split: if_splits)
next
  case FetchTimeout
  then show ?thesis
    using assms start_election_outcome [of m log now m' as FetchTimeout] quiet_unchanged [of "[]" m]
    by (auto simp: handle_fetch_timeout_def outcome_defs split: if_splits)
next
  case (ReceiveEndQuorumEpoch l e)
  then show ?thesis
    using assms start_election_outcome [of m log now m' as ev] quiet_unchanged [of "[]" m]
      transition_to_unattached_outcome [of m "ep m" now m' as ev]
    by (auto simp: handle_end_quorum_epoch_def outcome_defs split: if_splits)
next
  case (ReceiveVoteResponse src e g)
  then show ?thesis using assms handle_vote_response_outcome by simp
next
  case (ReceiveVoteRequest req)
  then show ?thesis using assms handle_vote_request_outcome by simp
next
  case (ReceiveBeginQuorumEpoch l e)
  then show ?thesis using assms handle_begin_quorum_epoch_outcome by simp
next
  case (ReceiveFetch src e off)
  then show ?thesis using assms handle_fetch_outcome by simp
qed

end
