(* ===== verification/Kraft_Election.thy ===== *)
theory Kraft_Election
  imports Kraft_Outcomes
begin

text \<open>
  A cluster of replicas that exchange vote messages, and election safety. The messages are those
  of \<open>crates/raft/src/kraft/controller.rs\<close>: \<open>broadcast_vote\<close> addresses one request to every other
  voter, and a \<open>ReplyVote\<close> action becomes the response that the candidate receives. The network
  may lose, delay, reorder and duplicate messages. Three ghost fields record history: the ballots
  that were cast, the epochs in which a node adopted a leader, and the leaders that were elected.

  The voter set is fixed during a run, every event other than a vote message may carry any data,
  and nodes may restart at any time with the durable part of their state (epoch and vote). Two
  restrictions delimit the theorem. A node whose epoch is the largest 32-bit value takes no step,
  since the source saturates there. A real vote request does not reach a node that has already
  adopted a leader in that very epoch; \<open>double_vote_two_leaders\<close> shows on a concrete run that
  without this second restriction the code elects two leaders in one epoch.
\<close>

section \<open>Messages\<close>

datatype message =
    VoteReq node_id vote_request
  | VoteResp node_id node_id epoch bool

definition other_voters :: "quorum_state_machine \<Rightarrow> node_id list" where
  "other_voters m = filter (\<lambda>i. i \<noteq> qm_me m) (vs_ids (qs_voters (qm_state m)))"

definition broadcast_vote :: "quorum_state_machine \<Rightarrow> log_view \<Rightarrow> epoch \<Rightarrow> bool \<Rightarrow> message list" where
  "broadcast_vote m log e pre_vote =
     map (\<lambda>peer. VoteReq peer
            \<lparr>vr_from = qm_me m, vr_voter_id = peer, vr_candidate_epoch = e, vr_candidate = qm_me m,
             vr_candidate_log_end = \<lparr>le_last_epoch = lv_last_epoch log, le_last_offset = lv_end_offset log\<rparr>,
             vr_pre_vote = pre_vote\<rparr>)
       (other_voters m)"

fun messages_of :: "quorum_state_machine \<Rightarrow> log_view \<Rightarrow> action \<Rightarrow> message list" where
  "messages_of m log (SendVoteRequest e pre_vote) = broadcast_vote m log e pre_vote"
| "messages_of m log (ReplyVote to e g) = [VoteResp to (qm_me m) e g]"
| "messages_of m log _ = []"

section \<open>The cluster\<close>

text \<open>The votes an action casts: a candidate's vote for itself and a granted real vote.\<close>

fun ballots_of :: "node_id \<Rightarrow> event \<Rightarrow> action \<Rightarrow> (node_id \<times> epoch \<times> node_id) list" where
  "ballots_of n ev (SendVoteRequest e pre_vote) = (if pre_vote then [] else [(n, e, n)])"
| "ballots_of n ev (ReplyVote to e g) =
     (case ev of
        ReceiveVoteRequest req \<Rightarrow> if g \<and> \<not> vr_pre_vote req then [(n, e, vr_candidate req)] else []
      | _ \<Rightarrow> [])"
| "ballots_of n ev _ = []"

record cluster =
  cl_nodes :: "node_id \<Rightarrow> quorum_state_machine"
  cl_net :: "message set"
  cl_ballots :: "(node_id \<times> epoch \<times> node_id) set"
  cl_adopted :: "(node_id \<times> epoch) set"
  cl_elected :: "(node_id \<times> epoch) set"

definition cluster_init :: "uuid \<Rightarrow> voter_set \<Rightarrow> int \<Rightarrow> cluster" where
  "cluster_init cid vs timeout =
     \<lparr>cl_nodes = (\<lambda>n. qsm_new n (qs_bootstrap cid vs) timeout),
      cl_net = {}, cl_ballots = {}, cl_adopted = {}, cl_elected = {}\<rparr>"

fun is_begin :: "event \<Rightarrow> bool" where
  "is_begin (ReceiveBeginQuorumEpoch _ _) = True"
| "is_begin _ = False"

definition cluster_event :: "cluster \<Rightarrow> node_id \<Rightarrow> event \<Rightarrow> log_view \<Rightarrow> sim_instant \<Rightarrow> cluster" where
  "cluster_event c n ev log now =
     (let (m', as) = on_event (cl_nodes c n) ev log now
      in \<lparr>cl_nodes = (cl_nodes c)(n := m'),
          cl_net = cl_net c \<union> set (concat (map (messages_of m' log) as)),
          cl_ballots = cl_ballots c \<union> set (concat (map (ballots_of n ev) as)),
          cl_adopted = (if is_begin ev \<and> as \<noteq> [] then insert (n, ep m') (cl_adopted c) else cl_adopted c),
          cl_elected = (if is_leader (qm_role m') then insert (n, ep m') (cl_elected c) else cl_elected c)\<rparr>)"

definition cluster_restart :: "cluster \<Rightarrow> node_id \<Rightarrow> int \<Rightarrow> cluster" where
  "cluster_restart c n timeout =
     c\<lparr>cl_nodes := (cl_nodes c)(n := qsm_new n ((qm_state (cl_nodes c n))\<lparr>qs_leader_id := None\<rparr>) timeout)\<rparr>"

text \<open>
  Vote messages are delivered only if they were sent, any number of times and in any order; the
  other events may carry any data at all.
\<close>

fun deliverable :: "cluster \<Rightarrow> node_id \<Rightarrow> event \<Rightarrow> bool" where
  "deliverable c n (ReceiveVoteRequest req) =
     (VoteReq n req \<in> cl_net c \<and> (vr_pre_vote req \<or> (n, vr_candidate_epoch req) \<notin> cl_adopted c))"
| "deliverable c n (ReceiveVoteResponse src e g) = (VoteResp n src e g \<in> cl_net c)"
| "deliverable c n _ = True"

inductive cluster_reach :: "voter_set \<Rightarrow> cluster \<Rightarrow> bool" for vs where
  init: "cluster_reach vs (cluster_init cid vs timeout)"
| event: "cluster_reach vs c \<Longrightarrow> vs_contains vs n \<Longrightarrow> ep (cl_nodes c n) \<noteq> - 1 \<Longrightarrow> deliverable c n ev \<Longrightarrow>
     cluster_reach vs (cluster_event c n ev log now)"
| restart: "cluster_reach vs c \<Longrightarrow> vs_contains vs n \<Longrightarrow> cluster_reach vs (cluster_restart c n timeout)"

section \<open>What an outcome means for the election\<close>

lemma outcome_epoch_mono: "node_outcome m ev m' as \<Longrightarrow> ep m \<le> ep m'"
  by (induction rule: node_outcome.induct) (simp_all add: less_imp_le)

lemma outcome_contender:
  "node_outcome m ev m' as \<Longrightarrow> contender (qm_role m') \<Longrightarrow> ep m' = ep m \<Longrightarrow> contender (qm_role m)"
  by (induction rule: node_outcome.induct)
     (auto simp: candidacy_kept_def elim!: contender.elims is_leader.elims)

lemma outcome_vote_kept:
  assumes "node_outcome m ev m' as" and "is_voter m" and "ep m' = ep m"
  shows "vote_of m' = vote_of m \<or> vote_of m = None \<or> is_begin ev \<and> as \<noteq> []"
  using assms(1)
proof cases
  case (grant req)
  then show ?thesis using assms(3) by auto
qed (use assms(2,3) in simp_all)

lemma outcome_ballots:
  assumes "node_outcome m ev m' as" and "(v, e, x) \<in> set (concat (map (ballots_of n ev) as))" and "n = qm_me m"
  shows "v = n \<and> e = ep m' \<and> vote_of m' = Some x \<and>
    (ep m' = ep m \<longrightarrow> (vote_of m = None \<or> vote_of m = Some x) \<and>
       (\<exists>req. ev = ReceiveVoteRequest req \<and> \<not> vr_pre_vote req \<and> vr_candidate_epoch req = e))"
proof -
  obtain a where a: "a \<in> set as" "(v, e, x) \<in> set (ballots_of n ev a)" using assms(2) by auto
  have cast: "v = n \<and> ((a = SendVoteRequest e False \<and> x = n) \<or>
      (\<exists>to req. a = ReplyVote to e True \<and> ev = ReceiveVoteRequest req \<and> \<not> vr_pre_vote req \<and> x = vr_candidate req))"
    using a(2) by (cases a) (auto split: if_splits event.splits)
  from assms(1) show ?thesis
  proof cases
    case quiet
    then show ?thesis using cast a(1) unfolding pre_grants_only_def by blast
  next
    case stepdown
    then show ?thesis using cast a(1) unfolding no_vote_request_def no_grant_def by blast
  next
    case (grant req)
    then have "e = ep m'" "x = vr_candidate req" "v = n"
      using cast a(1) unfolding no_vote_request_def replies_at_def by blast+
    then show ?thesis using grant(1-7) by auto
  next
    case (adopt l e')
    then show ?thesis using cast a(1) unfolding no_vote_request_def no_grant_def by blast
  next
    case campaign
    then have "a = SendVoteRequest e False" "x = n" "v = n" "e = ep m'"
      using cast a(1) unfolding no_grant_def real_requests_at_def by blast+
    then show ?thesis using campaign assms(3) by simp
  next
    case (tally src g d)
    then show ?thesis using cast a(1) unfolding no_vote_request_def no_grant_def by blast
  qed
qed

lemma outcome_requests:
  assumes "node_outcome m ev m' as" and "SendVoteRequest e True \<in> set as"
  shows "e \<le> ep m' \<and> (contender (qm_role m') \<longrightarrow> e < ep m')"
  using assms(1)
proof cases
  case quiet
  then have "e = ep m" using assms(2) unfolding pre_requests_at_def by blast
  then show ?thesis using quiet assms(2) by auto
next
  case campaign
  then have "e = ep m" using assms(2) unfolding pre_requests_at_def by blast
  then show ?thesis using campaign by simp
qed (use assms(2) in \<open>auto simp: no_vote_request_def\<close>)

lemma outcome_grants:
  assumes "node_outcome m ev m' as" and "ReplyVote to e True \<in> set as"
  shows "\<exists>req. ev = ReceiveVoteRequest req \<and> to = vr_from req \<and> (vr_pre_vote req \<longrightarrow> e \<le> vr_candidate_epoch req)"
  using assms(1)
proof cases
  case quiet
  then show ?thesis using assms(2) unfolding pre_grants_only_def by blast
next
  case (grant req)
  then show ?thesis using assms(2) unfolding replies_at_def by blast
qed (use assms(2) in \<open>auto simp: no_grant_def\<close>)

lemma outcome_candidate:
  assumes "node_outcome m ev m' as" and "qm_role m' = Candidate g d" and "v \<in> g"
  shows "(v = qm_me m \<and> SendVoteRequest (ep m') False \<in> set as) \<or>
    (ep m' = ep m \<and> (\<exists>g0 d0. qm_role m = Candidate g0 d0 \<and> (v \<in> g0 \<or> ev = ReceiveVoteResponse v (ep m) True)))"
  using assms(1)
proof cases
  case quiet
  then show ?thesis using assms(2,3) unfolding candidacy_kept_def by blast
qed (use assms(2,3) in auto)

lemma outcome_leader:
  assumes "node_outcome m ev m' as" and "is_leader (qm_role m')"
  shows "(ep m' = ep m \<and> is_leader (qm_role m)) \<or>
    (SendVoteRequest (ep m') False \<in> set as \<and> qs_majority (qm_state m) \<le> card {qm_me m}) \<or>
    (\<exists>g d src. ep m' = ep m \<and> qm_role m = Candidate g d \<and> ev = ReceiveVoteResponse src (ep m) True \<and>
       qs_majority (qm_state m) \<le> card (insert src g))"
  using assms(1)
proof cases
  case quiet
  then show ?thesis using assms(2) unfolding candidacy_kept_def by blast
qed (use assms(2) in \<open>auto elim!: is_leader.elims\<close>)


section \<open>The cluster invariant\<close>

definition nodes_ok :: "voter_set \<Rightarrow> cluster \<Rightarrow> bool" where
  "nodes_ok vs c \<longleftrightarrow> (\<forall>n. vs_contains vs n \<longrightarrow> qm_me (cl_nodes c n) = n \<and>
     qs_voters (qm_state (cl_nodes c n)) = vs \<and> qm_adjacent_voters (cl_nodes c n) = None \<and> qsm_inv (cl_nodes c n))"

text \<open>A cast ballot stays on record at its voter, or the voter has adopted a leader since.\<close>

definition ballots_recorded :: "voter_set \<Rightarrow> cluster \<Rightarrow> bool" where
  "ballots_recorded vs c \<longleftrightarrow> (\<forall>v e x. (v, e, x) \<in> cl_ballots c \<longrightarrow> vs_contains vs v \<and> e \<le> ep (cl_nodes c v) \<and>
     (e = ep (cl_nodes c v) \<longrightarrow> vote_of (cl_nodes c v) = Some x \<or> (v, e) \<in> cl_adopted c))"

definition ballots_unique :: "cluster \<Rightarrow> bool" where
  "ballots_unique c \<longleftrightarrow> (\<forall>v e x y. (v, e, x) \<in> cl_ballots c \<longrightarrow> (v, e, y) \<in> cl_ballots c \<longrightarrow> x = y)"

definition requests_ok :: "cluster \<Rightarrow> bool" where
  "requests_ok c \<longleftrightarrow> (\<forall>to req. VoteReq to req \<in> cl_net c \<longrightarrow> vr_from req = vr_candidate req \<and>
     (vr_pre_vote req \<longrightarrow> vr_candidate_epoch req \<le> ep (cl_nodes c (vr_candidate req)) \<and>
        (contender (qm_role (cl_nodes c (vr_candidate req))) \<longrightarrow>
           vr_candidate_epoch req < ep (cl_nodes c (vr_candidate req)))))"

definition grants_ok :: "cluster \<Rightarrow> bool" where
  "grants_ok c \<longleftrightarrow> (\<forall>to src e. VoteResp to src e True \<in> cl_net c \<longrightarrow> (src, e, to) \<in> cl_ballots c \<or>
     (\<exists>d req. VoteReq d req \<in> cl_net c \<and> vr_pre_vote req \<and> vr_candidate req = to \<and> e \<le> vr_candidate_epoch req))"

definition candidates_backed :: "voter_set \<Rightarrow> cluster \<Rightarrow> bool" where
  "candidates_backed vs c \<longleftrightarrow> (\<forall>n g d v. vs_contains vs n \<longrightarrow> qm_role (cl_nodes c n) = Candidate g d \<longrightarrow> v \<in> g \<longrightarrow>
     (v, ep (cl_nodes c n), n) \<in> cl_ballots c)"

definition leaders_listed :: "voter_set \<Rightarrow> cluster \<Rightarrow> bool" where
  "leaders_listed vs c \<longleftrightarrow> (\<forall>n. vs_contains vs n \<longrightarrow> is_leader (qm_role (cl_nodes c n)) \<longrightarrow>
     (n, ep (cl_nodes c n)) \<in> cl_elected c)"

definition backed :: "voter_set \<Rightarrow> cluster \<Rightarrow> node_id \<Rightarrow> epoch \<Rightarrow> bool" where
  "backed vs c n e \<longleftrightarrow> (\<exists>Q. Q \<subseteq> set (vs_ids vs) \<and> vs_len vs div 2 + 1 \<le> card Q \<and> (\<forall>v\<in>Q. (v, e, n) \<in> cl_ballots c))"

definition elected_backed :: "voter_set \<Rightarrow> cluster \<Rightarrow> bool" where
  "elected_backed vs c \<longleftrightarrow> (\<forall>n e. (n, e) \<in> cl_elected c \<longrightarrow> backed vs c n e)"

definition cluster_inv :: "voter_set \<Rightarrow> cluster \<Rightarrow> bool" where
  "cluster_inv vs c \<longleftrightarrow> nodes_ok vs c \<and> ballots_recorded vs c \<and> ballots_unique c \<and> requests_ok c \<and>
     grants_ok c \<and> candidates_backed vs c \<and> leaders_listed vs c \<and> elected_backed vs c"

lemmas cluster_inv_defs = nodes_ok_def ballots_recorded_def ballots_unique_def requests_ok_def grants_ok_def
  candidates_backed_def leaders_listed_def elected_backed_def backed_def

lemma cluster_inv_init: "vs_wf vs \<Longrightarrow> cluster_inv vs (cluster_init cid vs timeout)"
  unfolding cluster_inv_def cluster_inv_defs
  by (simp add: cluster_init_def qsm_new_def qs_bootstrap_def qsm_inv_def role_coherent_def role_default_def)

lemma restart_node [simp]:
  "qm_me (qsm_new n q t) = n" "qm_state (qsm_new n q t) = q" "qm_adjacent_voters (qsm_new n q t) = None"
  "\<not> contender (qm_role (qsm_new n q t))" "\<not> is_leader (qm_role (qsm_new n q t))"
  "qm_role (qsm_new n q t) \<noteq> Candidate g d"
  by (simp_all add: qsm_new_def Let_def role_default_def)

lemma cluster_inv_restart:
  assumes "cluster_inv vs c" and "vs_contains vs n"
  shows "cluster_inv vs (cluster_restart c n t)"
proof -
  let ?c = "cluster_restart c n t"
  have nodes: "cl_nodes ?c = (cl_nodes c)(n := qsm_new n ((qm_state (cl_nodes c n))\<lparr>qs_leader_id := None\<rparr>) t)"
    and same: "cl_net ?c = cl_net c" "cl_ballots ?c = cl_ballots c" "cl_adopted ?c = cl_adopted c"
      "cl_elected ?c = cl_elected c"
    by (simp_all add: cluster_restart_def)
  have keep: "ep (cl_nodes ?c v) = ep (cl_nodes c v)" "vote_of (cl_nodes ?c v) = vote_of (cl_nodes c v)" for v
    by (simp_all add: nodes vote_of_def)
  have roles: "contender (qm_role (cl_nodes ?c v)) \<Longrightarrow> contender (qm_role (cl_nodes c v))"
    "is_leader (qm_role (cl_nodes ?c v)) \<Longrightarrow> is_leader (qm_role (cl_nodes c v))"
    "qm_role (cl_nodes ?c v) = Candidate g d \<Longrightarrow> qm_role (cl_nodes c v) = Candidate g d" for v g d
    by (auto simp: nodes split: if_splits)
  have "nodes_ok vs ?c"
    using assms by (auto simp: cluster_inv_def nodes_ok_def nodes qsm_inv_def role_coherent_def qsm_new_def
        role_default_def)
  moreover have "ballots_recorded vs ?c" "ballots_unique ?c" "grants_ok ?c" "elected_backed vs ?c"
    using assms(1)
    by (simp_all add: cluster_inv_def ballots_recorded_def ballots_unique_def grants_ok_def elected_backed_def
        backed_def same keep)
  moreover have "requests_ok ?c"
    using assms(1) roles(1) unfolding cluster_inv_def requests_ok_def same keep by blast
  moreover have "candidates_backed vs ?c"
    using assms(1) roles(3) unfolding cluster_inv_def candidates_backed_def same keep by blast
  moreover have "leaders_listed vs ?c"
    using assms(1) roles(2) unfolding cluster_inv_def leaders_listed_def same keep by blast
  ultimately show ?thesis by (simp add: cluster_inv_def)
qed

text \<open>All that the preservation proofs use of one event step.\<close>

definition stepping ::
  "voter_set \<Rightarrow> cluster \<Rightarrow> node_id \<Rightarrow> event \<Rightarrow> log_view \<Rightarrow> quorum_state_machine \<Rightarrow> action list \<Rightarrow> cluster \<Rightarrow> bool" where
  "stepping vs c n ev log m' as c' \<longleftrightarrow>
     cluster_inv vs c \<and> vs_contains vs n \<and> deliverable c n ev \<and> node_outcome (cl_nodes c n) ev m' as \<and>
     qsm_inv m' \<and> qm_me m' = n \<and> qs_voters (qm_state m') = vs \<and> qm_adjacent_voters m' = None \<and>
     cl_nodes c' = (cl_nodes c)(n := m') \<and>
     cl_net c' = cl_net c \<union> set (concat (map (messages_of m' log) as)) \<and>
     cl_ballots c' = cl_ballots c \<union> set (concat (map (ballots_of n ev) as)) \<and>
     cl_adopted c' = (if is_begin ev \<and> as \<noteq> [] then insert (n, ep m') (cl_adopted c) else cl_adopted c) \<and>
     cl_elected c' = (if is_leader (qm_role m') then insert (n, ep m') (cl_elected c) else cl_elected c)"

lemma stepping_event:
  assumes inv: "cluster_inv vs c" and n: "vs_contains vs n" "ep (cl_nodes c n) \<noteq> - 1" "deliverable c n ev"
    and ev: "on_event (cl_nodes c n) ev log now = (m', as)"
  shows "stepping vs c n ev log m' as (cluster_event c n ev log now)"
proof -
  have ok: "qm_me (cl_nodes c n) = n" "qs_voters (qm_state (cl_nodes c n)) = vs"
    "qm_adjacent_voters (cl_nodes c n) = None" "qsm_inv (cl_nodes c n)"
    using inv n(1) by (simp_all add: cluster_inv_def nodes_ok_def)
  note step = on_event_outcome [OF ok(4) n(2) ev] on_event_frame [OF ev] on_event_preserves_inv [OF ok(4) ev]
  show ?thesis
    using inv n step ok by (simp add: stepping_def cluster_event_def ev)
qed

lemma stepping_old:
  assumes "stepping vs c n ev log m' as c'"
  shows "qm_me (cl_nodes c n) = n" "is_voter (cl_nodes c n)" "qs_voters (qm_state (cl_nodes c n)) = vs"
    "cl_ballots c \<subseteq> cl_ballots c'" "cl_net c \<subseteq> cl_net c'" "cl_adopted c \<subseteq> cl_adopted c'"
    "ep (cl_nodes c v) \<le> ep (cl_nodes c' v)"
  using assms outcome_epoch_mono [of "cl_nodes c n" ev m' as]
  by (auto simp: stepping_def cluster_inv_def nodes_ok_def is_voter_def)

lemma stepping_new_request:
  assumes "stepping vs c n ev log m' as c'" and "VoteReq to req \<in> cl_net c'"
  shows "VoteReq to req \<in> cl_net c \<or>
    (vr_from req = n \<and> vr_candidate req = n \<and> SendVoteRequest (vr_candidate_epoch req) (vr_pre_vote req) \<in> set as)"
proof -
  have "VoteReq to req \<in> cl_net c \<or> (\<exists>a \<in> set as. VoteReq to req \<in> set (messages_of m' log a))"
    using assms by (auto simp: stepping_def)
  moreover have "vr_from req = n \<and> vr_candidate req = n \<and> a = SendVoteRequest (vr_candidate_epoch req) (vr_pre_vote req)"
    if "VoteReq to req \<in> set (messages_of m' log a)" for a
    using that assms(1) by (cases a) (auto simp: broadcast_vote_def stepping_def)
  ultimately show ?thesis by blast
qed

lemma stepping_new_response:
  assumes "stepping vs c n ev log m' as c'" and "VoteResp to src e g \<in> cl_net c'"
  shows "VoteResp to src e g \<in> cl_net c \<or> (src = n \<and> ReplyVote to e g \<in> set as)"
proof -
  have "VoteResp to src e g \<in> cl_net c \<or> (\<exists>a \<in> set as. VoteResp to src e g \<in> set (messages_of m' log a))"
    using assms by (auto simp: stepping_def)
  moreover have "src = n \<and> a = ReplyVote to e g"
    if "VoteResp to src e g \<in> set (messages_of m' log a)" for a
    using that assms(1) by (cases a) (auto simp: broadcast_vote_def stepping_def)
  ultimately show ?thesis by blast
qed

lemma stepping_new_ballot:
  assumes "stepping vs c n ev log m' as c'" and "(v, e, x) \<in> cl_ballots c'" and "(v, e, x) \<notin> cl_ballots c"
  shows "v = n" "e = ep m'" "vote_of m' = Some x"
    "ep m' = ep (cl_nodes c n) \<Longrightarrow>
       (vote_of (cl_nodes c n) = None \<or> vote_of (cl_nodes c n) = Some x) \<and> (n, e) \<notin> cl_adopted c"
proof -
  have "node_outcome (cl_nodes c n) ev m' as" "(v, e, x) \<in> set (concat (map (ballots_of n ev) as))"
    and del: "deliverable c n ev"
    using assms by (simp_all add: stepping_def)
  note out = outcome_ballots [OF this(1,2) stepping_old(1) [OF assms(1), symmetric]]
  show "v = n" "e = ep m'" "vote_of m' = Some x" using out by simp_all
  show "(vote_of (cl_nodes c n) = None \<or> vote_of (cl_nodes c n) = Some x) \<and> (n, e) \<notin> cl_adopted c"
    if "ep m' = ep (cl_nodes c n)"
    using out that del by auto
qed

lemma stepping_nodes_ok: "stepping vs c n ev log m' as c' \<Longrightarrow> nodes_ok vs c'"
  by (auto simp: stepping_def cluster_inv_def nodes_ok_def)

lemma stepping_ballots_recorded:
  assumes st: "stepping vs c n ev log m' as c'"
  shows "ballots_recorded vs c'"
  unfolding ballots_recorded_def
proof (intro allI impI)
  fix v e x
  assume b: "(v, e, x) \<in> cl_ballots c'"
  let ?m = "cl_nodes c n"
  have c': "cl_nodes c' = (cl_nodes c)(n := m')" and n: "vs_contains vs n"
    and out: "node_outcome ?m ev m' as"
    and ad: "is_begin ev \<and> as \<noteq> [] \<Longrightarrow> (n, ep m') \<in> cl_adopted c'"
    using st by (auto simp: stepping_def)
  show "vs_contains vs v \<and> e \<le> ep (cl_nodes c' v) \<and>
     (e = ep (cl_nodes c' v) \<longrightarrow> vote_of (cl_nodes c' v) = Some x \<or> (v, e) \<in> cl_adopted c')"
  proof (cases "(v, e, x) \<in> cl_ballots c")
    case False
    then show ?thesis using stepping_new_ballot(1-3) [OF st b] c' n by simp
  next
    case True
    then have old: "vs_contains vs v" "e \<le> ep (cl_nodes c v)"
      "e = ep (cl_nodes c v) \<Longrightarrow> vote_of (cl_nodes c v) = Some x \<or> (v, e) \<in> cl_adopted c"
      using st unfolding stepping_def cluster_inv_def ballots_recorded_def by blast+
    have le: "e \<le> ep (cl_nodes c' v)" using old(2) stepping_old(7) [OF st, of v] by simp
    have "vote_of (cl_nodes c' v) = Some x \<or> (v, e) \<in> cl_adopted c'" if eq: "e = ep (cl_nodes c' v)"
    proof -
      have same: "ep (cl_nodes c' v) = ep (cl_nodes c v)"
        using old(2) stepping_old(7) [OF st, of v] eq by simp
      then have "vote_of (cl_nodes c v) = Some x \<or> (v, e) \<in> cl_adopted c'"
        using old(3) eq stepping_old(6) [OF st] by auto
      moreover have "vote_of m' = vote_of ?m \<or> vote_of ?m = None \<or> is_begin ev \<and> as \<noteq> []" if "v = n"
        using outcome_vote_kept [OF out stepping_old(2) [OF st]] same that c' by simp
      ultimately show ?thesis using c' ad eq by (cases "v = n") auto
    qed
    with old le show ?thesis by blast
  qed
qed

lemma stepping_ballots_unique:
  assumes st: "stepping vs c n ev log m' as c'"
  shows "ballots_unique c'"
proof -
  have inv: "ballots_unique c" "ballots_recorded vs c" using st by (auto simp: stepping_def cluster_inv_def)
  have mono: "ep (cl_nodes c n) \<le> ep m'" using st outcome_epoch_mono by (auto simp: stepping_def)
  have clash: "x = y" if "(v, e, x) \<in> cl_ballots c'" "(v, e, x) \<notin> cl_ballots c" "(v, e, y) \<in> cl_ballots c" for v e x y
  proof -
    note new = stepping_new_ballot [OF st that(1,2)]
    have "e \<le> ep (cl_nodes c n)"
      and rec: "e = ep (cl_nodes c n) \<longrightarrow> vote_of (cl_nodes c n) = Some y \<or> (n, e) \<in> cl_adopted c"
      using inv(2) that(3) new(1) unfolding ballots_recorded_def by blast+
    then have "ep m' = ep (cl_nodes c n)" using mono new(2) by simp
    then show ?thesis using new(2,4) rec by auto
  qed
  show ?thesis unfolding ballots_unique_def
  proof (intro allI impI)
    fix v e x y
    assume b: "(v, e, x) \<in> cl_ballots c'" "(v, e, y) \<in> cl_ballots c'"
    consider "(v, e, x) \<in> cl_ballots c" "(v, e, y) \<in> cl_ballots c"
      | "(v, e, x) \<notin> cl_ballots c" "(v, e, y) \<in> cl_ballots c"
      | "(v, e, x) \<in> cl_ballots c" "(v, e, y) \<notin> cl_ballots c"
      | "(v, e, x) \<notin> cl_ballots c" "(v, e, y) \<notin> cl_ballots c" by blast
    then show "x = y"
    proof cases
      case 1
      then show ?thesis using inv(1) unfolding ballots_unique_def by blast
    next
      case 2
      then show ?thesis using clash b by blast
    next
      case 3
      then show ?thesis using clash b by blast
    next
      case 4
      then have "vote_of m' = Some x" "vote_of m' = Some y"
        using stepping_new_ballot(3) [OF st] b by blast+
      then show ?thesis by simp
    qed
  qed
qed

lemma stepping_requests_ok:
  assumes st: "stepping vs c n ev log m' as c'"
  shows "requests_ok c'"
  unfolding requests_ok_def
proof (intro allI impI)
  fix to req
  assume r: "VoteReq to req \<in> cl_net c'"
  let ?x = "vr_candidate req" and ?e = "vr_candidate_epoch req"
  have c': "cl_nodes c' = (cl_nodes c)(n := m')" and out: "node_outcome (cl_nodes c n) ev m' as"
    using st by (auto simp: stepping_def)
  from stepping_new_request [OF st r]
  show "vr_from req = ?x \<and> (vr_pre_vote req \<longrightarrow> ?e \<le> ep (cl_nodes c' ?x) \<and>
     (contender (qm_role (cl_nodes c' ?x)) \<longrightarrow> ?e < ep (cl_nodes c' ?x)))"
  proof
    assume "VoteReq to req \<in> cl_net c"
    then have old: "vr_from req = ?x" "vr_pre_vote req \<Longrightarrow> ?e \<le> ep (cl_nodes c ?x)"
      "vr_pre_vote req \<Longrightarrow> contender (qm_role (cl_nodes c ?x)) \<Longrightarrow> ?e < ep (cl_nodes c ?x)"
      using st unfolding stepping_def cluster_inv_def requests_ok_def by blast+
    have mono: "ep (cl_nodes c ?x) \<le> ep (cl_nodes c' ?x)" by (rule stepping_old(7) [OF st])
    have kept: "contender (qm_role (cl_nodes c' ?x)) \<Longrightarrow> ep (cl_nodes c' ?x) = ep (cl_nodes c ?x) \<Longrightarrow>
        contender (qm_role (cl_nodes c ?x))"
      using outcome_contender [OF out] c' by (cases "?x = n") auto
    have "?e \<le> ep (cl_nodes c' ?x) \<and> (contender (qm_role (cl_nodes c' ?x)) \<longrightarrow> ?e < ep (cl_nodes c' ?x))"
      if pre: "vr_pre_vote req"
    proof (cases "ep (cl_nodes c' ?x) = ep (cl_nodes c ?x)")
      case True
      then show ?thesis using old(2,3) [OF pre] kept by simp
    next
      case False
      then have "?e < ep (cl_nodes c' ?x)" using old(2) [OF pre] mono by order
      then show ?thesis by simp
    qed
    then show ?thesis using old(1) by blast
  next
    assume new: "vr_from req = n \<and> ?x = n \<and> SendVoteRequest ?e (vr_pre_vote req) \<in> set as"
    then show ?thesis using outcome_requests [OF out, of ?e] c' by (cases "vr_pre_vote req") auto
  qed
qed

lemma stepping_own_ballot:
  assumes st: "stepping vs c n ev log m' as c'" and "SendVoteRequest e False \<in> set as"
  shows "(n, e, n) \<in> cl_ballots c'"
  using assms by (auto simp: stepping_def intro!: bexI [of _ "SendVoteRequest e False"])

lemma stepping_grants_ok:
  assumes st: "stepping vs c n ev log m' as c'"
  shows "grants_ok c'"
  unfolding grants_ok_def
proof (intro allI impI)
  fix to src e
  assume r: "VoteResp to src e True \<in> cl_net c'"
  from stepping_new_response [OF st r]
  show "(src, e, to) \<in> cl_ballots c' \<or> (\<exists>d req. VoteReq d req \<in> cl_net c' \<and> vr_pre_vote req \<and>
      vr_candidate req = to \<and> e \<le> vr_candidate_epoch req)"
  proof
    assume "VoteResp to src e True \<in> cl_net c"
    then have "(src, e, to) \<in> cl_ballots c \<or> (\<exists>d req. VoteReq d req \<in> cl_net c \<and> vr_pre_vote req \<and>
        vr_candidate req = to \<and> e \<le> vr_candidate_epoch req)"
      using st unfolding stepping_def cluster_inv_def grants_ok_def by blast
    then show ?thesis using stepping_old(4,5) [OF st] by blast
  next
    assume new: "src = n \<and> ReplyVote to e True \<in> set as"
    then obtain req where req: "ev = ReceiveVoteRequest req" "to = vr_from req"
      "vr_pre_vote req \<longrightarrow> e \<le> vr_candidate_epoch req"
      using outcome_grants [of "cl_nodes c n" ev m' as to e] st by (auto simp: stepping_def)
    have net: "VoteReq n req \<in> cl_net c" using st req(1) by (simp add: stepping_def)
    then have "vr_from req = vr_candidate req"
      using st unfolding stepping_def cluster_inv_def requests_ok_def by blast
    moreover have "(n, e, vr_candidate req) \<in> cl_ballots c'" if "\<not> vr_pre_vote req"
      using new req(1) that st by (auto simp: stepping_def intro!: bexI [of _ "ReplyVote to e True"])
    ultimately show ?thesis using new req(2,3) net stepping_old(5) [OF st] by auto
  qed
qed

text \<open>While a node contends for its epoch, a granted response at that epoch is a real ballot.\<close>

lemma grant_is_ballot:
  assumes "cluster_inv vs c" and "VoteResp n src (ep (cl_nodes c n)) True \<in> cl_net c"
    and "contender (qm_role (cl_nodes c n))"
  shows "(src, ep (cl_nodes c n), n) \<in> cl_ballots c"
proof (rule ccontr)
  assume "\<not> ?thesis"
  then obtain d req where "VoteReq d req \<in> cl_net c" "vr_pre_vote req" "vr_candidate req = n"
    and le: "ep (cl_nodes c n) \<le> vr_candidate_epoch req"
    using assms(1,2) unfolding cluster_inv_def grants_ok_def by blast
  then have "vr_candidate_epoch req < ep (cl_nodes c n)"
    using assms(1,3) unfolding cluster_inv_def requests_ok_def by blast
  with le show False by simp
qed

lemma stepping_candidates_backed:
  assumes st: "stepping vs c n ev log m' as c'"
  shows "candidates_backed vs c'"
  unfolding candidates_backed_def
proof (intro allI impI)
  fix k g d v
  assume k: "vs_contains vs k" and role: "qm_role (cl_nodes c' k) = Candidate g d" and v: "v \<in> g"
  have c': "cl_nodes c' = (cl_nodes c)(n := m')" and out: "node_outcome (cl_nodes c n) ev m' as"
    and inv: "cluster_inv vs c" and del: "deliverable c n ev" and n: "vs_contains vs n"
    using st by (auto simp: stepping_def)
  have old: "(v, ep (cl_nodes c k), k) \<in> cl_ballots c'" if "qm_role (cl_nodes c k) = Candidate g0 d0" "v \<in> g0" for g0 d0
    using that k inv stepping_old(4) [OF st] unfolding cluster_inv_def candidates_backed_def by blast
  show "(v, ep (cl_nodes c' k), k) \<in> cl_ballots c'"
  proof (cases "k = n")
    case False
    then show ?thesis using old role v c' by auto
  next
    case True
    then have "qm_role m' = Candidate g d" using role c' by simp
    from outcome_candidate [OF out this v] show ?thesis
    proof (elim disjE conjE exE)
      assume "v = qm_me (cl_nodes c n)" "SendVoteRequest (ep m') False \<in> set as"
      then show ?thesis using stepping_own_ballot [OF st] stepping_old(1) [OF st] True c' by simp
    next
      fix g0 d0
      assume "ep m' = ep (cl_nodes c n)" "qm_role (cl_nodes c n) = Candidate g0 d0" "v \<in> g0"
      then show ?thesis using old True c' by auto
    next
      fix g0 d0
      assume a: "ep m' = ep (cl_nodes c n)" "qm_role (cl_nodes c n) = Candidate g0 d0"
        "ev = ReceiveVoteResponse v (ep (cl_nodes c n)) True"
      then have "(v, ep (cl_nodes c n), n) \<in> cl_ballots c"
        using grant_is_ballot [OF inv] del by simp
      then show ?thesis using a(1) True c' stepping_old(4) [OF st] by auto
    qed
  qed
qed

lemma stepping_leaders_listed:
  assumes st: "stepping vs c n ev log m' as c'"
  shows "leaders_listed vs c'"
  using st by (auto simp: stepping_def cluster_inv_def leaders_listed_def)

lemma backed_mono: "backed vs c n e \<Longrightarrow> cl_ballots c \<subseteq> cl_ballots c' \<Longrightarrow> backed vs c' n e"
  unfolding backed_def by blast

lemma ballots_of_voters:
  "cluster_inv vs c \<Longrightarrow> (v, e, x) \<in> cl_ballots c \<Longrightarrow> v \<in> set (vs_ids vs)"
  unfolding cluster_inv_def ballots_recorded_def by (simp add: vs_contains_ids)

lemma stepping_elected_backed:
  assumes st: "stepping vs c n ev log m' as c'"
  shows "elected_backed vs c'"
proof -
  let ?m = "cl_nodes c n"
  have out: "node_outcome ?m ev m' as" and inv: "cluster_inv vs c" and del: "deliverable c n ev"
    and n: "vs_contains vs n" and el: "cl_elected c' = (if is_leader (qm_role m')
      then insert (n, ep m') (cl_elected c) else cl_elected c)"
    using st by (auto simp: stepping_def)
  have maj: "qs_majority (qm_state ?m) = vs_len vs div 2 + 1"
    using stepping_old(3) [OF st] by (simp add: qs_majority_def)
  have old: "backed vs c' k e" if "(k, e) \<in> cl_elected c" for k e
    using that inv backed_mono stepping_old(4) [OF st] unfolding cluster_inv_def elected_backed_def by blast
  have "backed vs c' n (ep m')" if lead: "is_leader (qm_role m')"
    using outcome_leader [OF out lead]
  proof (elim disjE conjE exE)
    assume "ep m' = ep ?m" "is_leader (qm_role ?m)"
    then show ?thesis using old inv n unfolding cluster_inv_def leaders_listed_def by simp
  next
    assume req: "SendVoteRequest (ep m') False \<in> set as" "qs_majority (qm_state ?m) \<le> card {qm_me ?m}"
    show ?thesis unfolding backed_def
      by (rule exI [of _ "{n}"])
         (use req maj n stepping_own_ballot [OF st] in \<open>simp add: vs_contains_ids\<close>)
  next
    fix g d src
    assume a: "ep m' = ep ?m" "qm_role ?m = Candidate g d" "ev = ReceiveVoteResponse src (ep ?m) True"
      and card: "qs_majority (qm_state ?m) \<le> card (insert src g)"
    have "(src, ep ?m, n) \<in> cl_ballots c" using grant_is_ballot [OF inv] del a by simp
    moreover have "\<forall>v\<in>g. (v, ep ?m, n) \<in> cl_ballots c"
      using inv n a(2) unfolding cluster_inv_def candidates_backed_def by blast
    ultimately have all: "\<forall>v\<in>insert src g. (v, ep ?m, n) \<in> cl_ballots c" by blast
    have "insert src g \<subseteq> set (vs_ids vs)" using all ballots_of_voters [OF inv] by blast
    then have "backed vs c n (ep ?m)" unfolding backed_def using all card maj by metis
    then show ?thesis using a(1) backed_mono stepping_old(4) [OF st] by simp
  qed
  then show ?thesis using old el by (auto simp: elected_backed_def split: if_splits)
qed

lemma cluster_reach_inv:
  assumes "vs_wf vs" and "cluster_reach vs c"
  shows "cluster_inv vs c"
  using assms(2)
proof induction
  case (init cid timeout)
  then show ?case using cluster_inv_init assms(1) by blast
next
  case (event c n ev log now)
  obtain m' as where "on_event (cl_nodes c n) ev log now = (m', as)" by force
  note st = stepping_event [OF event.IH event.hyps(2-4) this]
  show ?case unfolding cluster_inv_def
    using stepping_nodes_ok [OF st] stepping_ballots_recorded [OF st] stepping_ballots_unique [OF st]
      stepping_requests_ok [OF st] stepping_grants_ok [OF st] stepping_candidates_backed [OF st]
      stepping_leaders_listed [OF st] stepping_elected_backed [OF st] by blast
next
  case (restart c n timeout)
  then show ?case using cluster_inv_restart by blast
qed

text \<open>
  C1. Election safety: in every reachable cluster, over the whole history of the run, at most one
  node has been leader in any given epoch. The network may lose, delay, reorder and duplicate vote
  messages, nodes may time out, restart and receive arbitrary other requests at any moment. The voter
  set is fixed, nodes at the largest epoch take no step, and a real vote request is not delivered to a
  node that adopted a leader in the epoch of the request.
\<close>

theorem one_leader_per_epoch:
  assumes "vs_wf vs" and "cluster_reach vs c"
    and "(n1, e) \<in> cl_elected c" and "(n2, e) \<in> cl_elected c"
  shows "n1 = n2"
proof -
  have inv: "cluster_inv vs c" by (rule cluster_reach_inv [OF assms(1,2)])
  have "backed vs c n1 e" "backed vs c n2 e"
    using inv assms(3,4) unfolding cluster_inv_def elected_backed_def by blast+
  then obtain Q1 Q2 where Q: "Q1 \<subseteq> set (vs_ids vs)" "card (set (vs_ids vs)) div 2 + 1 \<le> card Q1"
      "Q2 \<subseteq> set (vs_ids vs)" "card (set (vs_ids vs)) div 2 + 1 \<le> card Q2"
    and b: "\<forall>v\<in>Q1. (v, e, n1) \<in> cl_ballots c" "\<forall>v\<in>Q2. (v, e, n2) \<in> cl_ballots c"
    unfolding backed_def vs_len_card [OF assms(1)] by blast
  then obtain v where "v \<in> Q1" "v \<in> Q2" using majorities_meet [of "set (vs_ids vs)" Q1 Q2] by auto
  then show ?thesis using b inv unfolding cluster_inv_def ballots_unique_def by blast
qed

section \<open>Concrete runs\<close>

fun cluster_run :: "log_view \<Rightarrow> cluster \<Rightarrow> (node_id \<times> event) list \<Rightarrow> cluster" where
  "cluster_run log c [] = c"
| "cluster_run log c ((n, ev) # rest) = cluster_run log (cluster_event c n ev log 0) rest"

fun legal_run :: "voter_set \<Rightarrow> log_view \<Rightarrow> cluster \<Rightarrow> (node_id \<times> event) list \<Rightarrow> bool" where
  "legal_run vs log c [] = True"
| "legal_run vs log c ((n, ev) # rest) =
     (vs_contains vs n \<and> ep (cl_nodes c n) \<noteq> - 1 \<and> deliverable c n ev \<and>
      legal_run vs log (cluster_event c n ev log 0) rest)"

lemma legal_run_reach:
  "cluster_reach vs c \<Longrightarrow> legal_run vs log c steps \<Longrightarrow> cluster_reach vs (cluster_run log c steps)"
proof (induction steps arbitrary: c)
  case (Cons s steps)
  then show ?case
    using cluster_reach.event [of vs c "fst s" "snd s" log 0] by (cases s) simp
qed simp

definition empty_log :: log_view where
  "empty_log = \<lparr>lv_end_offset = 0, lv_last_epoch = 0, lv_end_offset_for_epoch = (\<lambda>e. None)\<rparr>"

definition three_voters :: voter_set where
  "three_voters = from_voters (map plain_voter [1, 2, 3])"

definition ask :: "node_id \<Rightarrow> node_id \<Rightarrow> epoch \<Rightarrow> bool \<Rightarrow> event" where
  "ask cand voter e pre = ReceiveVoteRequest
     \<lparr>vr_from = cand, vr_voter_id = voter, vr_candidate_epoch = e, vr_candidate = cand,
      vr_candidate_log_end = \<lparr>le_last_epoch = 0, le_last_offset = 0\<rparr>, vr_pre_vote = pre\<rparr>"

definition election_run :: "(node_id \<times> event) list" where
  "election_run = [(1, ElectionTimeout), (3, ask 1 3 0 True), (1, ReceiveVoteResponse 3 0 True),
     (3, ask 1 3 1 False), (1, ReceiveVoteResponse 3 1 True)]"

theorem one_leader_per_epoch_witness:
  "(1, 1) \<in> cl_elected (cluster_run empty_log (cluster_init 0 three_voters 1000) election_run) \<and>
   (2, 1) \<notin> cl_elected (cluster_run empty_log (cluster_init 0 three_voters 1000) election_run)"
proof -
  let ?c = "cluster_run empty_log (cluster_init 0 three_voters 1000) election_run"
  have wf: "vs_wf three_voters" by (simp add: three_voters_def)
  have "legal_run three_voters empty_log (cluster_init 0 three_voters 1000) election_run" by code_simp
  then have reach: "cluster_reach three_voters ?c" by (rule legal_run_reach [OF cluster_reach.init])
  have one: "(1, 1) \<in> cl_elected ?c" by code_simp
  then show ?thesis using one_leader_per_epoch [OF wf reach one, of 2] by auto
qed

fun node_run :: "log_view \<Rightarrow> quorum_state_machine \<Rightarrow> event list \<Rightarrow> quorum_state_machine \<times> action list" where
  "node_run log m [] = (m, [])"
| "node_run log m (ev # rest) =
     (let (m1, as) = on_event m ev log 0; (m2, more) = node_run log m1 rest in (m2, as @ more))"

definition fresh_node :: "node_id \<Rightarrow> quorum_state_machine" where
  "fresh_node i = qsm_new i (qs_bootstrap 0 three_voters) 1000"

text \<open>
  The restriction of the safety theorem is needed. Voter 3 grants its vote in epoch 1 to node
  1, accepts \<open>BeginQuorumEpoch\<close> of node 1 at that same epoch, which clears the recorded vote, and
  loses its leader by a fetch timeout, which clears the leader but keeps the epoch. It then grants
  a second vote in epoch 1, to node 2, and both candidates become leader of epoch 1.
\<close>

lemma double_vote_two_leaders:
  "let campaign = [ElectionTimeout, ReceiveVoteResponse 3 0 True, ReceiveVoteResponse 3 1 True];
       (leader1, _) = node_run empty_log (fresh_node 1) campaign;
       (leader2, _) = node_run empty_log (fresh_node 2) campaign;
       (_, replies) = node_run empty_log (fresh_node 3)
         [ask 1 3 0 True, ask 2 3 0 True, ask 1 3 1 False,
          ReceiveBeginQuorumEpoch 1 1, FetchTimeout, ask 2 3 1 False]
   in is_leader (qm_role leader1) \<and> ep leader1 = 1 \<and> is_leader (qm_role leader2) \<and> ep leader2 = 1 \<and>
      filter (\<lambda>a. case a of ReplyVote _ _ _ \<Rightarrow> True | _ \<Rightarrow> False) replies =
        [ReplyVote 1 0 True, ReplyVote 2 0 True, ReplyVote 1 1 True, ReplyVote 2 1 True]"
  by code_simp

text \<open>
  C37. A vote is not kept for its epoch. Take any voter, not the only one, that has voted for some candidate and
  knows no leader of its epoch: it refuses every other candidate of the epoch. After a \<open>BeginQuorumEpoch\<close> of a
  voter at that same epoch and a fetch timeout, its epoch is the same, and it grants its vote to any other candidate
  of the epoch with an up-to-date log.
\<close>

theorem vote_forgotten:
  assumes "is_voter m" and "1 < qs_majority (qm_state m)" and "qs_leader_epoch (qm_state m) = e" and "qs_leader_id (qm_state m) = None"
    and "qs_voted_key (qm_state m) = Some v" and "rk_id v \<noteq> vr_candidate req"
    and "\<not> vr_pre_vote req" and "vr_candidate_epoch req = e" and "vr_voter_id req = qm_me m"
    and "qsm_log_is_up_to_date log (vr_candidate_log_end req)"
    and "current_or_adjacent_voter m (vr_candidate req)" and "current_or_adjacent_voter m l"
    and "m1 = fst (on_event m (ReceiveBeginQuorumEpoch l e) log t1)" and "m2 = fst (on_event m1 FetchTimeout log t2)"
  shows "snd (on_event m (ReceiveVoteRequest req) log t) = [ReplyVote (vr_from req) e False]
    \<and> qs_leader_epoch (qm_state m2) = e
    \<and> ReplyVote (vr_from req) e True \<in> set (snd (on_event m2 (ReceiveVoteRequest req) log t3))"
proof -
  have m1: "qm_state m1 = (qm_state m)\<lparr>qs_leader_id := Some l, qs_voted_key := None\<rparr>" "qm_me m1 = qm_me m"
    "qm_adjacent_voters m1 = qm_adjacent_voters m"
    using assms(3,4,12,13) by (auto simp: handle_begin_quorum_epoch_def Let_def)
  have voter1: "is_voter m1" using assms(1) m1 by (simp add: is_voter_def)
  have "qs_majority (qm_state m1) = qs_majority (qm_state m)" using m1 by (simp add: qs_majority_def)
  then have m2: "qm_state m2 = (qm_state m)\<lparr>qs_leader_id := None, qs_voted_key := None\<rparr>" "qm_me m2 = qm_me m"
    "qm_adjacent_voters m2 = qm_adjacent_voters m"
    using voter1 m1 assms(2,14)
    by (auto simp: handle_fetch_timeout_def start_election_def tally_prevote_reached_majority_def qs_majority_def Let_def split: prod.splits)
  have "is_voter m2" "current_or_adjacent_voter m2 (vr_candidate req)"
    using assms(1,11) m2 by (simp_all add: is_voter_def current_or_adjacent_voter_def)
  then show ?thesis using assms(1,3-11) m2 by (simp add: handle_vote_request_def vote_granted_def Let_def)
qed

theorem vote_forgotten_witness:
  "let m = fst (node_run empty_log (fresh_node 3) [ask 1 3 1 False]);
       m1 = fst (on_event m (ReceiveBeginQuorumEpoch 1 1) empty_log 0); m2 = fst (on_event m1 FetchTimeout empty_log 0)
   in ReplyVote 2 1 True \<in> set (snd (on_event m2 (ask 2 3 1 False) empty_log 0))"
proof -
  let ?m = "fst (node_run empty_log (fresh_node 3) [ask 1 3 1 False])"
  let ?req = "\<lparr>vr_from = 2, vr_voter_id = 3, vr_candidate_epoch = 1, vr_candidate = 2,
      vr_candidate_log_end = \<lparr>le_last_epoch = 0, le_last_offset = 0\<rparr>, vr_pre_vote = False\<rparr>"
  have "is_voter ?m" "1 < qs_majority (qm_state ?m)" "qs_leader_epoch (qm_state ?m) = 1" "qs_leader_id (qm_state ?m) = None"
    "qs_voted_key (qm_state ?m) = Some \<lparr>rk_id = 1, rk_directory_id = 0\<rparr>" "current_or_adjacent_voter ?m 2" "current_or_adjacent_voter ?m 1"
    "qm_me ?m = 3" "qsm_log_is_up_to_date empty_log \<lparr>le_last_epoch = 0, le_last_offset = 0\<rparr>"
    by code_simp+
  then have "ReplyVote (vr_from ?req) 1 True \<in> set (snd (on_event (fst (on_event (fst (on_event ?m (ReceiveBeginQuorumEpoch 1 1) empty_log 0))
      FetchTimeout empty_log 0)) (ReceiveVoteRequest ?req) empty_log 0))"
    by (intro vote_forgotten [THEN conjunct2, THEN conjunct2, of ?m 1 "\<lparr>rk_id = 1, rk_directory_id = 0\<rparr>" ?req empty_log 1, OF _ _ _ _ _ _ _ _ _ _ _ _ refl refl])
       simp_all
  then show ?thesis by (simp only: Let_def ask_def vote_request.select_convs)
qed

end
