(* ===== verification/Kraft_Safety.thy ===== *)
theory Kraft_Safety
  imports Kraft_Election
begin

text \<open>
  Commitment and durability of one replica of \<open>crates/kraft-core/src/core.rs\<close>: which voters hold
  the log when the high watermark moves, and what is on disk before a vote leaves the node.
\<close>

section \<open>Commitment\<close>

text \<open>The voters known to hold the log up to offset \<open>n\<close>: the leader itself and its followers.\<close>

definition holders :: "quorum_state_machine \<Rightarrow> (node_id, replica_progress) btree_map \<Rightarrow> int \<Rightarrow> node_id set" where
  "holders m replicas n = {v \<in> set (vs_ids (qs_voters (qm_state m))).
     v = qm_me m \<or> (\<exists>p. bt_get replicas v = Some p \<and> n \<le> rp_fetch_offset p)}"

definition offsets_i64 :: "(node_id, replica_progress) btree_map \<Rightarrow> bool" where
  "offsets_i64 replicas \<longleftrightarrow> (\<forall>(k, p) \<in> set replicas. i64_ok (rp_fetch_offset p))"

lemma progress_count:
  assumes "bt_wf replicas"
  shows "length (filter (\<lambda>x. P x) (map (\<lambda>(_, p). f p) replicas)) =
         card {k. \<exists>p. bt_get replicas k = Some p \<and> P (f p)}"
proof -
  have d: "distinct (map fst replicas)" using assms bt.keys_distinct [of replicas] by (simp add: bt_keys_def)
  let ?l = "filter (\<lambda>(_, p). P (f p)) replicas"
  have "distinct (map fst ?l)" using d by (rule distinct_map_filter)
  then have "card (set (map fst ?l)) = length ?l" using distinct_card [of "map fst ?l"] by simp
  moreover have "set (map fst ?l) = {k. \<exists>p. bt_get replicas k = Some p \<and> P (f p)}"
    using d by (auto simp: bt_get_def intro: rev_image_eqI)
  moreover have "length (filter (\<lambda>x. P x) (map (\<lambda>(_, p). f p) replicas)) = length ?l"
    by (simp add: filter_map o_def split_def)
  ultimately show ?thesis by simp
qed

lemma followers_hold:
  assumes "replicas_cover m replicas" and "\<And>p. P p \<Longrightarrow> n \<le> rp_fetch_offset p"
  shows "{k. \<exists>p. bt_get replicas k = Some p \<and> P p} \<subseteq> holders m replicas n - {qm_me m}"
proof -
  have "set (vs_ids (qs_voters (qm_state m))) - {qm_me m} = dom (bt_get replicas)"
    using assms(1) by (simp add: replicas_cover_def bt_keys_dom)
  then show ?thesis using assms(2) by (auto simp: holders_def)
qed

lemma holders_finite: "finite (holders m replicas n)"
  by (simp add: holders_def)

lemma replicas_cover_length:
  assumes "replicas_cover m replicas"
  shows "length replicas = card (set (vs_ids (qs_voters (qm_state m))) - {qm_me m})"
proof -
  have "distinct (bt_keys replicas)" using assms bt.keys_distinct [of replicas] by (simp add: replicas_cover_def)
  then have "card (set (bt_keys replicas)) = length replicas"
    using distinct_card [of "bt_keys replicas"] by (simp add: bt_keys_def)
  then show ?thesis using assms by (simp add: replicas_cover_def)
qed

lemma follower_count_le:
  assumes "replicas_cover m replicas"
  shows "length (filter (\<lambda>x. n \<le> x) (map (\<lambda>(_, p). min (rp_fetch_offset p) log_end) replicas))
    \<le> card (holders m replicas n - {qm_me m})"
proof -
  have "bt_wf replicas" using assms by (simp add: replicas_cover_def)
  then show ?thesis
    unfolding progress_count [where f = "\<lambda>p. min (rp_fetch_offset p) log_end", OF \<open>bt_wf replicas\<close>]
    using followers_hold [OF assms, of "\<lambda>p. n \<le> min (rp_fetch_offset p) log_end" n]
    by (intro card_mono) (auto simp: holders_finite)
qed

lemma recompute_advance_voter:
  assumes cover: "replicas_cover m replicas" and wf: "vs_wf (qs_voters (qm_state m))" and voter: "is_voter m"
    and role: "qm_role m = Leader replicas hwm es" and ok: "i64_ok log_end" "offsets_i64 replicas"
    and n: "n = qsm_recompute_high_watermark m log_end" "hwm < n"
  shows "es < n \<and> n \<le> log_end \<and> qs_majority (qm_state m) \<le> card (holders m replicas n)"
proof -
  let ?fos = "map (\<lambda>(_, p). min (rp_fetch_offset p) log_end) replicas"
  let ?V = "set (vs_ids (qs_voters (qm_state m)))"
  have me: "qm_me m \<in> ?V" using voter by (simp add: is_voter_def vs_contains_ids)
  have r: "n = recompute_high_watermark log_end ?fos (qs_majority (qm_state m)) es (min hwm log_end)"
    using n(1) role voter by (simp add: qsm_recompute_high_watermark_def)
  have maj: "qs_majority (qm_state m) = card ?V div 2 + 1" by (rule vs_len_majority [OF wf])
  have "card ?V > 0" using me by (auto simp: card_gt_0_iff)
  then have len: "length ?fos + 1 = card ?V"
    using replicas_cover_length [OF cover] me by simp
  have bnd: "1 \<le> qs_majority (qm_state m)" "qs_majority (qm_state m) \<le> length ?fos + 1"
    using maj len \<open>card ?V > 0\<close> by simp_all
  have i64: "\<forall>x \<in> set (log_end # ?fos). i64_ok x"
    using ok by (auto simp: offsets_i64_def min_def)
  have "min hwm log_end \<le> log_end" "\<forall>x \<in> set ?fos. x \<le> log_end" by auto
  note safe = hwm_advance_safe [OF bnd i64 this r]
  have "min hwm log_end < n" using n(2) by simp
  with safe have adv: "n \<le> log_end" "es < n" "qs_majority (qm_state m) \<le> count_ge log_end ?fos n"
    by blast+
  have "count_ge log_end ?fos n \<le> Suc (card (holders m replicas n - {qm_me m}))"
    using follower_count_le [OF cover, of n log_end] adv(1) by (simp add: count_ge_def)
  also have "\<dots> = card (holders m replicas n)"
    using me by (intro card_Suc_Diff1) (simp_all add: holders_finite, simp add: holders_def)
  finally show ?thesis using adv by simp
qed

lemma recompute_advance_removed:
  assumes cover: "replicas_cover m replicas" and voter: "\<not> is_voter m"
    and role: "qm_role m = Leader replicas hwm es"
    and n: "n = qsm_recompute_high_watermark m log_end" "hwm < n"
  shows "es < n \<and> n \<le> log_end \<and> qs_majority (qm_state m) \<le> card (holders m replicas n)"
proof -
  let ?fos = "map (\<lambda>(_, p). min (rp_fetch_offset p) log_end) replicas" and ?k = "qs_majority (qm_state m)"
  have k: "1 \<le> ?k" by (simp add: qs_majority_def)
  have "?k - 1 < length ?fos" "nth_largest ?fos ?k > es" "n = nth_largest ?fos ?k"
    using n role voter
    by (auto simp: qsm_recompute_high_watermark_def Let_def nth_largest_def max_def split: if_splits)
  then have pick: "?k \<le> length ?fos" "es < n" "n = nth_largest ?fos ?k" using k by linarith+
  have "n \<in> set ?fos" using nth_largest_mem [OF k pick(1)] pick(3) by simp
  then have "n \<le> log_end" by auto
  have "sorted_wrt (\<ge>) (rev (sort ?fos))" using sorted_sort [of ?fos] unfolding sorted_wrt_rev by simp
  from count_ge_desc [OF this k, of n] pick
  have "?k \<le> length (filter (\<lambda>x. n \<le> x) ?fos)"
    unfolding length_filter_rev_sort by (simp add: nth_largest_def)
  also have "\<dots> \<le> card (holders m replicas n - {qm_me m})" by (rule follower_count_le [OF cover])
  also have "\<dots> \<le> card (holders m replicas n)" by (simp add: card_Diff1_le)
  finally show ?thesis using pick(2) \<open>n \<le> log_end\<close> by simp
qed

definition no_advance :: "action list \<Rightarrow> bool" where
  "no_advance as \<longleftrightarrow> (\<forall>n. AdvanceHighWatermark n \<notin> set as)"

lemma promote_to_candidate_no_advance: "no_advance (snd (promote_to_candidate m log now))"
  by (simp add: promote_to_candidate_alt promote_to_leader_def Let_def no_advance_def)

lemma start_election_no_advance: "no_advance (snd (start_election m log now))"
  using promote_to_candidate_no_advance [of "prospective_of m now" log now]
  by (simp add: start_election_alt no_advance_def)

lemma advance_from_fetch:
  assumes st: "on_event m ev log now = (m', as)" and adv: "\<not> no_advance as"
  shows "\<exists>src e off. ev = ReceiveFetch src e off \<and> record_fetch m log src off = (m', as)"
proof (cases ev)
  case (ReceiveFetch src e off)
  with st adv show ?thesis
    by (auto simp: handle_fetch_def no_advance_def split: role.splits option.splits if_splits)
next
  case (ReceiveVoteResponse src e g)
  with st adv show ?thesis
    using promote_to_candidate_no_advance
    by (auto simp: handle_vote_response_def transition_to_unattached_def promote_to_leader_def Let_def
        no_advance_def split: role.splits if_splits) (metis snd_conv no_advance_def)+
next
  case (ReceiveVoteRequest req)
  with st adv show ?thesis
    by (auto simp: handle_vote_request_def transition_to_unattached_def Let_def no_advance_def split: if_splits)
next
  case (ReceiveEndQuorumEpoch l e)
  with st adv show ?thesis
    using start_election_no_advance [of m log now]
    by (auto simp: handle_end_quorum_epoch_def transition_to_unattached_def no_advance_def split: if_splits)
next
  case (ReceiveBeginQuorumEpoch l e)
  with st adv show ?thesis
    by (auto simp: handle_begin_quorum_epoch_def Let_def no_advance_def split: if_splits)
next
  case (ReceiveFetchResponse l e d)
  with st adv show ?thesis
    by (auto simp: handle_fetch_response_def Let_def no_advance_def split: option.splits)
next
  case ElectionTimeout
  with st adv show ?thesis
    using start_election_no_advance [of m log now]
    by (auto simp: handle_election_timeout_def no_advance_def split: if_splits)
next
  case FetchTimeout
  with st adv show ?thesis
    using start_election_no_advance [of m log now]
    by (auto simp: handle_fetch_timeout_def no_advance_def split: if_splits)
qed

lemma recompute_advance:
  assumes "replicas_cover m replicas" and "vs_wf (qs_voters (qm_state m))"
    and "qm_role m = Leader replicas hwm es" and "i64_ok log_end" "offsets_i64 replicas"
    and "n = qsm_recompute_high_watermark m log_end" "hwm < n"
  shows "es < n \<and> n \<le> log_end \<and> qs_majority (qm_state m) \<le> card (holders m replicas n)"
proof (cases "is_voter m")
  case True
  show ?thesis by (rule recompute_advance_voter [OF assms(1,2) True assms(3-7)])
next
  case False
  show ?thesis by (rule recompute_advance_removed [OF assms(1) False assms(3,6,7)])
qed

text \<open>
  C6. Commitment needs a majority: when an event makes the replica advance its high watermark to
  \<open>n\<close>, it is leader, \<open>n\<close> lies strictly past the old watermark and past the first offset of its own
  epoch, does not pass its log end, and at least a majority of the current voters, counting the
  leader only if it is one of them, hold the log up to \<open>n\<close>.
\<close>

theorem commit_needs_majority:
  assumes inv: "qsm_inv m" and st: "on_event m ev log now = (m', as)"
    and adv: "AdvanceHighWatermark n \<in> set as"
    and role: "qm_role m' = Leader replicas h es"
    and ok: "i64_ok (lv_end_offset log)" "offsets_i64 replicas"
  shows "(\<exists>old hwm. qm_role m = Leader old hwm es \<and> hwm < n) \<and> h = n \<and> es < n \<and> n \<le> lv_end_offset log \<and>
    qs_majority (qm_state m') \<le> card (holders m' replicas n)"
proof -
  obtain src e off where rf: "record_fetch m log src off = (m', as)"
    using advance_from_fetch [OF st] adv by (auto simp: no_advance_def)
  then obtain old hwm es0 where old: "qm_role m = Leader old hwm es0"
    using adv by (auto simp: record_fetch_def split: role.splits)
  let ?r = "noted_progress old src off"
  let ?m1 = "m\<lparr>qm_role := Leader ?r hwm es0\<rparr>"
  have new: "n = qsm_recompute_high_watermark ?m1 (lv_end_offset log)" "hwm < n"
    and m': "m' = m\<lparr>qm_role := Leader ?r n es0\<rparr>"
    using rf adv by (auto simp: record_fetch_leader [OF old] Let_def split: if_splits)
  have eqs: "replicas = ?r" "h = n" "es = es0" using role m' by simp_all
  have "bt_wf old" "set (bt_keys old) = set (vs_ids (qs_voters (qm_state m))) - {qm_me m}"
    and wf: "vs_wf (qs_voters (qm_state m))"
    using inv old by (simp_all add: qsm_inv_def role_coherent_def replicas_cover_def)
  then have "replicas_cover ?m1 ?r"
    by (simp add: replicas_cover_def noted_progress_wf noted_progress_keys)
  from recompute_advance [OF this _ _ ok(1) ok(2) [unfolded eqs] new] wf
  have "es0 < n \<and> n \<le> lv_end_offset log \<and> qs_majority (qm_state m) \<le> card (holders ?m1 ?r n)"
    by simp
  moreover have "holders ?m1 ?r n = holders m' ?r n" by (simp add: holders_def m')
  ultimately show ?thesis using old new(2) eqs m' by simp
qed

text \<open>A concrete leader of three voters, used by the witnesses.\<close>

definition leader_of_three :: quorum_state_machine where
  "leader_of_three =
     \<lparr>qm_me = 1,
      qm_state = (qs_bootstrap 0 three_voters)\<lparr>qs_leader_epoch := 1, qs_leader_id := Some 1\<rparr>,
      qm_adjacent_voters = None,
      qm_role = Leader [(2, replica_progress_default), (3, replica_progress_default)] 0 0,
      qm_election_timeout_ms = 1000\<rparr>"

definition log_of_five :: log_view where
  "log_of_five = \<lparr>lv_end_offset = 5, lv_last_epoch = 1, lv_end_offset_for_epoch = (\<lambda>e. if e = 1 then Some 5 else None)\<rparr>"

lemma leader_of_three_inv: "qsm_inv leader_of_three"
  by (simp add: leader_of_three_def qsm_inv_def role_coherent_def replicas_cover_def three_voters_def
      bt_wf_def voters_eval vs_wf_def)

theorem commit_needs_majority_witness:
  "let m' = fst (on_event leader_of_three (ReceiveFetch 2 1 5) log_of_five 0)
   in 2 \<le> card (holders m' [(2, \<lparr>rp_fetch_offset = 5\<rparr>), (3, \<lparr>rp_fetch_offset = 0\<rparr>)] 5)"
proof -
  let ?r = "[(2, \<lparr>rp_fetch_offset = 5\<rparr>), (3, \<lparr>rp_fetch_offset = 0\<rparr>)]"
  let ?m = "leader_of_three\<lparr>qm_role := Leader ?r 5 0\<rparr>"
  have st: "on_event leader_of_three (ReceiveFetch 2 1 5) log_of_five 0 = (?m, [AdvanceHighWatermark 5])"
    by code_simp
  have maj: "qs_majority (qm_state ?m) = 2" by code_simp
  have "i64_ok (lv_end_offset log_of_five)" "offsets_i64 ?r"
    by (simp_all add: log_of_five_def offsets_i64_def int_width)
  with commit_needs_majority [OF leader_of_three_inv st, of 5 ?r 5 0] maj st show ?thesis by simp
qed

section \<open>Durability\<close>

text \<open>The actions that bind the node: a real vote it grants and a real vote it asks for.\<close>

fun binding_vote :: "event \<Rightarrow> action \<Rightarrow> bool" where
  "binding_vote (ReceiveVoteRequest req) (ReplyVote to e g) = (g \<and> \<not> vr_pre_vote req)"
| "binding_vote ev (SendVoteRequest e pre_vote) = (\<not> pre_vote)"
| "binding_vote _ _ = False"

definition durable_state :: "quorum_state_machine \<Rightarrow> epoch \<times> replica_key option" where
  "durable_state m = (qs_leader_epoch (qm_state m), qs_voted_key (qm_state m))"

definition durable :: "quorum_state_machine \<Rightarrow> event \<Rightarrow> quorum_state_machine \<Rightarrow> action list \<Rightarrow> bool" where
  "durable m ev m' as \<longleftrightarrow>
     (durable_state m' = durable_state m \<or> PersistQuorumState \<in> set as) \<and>
     (\<forall>a \<in> set (takeWhile (\<lambda>a. a \<noteq> PersistQuorumState) as). \<not> binding_vote ev a)"

lemma durable_persist_first: "durable m ev m' (PersistQuorumState # as)"
  by (simp add: durable_def)

lemma promote_to_candidate_persists:
  "promote_to_candidate m log now = (m', as) \<Longrightarrow> \<exists>rest. as = PersistQuorumState # rest"
  by (auto simp: promote_to_candidate_alt Let_def split: if_splits)

lemma binding_pre_request [simp]: "\<not> binding_vote ev (SendVoteRequest e True)"
  by (cases ev) simp_all

lemma binding_other [simp]:
  "\<not> binding_vote ev (TransitionedTo r)" "\<not> binding_vote ev (ResetTimer k d)"
  "\<not> binding_vote ev (ReplyVote to e False)" "\<not> binding_vote ev (TruncateTo p)"
  "\<not> binding_vote ev (AdvanceHighWatermark n)" "\<not> binding_vote ev (SendFetch l)"
  by (cases ev; simp)+

lemma start_election_durable:
  assumes "start_election m log now = (m', as)"
  shows "durable m ev m' as"
proof (cases "qs_majority (qm_state m) \<le> 1")
  case True
  then obtain more where "promote_to_candidate (prospective_of m now) log now = (m', more)"
    and as: "as = [TransitionedTo ''Prospective'', SendVoteRequest (ep m) True,
             ResetTimer ElectionTimer (election_deadline m now)] @ more"
    using assms by (cases "promote_to_candidate (prospective_of m now) log now") (simp add: start_election_alt)
  then obtain rest where "more = PersistQuorumState # rest" using promote_to_candidate_persists by blast
  then show ?thesis by (simp add: durable_def as)
next
  case False
  then have "m' = prospective_of m now" "as = [TransitionedTo ''Prospective'', SendVoteRequest (ep m) True,
      ResetTimer ElectionTimer (election_deadline m now)]"
    using assms by (simp_all add: start_election_alt)
  then show ?thesis by (simp add: durable_def durable_state_def prospective_of_def)
qed

lemma durable_unchanged:
  "durable_state m' = durable_state m \<Longrightarrow> (\<forall>a \<in> set as. \<not> binding_vote ev a) \<Longrightarrow> durable m ev m' as"
  by (auto simp: durable_def dest: set_takeWhileD)

lemma handle_vote_request_durable:
  assumes "handle_vote_request m req log now = (m', as)"
  shows "durable m (ReceiveVoteRequest req) m' as"
  using assms
  by (auto simp: handle_vote_request_def transition_to_unattached_def Let_def durable_def durable_state_def
      split: if_splits)

lemma handle_vote_response_durable:
  assumes "handle_vote_response m log src e g now = (m', as)"
  shows "durable m (ReceiveVoteResponse src e g) m' as"
proof (cases "qm_role m")
  case (Prospective gr d)
  let ?m = "m\<lparr>qm_role := Prospective (insert src gr) d\<rparr>"
  show ?thesis
  proof (cases "g \<and> e = ep m \<and> tally_prevote_reached_majority ?m")
    case True
    then have "promote_to_candidate ?m log now = (m', as)"
      using assms Prospective by (simp add: handle_vote_response_def)
    then obtain rest where "as = PersistQuorumState # rest" using promote_to_candidate_persists by blast
    then show ?thesis by (simp add: durable_persist_first)
  next
    case False
    then show ?thesis using assms Prospective
      by (auto simp: handle_vote_response_def transition_to_unattached_def durable_def durable_state_def
          split: if_splits)
  qed
qed (use assms in \<open>auto simp: handle_vote_response_def transition_to_unattached_def promote_to_leader_def Let_def
        durable_def durable_state_def split: if_splits\<close>)

text \<open>
  C11. Votes and epochs are durable before they bind. Whenever an event changes the epoch or the
  recorded vote, the quorum state is persisted; and no granted vote and no request for a real vote
  is among the actions that come before the persist action.
\<close>

theorem durable_before_binding:
  assumes "on_event m ev log now = (m', as)"
  shows "(durable_state m' = durable_state m \<or> PersistQuorumState \<in> set as) \<and>
    (\<forall>a \<in> set (takeWhile (\<lambda>a. a \<noteq> PersistQuorumState) as). \<not> binding_vote ev a)"
proof -
  have "durable m ev m' as"
  proof (cases ev)
    case (ReceiveVoteRequest req)
    then show ?thesis using assms handle_vote_request_durable by simp
  next
    case (ReceiveVoteResponse src e g)
    then show ?thesis using assms handle_vote_response_durable by simp
  next
    case (ReceiveBeginQuorumEpoch l e)
    then show ?thesis using assms
      by (auto simp: handle_begin_quorum_epoch_def Let_def durable_persist_first durable_unchanged split: if_splits)
  next
    case (ReceiveEndQuorumEpoch l e)
    then show ?thesis using assms start_election_durable
      by (auto simp: handle_end_quorum_epoch_def transition_to_unattached_def durable_persist_first
          durable_unchanged split: if_splits)
  next
    case (ReceiveFetch src e off)
    then show ?thesis using assms
      by (auto simp: handle_fetch_def record_fetch_def Let_def durable_state_def intro!: durable_unchanged
          split: role.splits option.splits if_splits)
  next
    case (ReceiveFetchResponse l e d)
    then show ?thesis using assms
      by (auto simp: handle_fetch_response_def Let_def intro!: durable_unchanged split: option.splits)
  next
    case ElectionTimeout
    then show ?thesis using assms start_election_durable
      by (auto simp: handle_election_timeout_def durable_unchanged split: if_splits)
  next
    case FetchTimeout
    then show ?thesis using assms start_election_durable
      by (auto simp: handle_fetch_timeout_def durable_unchanged split: if_splits)
  qed
  then show ?thesis by (simp add: durable_def)
qed

theorem durable_before_binding_witness:
  "PersistQuorumState \<in> set (snd (on_event (fresh_node 3) (ask 1 3 1 False) empty_log 0))"
proof -
  obtain m' as where st: "on_event (fresh_node 3) (ask 1 3 1 False) empty_log 0 = (m', as)" by force
  have "durable_state (fst (on_event (fresh_node 3) (ask 1 3 1 False) empty_log 0)) \<noteq> durable_state (fresh_node 3)"
    by code_simp
  then show ?thesis using durable_before_binding [OF st] st by simp
qed

end
