(* ===== verification/Kraft_Log.thy ===== *)
theory Kraft_Log
  imports Log_Transactions Kraft_Safety
begin

text \<open>
  The metadata log of a controller (\<open>crates/raft/src/kraft/log.rs\<close>): a partition log with a high
  watermark, the two checkpoint files beside it and the view that the consensus core has of it. The two
  files are the strings written to them; writing them is taken to succeed.
\<close>

record kraft_log =
  kl_log :: partition_log
  kl_hwm :: int
  kl_hwm_file :: "string option"
  kl_start_file :: "string option"

datatype raft_error = Storage log_error | ChangeRejected records_error

type_synonym 'a kraft_act = "kraft_log \<Rightarrow> ((raft_error + 'a) \<times> kraft_log) option"

text \<open>The \<open>?\<close> on an operation of the partition log.\<close>

definition on_log :: "'a log_act \<Rightarrow> 'a kraft_act" where
  "on_log m k = (case m (kl_log k) of
       None \<Rightarrow> None
     | Some (r, l) \<Rightarrow> Some (map_sum Storage id r, k\<lparr>kl_log := l\<rparr>))"

definition kbind :: "'a kraft_act \<Rightarrow> ('a \<Rightarrow> 'b kraft_act) \<Rightarrow> 'b kraft_act" where
  "kbind m f k = (case m k of None \<Rightarrow> None | Some (Inl e, k') \<Rightarrow> Some (Inl e, k') | Some (Inr a, k') \<Rightarrow> f a k')"

definition kupdate :: "(kraft_log \<Rightarrow> kraft_log) \<Rightarrow> unit kraft_act" where
  "kupdate f k = Some (Inr (), f k)"

section \<open>Checkpoint files\<close>

definition read_checkpoint :: "string option \<Rightarrow> int option" where
  "read_checkpoint file = Option.bind file (\<lambda>s. parse_signed i64_ok (trim s))"

definition persist_hwm :: "kraft_log \<Rightarrow> kraft_log" where
  "persist_hwm k = k\<lparr>kl_hwm_file := Some (show_int (kl_hwm k))\<rparr>"

definition persist_log_start_offset :: "kraft_log \<Rightarrow> kraft_log" where
  "persist_log_start_offset k = k\<lparr>kl_start_file := Some (show_int (log_start_offset (kl_log k)))\<rparr>"

section \<open>Opening\<close>

definition clamp_hwm :: "string option \<Rightarrow> partition_log \<Rightarrow> int" where
  "clamp_hwm file l =
     min (max (case read_checkpoint file of Some v \<Rightarrow> v | None \<Rightarrow> log_start_offset l) (log_start_offset l)) (log_end_offset l)"

definition restore_start :: "string option \<Rightarrow> unit log_act" where
  "restore_start file l =
     (case read_checkpoint file of
        Some start_off \<Rightarrow> if log_start_offset l < start_off \<and> start_off \<le> log_end_offset l
                          then set_log_start_offset start_off l else Some (Inr (), l)
      | None \<Rightarrow> Some (Inr (), l))"

definition kraft_open ::
  "batch_lib \<Rightarrow> log_config \<Rightarrow> log_disk \<Rightarrow> string option \<Rightarrow> string option \<Rightarrow> (raft_error + kraft_log) option" where
  "kraft_open lib config disk start_file hwm_file =
     (case log_open lib config disk of
        None \<Rightarrow> None
      | Some (Inl e, _) \<Rightarrow> Some (Inl (Storage e))
      | Some (Inr (), l) \<Rightarrow>
          (case restore_start start_file l of
             None \<Rightarrow> None
           | Some (Inl e, _) \<Rightarrow> Some (Inl (Storage e))
           | Some (Inr (), l1) \<Rightarrow>
               Some (Inr \<lparr>kl_log = l1, kl_hwm = clamp_hwm hwm_file l1, kl_hwm_file = hwm_file, kl_start_file = start_file\<rparr>)))"

section \<open>Operations\<close>

definition kraft_append :: "batch_lib \<Rightarrow> record_batch \<Rightarrow> int kraft_act" where
  "kraft_append lib b = on_log (log_append lib b)"

definition kraft_append_at :: "batch_lib \<Rightarrow> record_batch \<Rightarrow> int \<Rightarrow> unit kraft_act" where
  "kraft_append_at lib b offset = on_log (append_at lib b offset)"

text \<open>The bytes of a raw read as batches.\<close>

function decode_all :: "batch_lib \<Rightarrow> bytes \<Rightarrow> raft_error + record_batch list" where
  "decode_all lib bs =
     (if bs = [] then Inr []
      else case batch_decode lib bs of
             Inl e \<Rightarrow> Inl (ChangeRejected e)
           | Inr (b, rest) \<Rightarrow> map_sum id (\<lambda>more_bs. b # more_bs) (decode_all lib rest))"
  by pat_completeness auto
termination
  by (relation "measure (\<lambda>(lib, bs). length bs)") (auto dest: batch_decode_shorter)

declare decode_all.simps [simp del]

text \<open>The window doubles until a batch fits; \<open>None\<close> is a loop that never ends.\<close>

partial_function (option) read_decoded_loop ::
  "batch_lib \<Rightarrow> partition_log \<Rightarrow> int \<Rightarrow> int \<Rightarrow> nat \<Rightarrow> (raft_error + record_batch list) option" where
  "read_decoded_loop lib l offset log_end window =
     (case log_read_raw l offset log_end window of
        Inl e \<Rightarrow> Some (Inl (Storage e))
      | Inr raw \<Rightarrow>
          (case decode_all lib (rr_bytes raw) of
             Inl e \<Rightarrow> Some (Inl e)
           | Inr [] \<Rightarrow> read_decoded_loop lib l offset log_end (window * 2)
           | Inr (b # bs) \<Rightarrow> Some (Inr (b # bs))))"

definition read_decoded :: "batch_lib \<Rightarrow> kraft_log \<Rightarrow> int \<Rightarrow> nat \<Rightarrow> (raft_error + record_batch list) option" where
  "read_decoded lib k offset max_size =
     (let log_end = log_end_offset (kl_log k) in
      if log_end \<le> offset then Some (Inr []) else read_decoded_loop lib (kl_log k) offset log_end max_size)"

definition read_committed :: "kraft_log \<Rightarrow> int \<Rightarrow> nat \<Rightarrow> raft_error + raw_read" where
  "read_committed k offset max_size =
     map_sum Storage id (log_read_raw (kl_log k) offset (min (kl_hwm k) (log_end_offset (kl_log k))) max_size)"

definition advance_hwm :: "int \<Rightarrow> kraft_log \<Rightarrow> kraft_log" where
  "advance_hwm new_hwm k =
     (let clamped = min new_hwm (log_end_offset (kl_log k)); nxt = max (kl_hwm k) clamped
      in if kl_hwm k < nxt then persist_hwm (k\<lparr>kl_hwm := nxt\<rparr>) else k)"

definition kraft_truncate_to :: "batch_lib \<Rightarrow> int \<Rightarrow> unit kraft_act" where
  "kraft_truncate_to lib offset =
     kbind (on_log (log_truncate_to lib offset)) (\<lambda>_. kupdate (\<lambda>k. persist_hwm (k\<lparr>kl_hwm := min (kl_hwm k) offset\<rparr>)))"

definition prune_to :: "int \<Rightarrow> unit kraft_act" where
  "prune_to end_offset k =
     (if end_offset \<le> log_start_offset (kl_log k) then Some (Inr (), persist_log_start_offset k)
      else kbind (on_log (set_log_start_offset end_offset)) (\<lambda>_.
           kbind (on_log (trim_to_offset end_offset)) (\<lambda>_.
           kupdate persist_log_start_offset)) k)"

definition install_snapshot :: "int \<Rightarrow> unit kraft_act" where
  "install_snapshot end_offset =
     kbind (on_log (reset_to end_offset)) (\<lambda>_.
       kupdate (\<lambda>k. persist_hwm ((persist_log_start_offset k)\<lparr>kl_hwm := end_offset\<rparr>)))"

section \<open>The view of the consensus core\<close>

definition kraft_last_epoch :: "kraft_log \<Rightarrow> epoch" where
  "kraft_last_epoch k =
     (let latest = (case latest_epoch (lec_entries (lg_epoch_checkpoint (kl_log k))) of Some e \<Rightarrow> e | None \<Rightarrow> 0)
      in case u32_try_from latest of Some e \<Rightarrow> e | None \<Rightarrow> 0)"

definition kraft_end_offset_for_epoch :: "kraft_log \<Rightarrow> epoch \<Rightarrow> int option" where
  "kraft_end_offset_for_epoch k e =
     (if i32_MAX < uint e then None
      else let off = end_offset_for_epoch (lec_entries (lg_epoch_checkpoint (kl_log k))) (uint e) (log_end_offset (kl_log k))
           in if off = - 1 then None else Some off)"

definition kraft_view :: "kraft_log \<Rightarrow> log_view" where
  "kraft_view k = \<lparr>lv_end_offset = log_end_offset (kl_log k), lv_last_epoch = kraft_last_epoch k,
     lv_end_offset_for_epoch = kraft_end_offset_for_epoch k\<rparr>"

text \<open>The recorded epochs: increasing, inside the log, and 32 bits wide.\<close>

definition epochs_inv :: "partition_log \<Rightarrow> bool" where
  "epochs_inv l \<longleftrightarrow> epochs_wf (lec_entries (lg_epoch_checkpoint l)) \<and> starts_below (lec_entries (lg_epoch_checkpoint l)) (log_end_offset l)
     \<and> list_all (\<lambda>e. i32_ok (ee_epoch e)) (lec_entries (lg_epoch_checkpoint l)) \<and> 0 \<le> log_end_offset l"

lemma last_epoch_max:
  assumes "epochs_inv (kl_log k)" and "x \<in> set (lec_entries (lg_epoch_checkpoint (kl_log k)))"
  shows "ee_epoch x \<le> uint (kraft_last_epoch k)"
proof -
  let ?es = "lec_entries (lg_epoch_checkpoint (kl_log k))"
  have "?es \<noteq> []" using assms(2) by (cases ?es) simp_all
  then obtain n where n: "latest_epoch ?es = Some n" using iter_ex(2) [of ?es ee_epoch] by (auto simp: latest_epoch_def)
  then have bound: "(\<exists>e \<in> set ?es. ee_epoch e = n) \<and> (\<forall>e \<in> set ?es. ee_epoch e \<le> n)"
    using iter_max_Some by (simp add: latest_epoch_def)
  then have "0 \<le> n \<and> n \<le> i32_MAX" using assms(1) by (auto simp: epochs_inv_def epochs_wf_def list_all_iff i32_ok_def)
  then have "u32_try_from n = Some (word_of_int n)" by (simp add: u32_try_from_def int_width)
  then have "uint (kraft_last_epoch k) = n" using n u32_try_from_Some [of n "word_of_int n"] by (simp add: kraft_last_epoch_def)
  then show ?thesis using bound assms(2) by simp
qed

interpretation kraft_view: log_view_laws kraft_view "\<lambda>k. epochs_inv (kl_log k)"
proof
  fix k :: kraft_log and e :: epoch and off :: int
  let ?es = "lec_entries (lg_epoch_checkpoint (kl_log k))"
  assume inv: "epochs_inv (kl_log k)"
  then show "0 \<le> lv_end_offset (kraft_view k)" by (simp add: epochs_inv_def kraft_view_def)
  show "0 \<le> off \<and> off \<le> lv_end_offset (kraft_view k)" if "lv_end_offset_for_epoch (kraft_view k) e = Some off"
    using that inv iter_min_Some [of ee_start_offset "filter (\<lambda>x. uint e < ee_epoch x) ?es" off]
    by (auto simp: kraft_view_def kraft_end_offset_for_epoch_def end_offset_for_epoch_def epochs_inv_def epochs_wf_def starts_below_def
        list_all_iff UNDEFINED_OFFSET_def Let_def split: if_splits option.splits)
  show "lv_end_offset_for_epoch (kraft_view k) e = None" if "lv_last_epoch (kraft_view k) < e"
  proof -
    have "uint (kraft_last_epoch k) < uint e" using that by (simp add: kraft_view_def word_less_def)
    then have "\<not> list_ex (\<lambda>x. ee_epoch x = uint e) ?es" using last_epoch_max [OF inv] by (fastforce simp: list_ex_iff)
    then show ?thesis by (simp add: kraft_view_def kraft_end_offset_for_epoch_def end_offset_for_epoch_def UNDEFINED_OFFSET_def)
  qed
qed

section \<open>The recorded epochs stay inside the log\<close>

lemma append_preserving_epochs:
  assumes "append_preserving_offset lib b l = Some (Inr (), l')"
  shows "lg_epoch_checkpoint l' = lg_epoch_checkpoint l"
proof -
  obtain l1 l2 where l1: "maybe_roll lib l = Some (Inr (), l1)"
    and l2: "with_active (\<lambda>s. seg_append lib s b (lc_index_interval (lg_config l1))) l1 = Some (Inr (), l2)"
    and l': "update_owned_producer_entry b (track_batch b l2) = Some (Inr (), l')"
    using assms unfolding append_preserving_offset_def by (elim abind_InrE) (auto simp: map_sum_def split: sum.splits)
  have "lg_epoch_checkpoint l1 = lg_epoch_checkpoint l"
    using l1 by (auto simp: maybe_roll_def split: option.splits if_splits elim!: roll_Inr dest: start_segment_Inr(7))
  moreover obtain s' where "l2 = l1\<lparr>lg_active := Some s'\<rparr>" using l2 by (rule with_active_Inr)
  ultimately show ?thesis using track_batch_core [of l2 b] update_owned_core [OF l'] by (simp add: same_core_def)
qed

lemma cut_segment_epochs:
  assumes "cut_segment lib s off l = Some (Inr (), l')"
  shows "lg_epoch_checkpoint l' = lg_epoch_checkpoint l"
proof -
  obtain rel where rel: "u32_try_from (i64_wrapping_sub off (sg_base_offset s)) = Some rel"
    using assms by (auto simp: cut_segment_def split: option.splits)
  obtain x s' where cut: "truncate_to_relative lib s rel = (x, s')" by (cases "truncate_to_relative lib s rel")
  show ?thesis using assms rel cut
    by (auto simp: cut_segment_def abind_def aresult_def open_txn_index_def split: option.splits sum.splits if_splits)
qed

lemma cut_log_epochs: "cut_log lib off l = Some (Inr (), l') \<Longrightarrow> lg_epoch_checkpoint l' = lg_epoch_checkpoint l"
  by (auto simp: cut_log_def split: option.splits if_splits dest: cut_segment_epochs start_segment_Inr(7))

lemma drop_tail_epochs [simp]: "lg_epoch_checkpoint (drop_tail off l) = lg_epoch_checkpoint l"
  by (simp add: drop_tail_def drop_files_def Let_def split: option.splits)

lemma truncate_epochs:
  assumes "log_truncate_to lib off l = Some (Inr (), l')"
  shows "l' = l \<or> lg_epoch_checkpoint l' = truncate_from_end (lg_epoch_checkpoint l) (log_end_offset l')"
proof (cases "log_end_offset l \<le> off")
  case False
  let ?l1 = "if lg_segments l \<noteq> [] then l\<lparr>lg_snapshots := ps_remove_after (lg_snapshots l) off\<rparr> else l"
  obtain l2 l3 where l2: "cut_log lib off (drop_tail off ?l1) = Some (Inr (), l2)"
    and l3: "(if lg_producer_state l2 \<noteq> [] then rebuild_producer_and_transaction_state lib l2 else Some (Inr (), l2)) = Some (Inr (), l3)"
    and l': "l' = l3\<lparr>lg_lso := min (lg_lso l3) (log_end_offset l3), lg_epoch_checkpoint := truncate_from_end (lg_epoch_checkpoint l3) (log_end_offset l3)\<rparr>"
    using assms False unfolding log_truncate_to_def Let_def by (auto split: if_splits elim!: abind_InrE)
  have "lg_epoch_checkpoint l3 = lg_epoch_checkpoint l2" using l3 rebuild_core by (auto simp: same_core_def split: if_splits)
  then have "lg_epoch_checkpoint l3 = lg_epoch_checkpoint l" using cut_log_epochs [OF l2] by simp
  then show ?thesis using l' by (simp add: log_end_offset_def)
qed (use assms in \<open>simp add: log_truncate_to_def\<close>)

lemma kbind_InrE:
  assumes "kbind m f k = Some (Inr b, k')"
  obtains a k1 where "m k = Some (Inr a, k1)" "f a k1 = Some (Inr b, k')"
  using assms by (auto simp: kbind_def split: option.splits prod.splits sum.splits)

lemma on_log_Inr: "on_log m k = Some (Inr a, k') \<longleftrightarrow> (\<exists>l. m (kl_log k) = Some (Inr a, l) \<and> k' = k\<lparr>kl_log := l\<rparr>)"
proof (cases "m (kl_log k)")
  case (Some p)
  then show ?thesis by (cases p; cases "fst p") (auto simp: on_log_def)
qed (simp add: on_log_def)

lemma epochs_noted:
  assumes "epochs_inv l" and "lg_epoch_checkpoint l1 = lg_epoch_checkpoint l" and "note_epoch e base l1 = Some (Inr (), l')"
    and "log_end_offset l \<le> base" and "base < log_end_offset l'" and "i32_ok e"
  shows "epochs_inv l'"
proof -
  let ?es = "lec_entries (lg_epoch_checkpoint l)"
  have below: "starts_below ?es base" "starts_below ?es (log_end_offset l')" and pos: "0 \<le> base"
    using assms(1,4,5) starts_below_mono [of ?es "log_end_offset l"] by (auto simp: epochs_inv_def)
  show ?thesis
  proof (cases "0 \<le> e \<and> (case latest_epoch ?es of None \<Rightarrow> True | Some x \<Rightarrow> x < e)")
    case True
    then have es: "lec_entries (lg_epoch_checkpoint l') = snd (append_to ?es e base)"
      using assms(2,3) by (auto simp: note_epoch_def lec_append_def lec_flush_def append_to_def Let_def split: if_splits)
    have "epochs_wf (snd (append_to ?es e base))" using True assms(1) below(1) pos by (intro epochs_wf_append) (auto simp: epochs_inv_def)
    then show ?thesis using assms below pos unfolding epochs_inv_def es
      by (auto simp: append_to_def starts_below_def)
  next
    case False
    then have "lg_epoch_checkpoint l' = lg_epoch_checkpoint l" using assms(2,3) by (auto simp: note_epoch_def split: if_splits)
    then show ?thesis using assms(1,5) below pos by (simp add: epochs_inv_def)
  qed
qed

lemma epochs_truncated:
  assumes "epochs_inv l" and "0 \<le> log_end_offset l'"
    and "lg_epoch_checkpoint l' = truncate_from_end (lg_epoch_checkpoint l) (log_end_offset l')"
  shows "epochs_inv l'"
proof -
  have "lec_entries (lg_epoch_checkpoint l') = truncate_to (lec_entries (lg_epoch_checkpoint l)) (log_end_offset l')"
    using assms(3) by (simp add: truncate_from_end_def lec_flush_def Let_def)
  then show ?thesis using assms epochs_wf_truncate starts_below_truncate
    by (auto simp: epochs_inv_def truncate_to_def list_all_iff)
qed

section \<open>Committed batches\<close>

text \<open>
  The invariant of the metadata log: whole batches, and increasing epochs inside the log. The batches below
  the high watermark are the committed ones; those that reach an offset are the ones a reader may still ask for.
\<close>

definition kraft_inv :: "batch_lib \<Rightarrow> kraft_log \<Rightarrow> cells \<Rightarrow> bool" where
  "kraft_inv lib k xs \<longleftrightarrow> log_contents lib (kl_log k) xs \<and> epochs_inv (kl_log k)"

definition committed :: "kraft_log \<Rightarrow> cells \<Rightarrow> cells" where
  "committed k xs = before (kl_hwm k) xs"

definition reaching :: "int \<Rightarrow> cells \<Rightarrow> cells" where
  "reaching s xs = filter (\<lambda>c. s \<le> batch_last (fst c)) xs"

text \<open>
  The steps of a controller: truncation at or above the high watermark, a snapshot at or above the high watermark
  and the log end, appends of batches that fit their fields, and any advance and prune.
\<close>

inductive kraft_step :: "batch_lib \<Rightarrow> kraft_log \<Rightarrow> kraft_log \<Rightarrow> bool" for lib k where
  step_append: "kraft_append lib b k = Some (Inr base, k') \<Longrightarrow> batch_fits lib (b\<lparr>rb_base_offset := log_end_offset (kl_log k)\<rparr>)
    \<Longrightarrow> i32_ok (rb_partition_leader_epoch b) \<Longrightarrow> kraft_step lib k k'"
| step_append_at: "kraft_append_at lib b base k = Some (Inr (), k') \<Longrightarrow> batch_fits lib (b\<lparr>rb_base_offset := base\<rparr>)
    \<Longrightarrow> i32_ok (rb_partition_leader_epoch b) \<Longrightarrow> kraft_step lib k k'"
| step_advance: "kraft_step lib k (advance_hwm n k)"
| step_truncate: "kraft_truncate_to lib off k = Some (Inr (), k') \<Longrightarrow> kl_hwm k \<le> off \<Longrightarrow> kraft_step lib k k'"
| step_prune: "prune_to n k = Some (Inr (), k') \<Longrightarrow> kraft_step lib k k'"
| step_install: "install_snapshot n k = Some (Inr (), k') \<Longrightarrow> kl_hwm k \<le> n \<Longrightarrow> log_end_offset (kl_log k) \<le> n \<Longrightarrow> n \<le> i64_MAX
    \<Longrightarrow> kraft_step lib k k'"

text \<open>What a step other than an installation gives: the same batches up to the old high watermark.\<close>

definition keeps_committed :: "batch_lib \<Rightarrow> kraft_log \<Rightarrow> cells \<Rightarrow> kraft_log \<Rightarrow> bool" where
  "keeps_committed lib k xs k' \<longleftrightarrow> (\<exists>ys. kraft_inv lib k' ys \<and> kl_hwm k \<le> kl_hwm k' \<and> prefix (committed k xs) (committed k' ys))
     \<and> (kl_hwm k \<le> log_end_offset (kl_log k') \<longrightarrow> kl_hwm k' \<le> log_end_offset (kl_log k'))"

lemma before_append: "prefix (before h xs) (before h (xs @ ys))"
  by (induction xs) auto

lemma contents_end_nonneg:
  assumes "log_contents lib l xs"
  shows "0 \<le> log_end_offset l"
proof -
  obtain css cs where holds: "log_holds lib l css cs" using assms by (auto simp: log_contents_def)
  obtain a where a: "lg_active l = Some a" "seg_holds lib a cs" using holds by (rule log_holdsE)
  then show ?thesis using log_end_holds [OF a] holds_bounds(1) [OF a(2)] seg_holdsD(1) [OF a(2)] by simp
qed

lemma adds_committed:
  assumes "kraft_inv lib k xs" and "adds b (log_end_offset (kl_log k), xs) st'" and "log_abs lib l' st'" and "epochs_inv l'"
  shows "keeps_committed lib k xs (k\<lparr>kl_log := l'\<rparr>)"
proof -
  obtain n' ys where st: "st' = (n', ys)" by (cases st')
  have ys: "ys = xs @ [last ys]" using assms(2) append_butlast_last_id [of ys] by (auto simp: adds_def st)
  have "prefix (committed k xs) (committed (k\<lparr>kl_log := l'\<rparr>) ys)"
    using before_append [of "kl_hwm k" xs "[last ys]"] ys by (simp add: committed_def)
  then show ?thesis using assms by (auto simp: keeps_committed_def kraft_inv_def log_abs_def st)
qed

lemma fits_last: "batch_fits lib b \<Longrightarrow> 0 \<le> rb_base_offset b \<Longrightarrow> batch_last b = rb_base_offset b + rb_last_offset_delta b \<and> 0 \<le> rb_last_offset_delta b"
  by (simp add: batch_fits_def batch_last_def int_width)

lemma append_committed:
  assumes "kraft_inv lib k xs" and "kraft_append lib b k = Some (Inr base, k')"
    and "batch_fits lib (b\<lparr>rb_base_offset := log_end_offset (kl_log k)\<rparr>)" and "i32_ok (rb_partition_leader_epoch b)"
  shows "keeps_committed lib k xs k'"
proof -
  let ?l = "kl_log k" and ?b = "b\<lparr>rb_base_offset := log_end_offset (kl_log k)\<rparr>"
  obtain l' where l': "log_append lib b ?l = Some (Inr base, l')" "k' = k\<lparr>kl_log := l'\<rparr>"
    using assms(2) by (auto simp: kraft_append_def on_log_Inr)
  have inv: "log_contents lib ?l xs" "epochs_inv ?l" using assms(1) by (simp_all add: kraft_inv_def)
  have last: "batch_last ?b = log_end_offset ?l + rb_last_offset_delta b" "0 \<le> rb_last_offset_delta b"
    using fits_last [OF assms(3)] contents_end_nonneg [OF inv(1)] by simp_all
  obtain st' where st: "adds ?b (log_end_offset ?l, xs) st'" "log_abs lib l' st'" using run_append_refines [OF inv(1) assms(3) l'(1)] by blast
  then have end': "log_end_offset l' = batch_last ?b + 1" by (cases st') (simp add: adds_def log_abs_def)
  obtain l1 where "append_preserving_offset lib ?b ?l = Some (Inr (), l1)"
    and "note_epoch (rb_partition_leader_epoch b) (log_end_offset ?l) l1 = Some (Inr (), l')"
    using l'(1) unfolding log_append_def Let_def by (elim abind_InrE) auto
  then have "epochs_inv l'" using epochs_noted [OF inv(2) append_preserving_epochs _ order_refl] end' last assms(4) by simp
  then show ?thesis using adds_committed [OF assms(1) st] l'(2) by simp
qed

lemma append_at_committed:
  assumes "kraft_inv lib k xs" and "kraft_append_at lib b base k = Some (Inr (), k')"
    and "batch_fits lib (b\<lparr>rb_base_offset := base\<rparr>)" and "i32_ok (rb_partition_leader_epoch b)"
  shows "keeps_committed lib k xs k'"
proof -
  let ?l = "kl_log k" and ?b = "b\<lparr>rb_base_offset := base\<rparr>"
  obtain l' where l': "append_at lib b base ?l = Some (Inr (), l')" "k' = k\<lparr>kl_log := l'\<rparr>"
    using assms(2) by (auto simp: kraft_append_at_def on_log_Inr)
  have inv: "log_contents lib ?l xs" "epochs_inv ?l" using assms(1) by (simp_all add: kraft_inv_def)
  obtain l1 where base: "log_end_offset ?l \<le> base" and l1: "append_preserving_offset lib ?b ?l = Some (Inr (), l1)"
    and noted: "note_epoch (rb_partition_leader_epoch b) base l1 = Some (Inr (), l')"
    using l'(1) unfolding append_at_def Let_def by (auto simp: append_at_expected_offset_def split: if_splits elim!: abind_InrE)
  have last: "batch_last ?b = base + rb_last_offset_delta b" "0 \<le> rb_last_offset_delta b"
    using fits_last [OF assms(3)] contents_end_nonneg [OF inv(1)] base by simp_all
  obtain st' where st: "adds ?b (log_end_offset ?l, xs) st'" "log_abs lib l' st'" using run_append_at_refines [OF inv(1) assms(3) l'(1)] by blast
  then have end': "log_end_offset l' = batch_last ?b + 1" by (cases st') (simp add: adds_def log_abs_def)
  have "epochs_inv l'" using epochs_noted [OF inv(2) append_preserving_epochs [OF l1] noted base] end' last assms(4) by simp
  then show ?thesis using adds_committed [OF assms(1) st] l'(2) by simp
qed

lemma before_mono: "h \<le> h' \<Longrightarrow> prefix (before h xs) (before h' xs)"
  by (induction xs) auto

lemma before_before: "h \<le> off \<Longrightarrow> before h (before off xs) = before h xs"
  by (induction xs) auto

lemma truncate_committed:
  assumes "kraft_inv lib k xs" and "kraft_truncate_to lib off k = Some (Inr (), k')" and "kl_hwm k \<le> off"
  shows "keeps_committed lib k xs k'"
proof -
  obtain l' where l': "log_truncate_to lib off (kl_log k) = Some (Inr (), l')"
    and k': "k' = persist_hwm (k\<lparr>kl_log := l', kl_hwm := min (kl_hwm k) off\<rparr>)"
    using assms(2) unfolding kraft_truncate_to_def by (elim kbind_InrE) (auto simp: on_log_Inr kupdate_def)
  have inv: "log_contents lib (kl_log k) xs" "epochs_inv (kl_log k)" using assms(1) by (simp_all add: kraft_inv_def)
  have ys: "log_contents lib l' (before off xs)" using truncate_contents [OF inv(1) l'] by blast
  have "epochs_inv l'"
    using truncate_epochs [OF l'] inv(2) epochs_truncated [OF inv(2) contents_end_nonneg [OF ys]] by blast
  then show ?thesis using ys k' assms(3) before_before [OF assms(3), of xs] unfolding keeps_committed_def
    by (intro conjI exI [of _ "before off xs"]) (simp_all add: kraft_inv_def persist_hwm_def committed_def)
qed

text \<open>
  A cut inside a batch takes the whole batch with it. The high watermark is not lowered with it, so it stays inside the
  log precisely when it does not reach into that batch.
\<close>

lemma truncate_overhang:
  assumes "kraft_inv lib k xs" and "kraft_truncate_to lib off k = Some (Inr (), k')" and "kl_hwm k \<le> off" and "before off xs \<noteq> []"
  shows "kl_hwm k' \<le> log_end_offset (kl_log k') \<longleftrightarrow> kl_hwm k \<le> batch_last (fst (last (before off xs))) + 1"
proof -
  obtain l' where l': "log_truncate_to lib off (kl_log k) = Some (Inr (), l')"
    and k': "k' = persist_hwm (k\<lparr>kl_log := l', kl_hwm := min (kl_hwm k) off\<rparr>)"
    using assms(2) unfolding kraft_truncate_to_def by (elim kbind_InrE) (auto simp: on_log_Inr kupdate_def)
  have "log_contents lib l' (before off xs)" using truncate_contents [OF _ l'] assms(1) by (auto simp: kraft_inv_def)
  from contents_end [OF this assms(4)] show ?thesis using k' assms(3) by (simp add: persist_hwm_def)
qed

text \<open>Pruning moves the log start; the trim that follows finds nothing left to do.\<close>

lemma prune_same:
  assumes "prune_to n k = Some (Inr (), k')"
  shows "same_core (kl_log k) (kl_log k')" and "kl_hwm k' = kl_hwm k"
proof -
  have "same_core (kl_log k) (kl_log k') \<and> kl_hwm k' = kl_hwm k"
  proof (cases "n \<le> log_start_offset (kl_log k)")
    case True
    then show ?thesis using assms by (auto simp: prune_to_def persist_log_start_offset_def)
  next
    case False
    obtain l1 r l2 where l1: "set_log_start_offset n (kl_log k) = Some (Inr (), l1)" and l2: "trim_to_offset n l1 = Some (Inr r, l2)"
      and k': "k' = persist_log_start_offset (k\<lparr>kl_log := l2\<rparr>)"
      using assms False unfolding prune_to_def by (auto elim!: kbind_InrE simp: on_log_Inr kupdate_def)
    have l1': "l1 = (kl_log k)\<lparr>lg_start_offset_override := Some n\<rparr>" using l1 by (auto simp: set_log_start_offset_def split: if_splits)
    then have "n \<le> log_start_offset l1" by (simp add: log_start_first)
    then have "min n (log_end_offset l1) \<le> log_start_offset l1" by simp
    then have "l2 = l1" using l2 by (simp add: trim_to_offset_def Let_def split: if_splits)
    then show ?thesis using k' l1' by (simp add: persist_log_start_offset_def same_core_def same_data_def)
  qed
  then show "same_core (kl_log k) (kl_log k')" "kl_hwm k' = kl_hwm k" by simp_all
qed

lemma prune_committed:
  assumes "kraft_inv lib k xs" and "prune_to n k = Some (Inr (), k')"
  shows "keeps_committed lib k xs k'"
proof -
  have core: "same_core (kl_log k) (kl_log k')" and hwm: "kl_hwm k' = kl_hwm k" using prune_same [OF assms(2)] by simp_all
  have "epochs_inv (kl_log k')" "log_contents lib (kl_log k') xs"
    using assms(1) core same_data_holds [OF core_data [OF core]] same_end [OF core_data [OF core]]
    by (simp_all add: kraft_inv_def epochs_inv_def log_contents_def same_core_def)
  then show ?thesis using hwm unfolding keeps_committed_def
    by (intro conjI exI [of _ xs]) (simp_all add: kraft_inv_def committed_def)
qed

lemma advance_committed:
  assumes "kraft_inv lib k xs"
  shows "keeps_committed lib k xs (advance_hwm n k)"
proof -
  have "kl_hwm k \<le> kl_hwm (advance_hwm n k)" "kl_log (advance_hwm n k) = kl_log k"
    "kl_hwm k \<le> log_end_offset (kl_log k) \<longrightarrow> kl_hwm (advance_hwm n k) \<le> log_end_offset (kl_log k)"
    by (auto simp: advance_hwm_def persist_hwm_def Let_def)
  then show ?thesis using assms before_mono [of "kl_hwm k" "kl_hwm (advance_hwm n k)" xs]
    by (auto simp: keeps_committed_def kraft_inv_def committed_def)
qed

lemma install_reset:
  assumes "install_snapshot n k = Some (Inr (), k')" and "n \<le> i64_MAX"
  shows "kraft_inv lib k' []" and "kl_hwm k' = n" and "log_end_offset (kl_log k') = n" and "log_start_offset (kl_log k') = n"
proof -
  obtain l' where l': "reset_to n (kl_log k) = Some (Inr (), l')"
    and k': "k' = persist_hwm ((persist_log_start_offset (k\<lparr>kl_log := l'\<rparr>))\<lparr>kl_hwm := n\<rparr>)"
    using assms(1) unfolding install_snapshot_def by (elim kbind_InrE) (auto simp: on_log_Inr kupdate_def)
  have log: "kl_log k' = l'" and "kl_hwm k' = n" using k' by (simp_all add: persist_hwm_def persist_log_start_offset_def)
  then show "kl_hwm k' = n" by simp
  have cont: "log_contents lib l' []" "log_end_offset l' = n" using reset_contents [OF l' assms(2)] by simp_all
  then show "log_end_offset (kl_log k') = n" using log by simp
  obtain l0 l1 where l0: "lg_segments l0 = []" "lg_start_offset_override l0 = None" and st: "start_segment n l0 = Some (Inr (), l1)"
    and l1: "same_data l1 l'" "lg_start_offset_override l' = lg_start_offset_override l1"
      "lg_epoch_checkpoint l' = lec_clear (lg_epoch_checkpoint l1)"
    using l' unfolding reset_to_def Let_def
    by (auto split: if_splits elim!: abind_InrE simp: drop_files_def same_data_def intro!: that)
  then have "lec_entries (lg_epoch_checkpoint l') = []" "lg_segments l' = []" "lg_start_offset_override l' = None"
    "lg_active l' = Some (seg_create n)"
    using start_segment_Inr [OF st] by (simp_all add: same_data_def lec_clear_def lec_flush_def)
  then show "kraft_inv lib k' []" "log_start_offset (kl_log k') = n"
    using cont log contents_end_nonneg [OF cont(1)]
    by (simp_all add: kraft_inv_def epochs_inv_def epochs_wf_def starts_below_def log_start_offset_def seg_create_def)
qed

lemma before_below: "c \<in> set (before h xs) \<Longrightarrow> batch_last (fst c) < h"
  by (induction xs) (auto split: if_splits)

lemma reaching_prefix: "prefix xs ys \<Longrightarrow> prefix (reaching s xs) (reaching s ys)"
  by (auto simp: reaching_def prefix_def)

lemma kraft_step_committed:
  assumes "kraft_inv lib k xs" and "kraft_step lib k k'" and "log_start_offset (kl_log k') \<le> s"
  shows "\<exists>ys. kraft_inv lib k' ys \<and> kl_hwm k \<le> kl_hwm k' \<and> prefix (reaching s (committed k xs)) (reaching s (committed k' ys))"
    and "kl_hwm k \<le> log_end_offset (kl_log k') \<Longrightarrow> kl_hwm k' \<le> log_end_offset (kl_log k')"
proof -
  have "(\<exists>ys. kraft_inv lib k' ys \<and> kl_hwm k \<le> kl_hwm k' \<and> prefix (reaching s (committed k xs)) (reaching s (committed k' ys)))
    \<and> (kl_hwm k \<le> log_end_offset (kl_log k') \<longrightarrow> kl_hwm k' \<le> log_end_offset (kl_log k'))"
  proof (cases "\<exists>n. install_snapshot n k = Some (Inr (), k') \<and> kl_hwm k \<le> n \<and> n \<le> i64_MAX")
    case True
    then obtain n where n: "install_snapshot n k = Some (Inr (), k')" "kl_hwm k \<le> n" "n \<le> i64_MAX" by blast
    note inst = install_reset [OF n(1,3)]
    have "reaching s (committed k xs) = []"
      using n(2) assms(3) inst(4) before_below [of _ "kl_hwm k" xs] by (fastforce simp: reaching_def committed_def filter_empty_conv)
    then show ?thesis using inst(1-3) n(2) by auto
  next
    case False
    have "keeps_committed lib k xs k'"
      using assms(2)
    proof cases
      case (step_install n)
      then show ?thesis using False by blast
    qed (use append_committed [OF assms(1)] append_at_committed [OF assms(1)] advance_committed [OF assms(1)]
        truncate_committed [OF assms(1)] prune_committed [OF assms(1)] in blast)+
    then show ?thesis unfolding keeps_committed_def using reaching_prefix by blast
  qed
  then show "\<exists>ys. kraft_inv lib k' ys \<and> kl_hwm k \<le> kl_hwm k' \<and> prefix (reaching s (committed k xs)) (reaching s (committed k' ys))"
    and "kl_hwm k \<le> log_end_offset (kl_log k') \<Longrightarrow> kl_hwm k' \<le> log_end_offset (kl_log k')" by blast+
qed

text \<open>Runs in which no log start lies above an offset.\<close>

definition step_below :: "batch_lib \<Rightarrow> int \<Rightarrow> kraft_log \<Rightarrow> kraft_log \<Rightarrow> bool" where
  "step_below lib s k k' \<longleftrightarrow> kraft_step lib k k' \<and> log_start_offset (kl_log k') \<le> s"

lemma kraft_run_committed:
  assumes "(step_below lib s)\<^sup>*\<^sup>* k k'" and "kraft_inv lib k xs"
  shows "\<exists>ys. kraft_inv lib k' ys \<and> kl_hwm k \<le> kl_hwm k' \<and> prefix (reaching s (committed k xs)) (reaching s (committed k' ys))"
  using assms
proof (induction rule: rtranclp_induct)
  case base
  then show ?case by blast
next
  case (step k1 k2)
  then obtain ys where ys: "kraft_inv lib k1 ys" "kl_hwm k \<le> kl_hwm k1" "prefix (reaching s (committed k xs)) (reaching s (committed k1 ys))"
    by blast
  obtain zs where zs: "kraft_inv lib k2 zs" "kl_hwm k1 \<le> kl_hwm k2" "prefix (reaching s (committed k1 ys)) (reaching s (committed k2 zs))"
    using kraft_step_committed(1) [OF ys(1)] step(2) unfolding step_below_def by blast
  show ?case using ys(2,3) zs prefix_order.trans [OF ys(3) zs(3)] order.trans [OF ys(2) zs(2)] by blast
qed

section \<open>Decoded reads end\<close>

lemma decode_all_cells: "all_stored lib ys \<Longrightarrow> decode_all lib (cells_bytes ys) = Inr (map fst ys)"
proof (induction ys)
  case (Cons y ys)
  obtain b out where y: "y = (b, out)" by (cases y)
  have st: "stored lib b out" using Cons.prems y by simp
  then have "out \<noteq> []" using stored_length by fastforce
  then show ?case using Cons st y by (simp add: decode_all.simps [of lib "out @ cells_bytes ys"] stored_def)
qed (simp add: decode_all.simps)

lemma contents_cells:
  assumes "log_contents lib l xs" and "c \<in> set xs"
  shows "stored lib (fst c) (snd c)" and "rb_base_offset (fst c) \<le> batch_last (fst c)"
proof -
  obtain css cs where holds: "log_holds lib l css cs" and xs: "xs = concat css @ cs" using assms(1) by (auto simp: log_contents_def)
  obtain a where a: "seg_holds lib a cs" "list_all2 (seg_holds lib) (lg_segments l) css" using holds by (rule log_holdsE)
  have "\<exists>s ds. seg_holds lib s ds \<and> c \<in> set ds"
  proof (cases "c \<in> set cs")
    case False
    then obtain ds where "ds \<in> set css" "c \<in> set ds" using assms(2) xs by auto
    then show ?thesis using a(2) by (metis in_set_conv_nth list_all2_conv_all_nth)
  qed (use a(1) in blast)
  then obtain s ds where s: "seg_holds lib s ds" "c \<in> set ds" by blast
  then show "stored lib (fst c) (snd c)" using seg_holdsD(4) [OF s(1)] by (auto simp: list_all_iff split_def)
  show "rb_base_offset (fst c) \<le> batch_last (fst c)" using offsets_ok_mem [OF seg_holdsD(5) [OF s(1)] s(2)] by simp
qed

lemma empty_contents:
  assumes "log_contents lib l []"
  shows "log_end_offset l \<le> log_start_offset l"
proof -
  obtain css cs where holds: "log_holds lib l css cs" and "[] = concat css @ cs" using assms by (auto simp: log_contents_def)
  then have xs: "cs = []" "\<And>c. c \<in> set css \<Longrightarrow> c = []" by simp_all
  obtain a where a: "lg_active l = Some a" "seg_holds lib a cs" "list_all2 (seg_holds lib) (lg_segments l) css" "chained (lg_segments l @ [a])"
    using holds by (rule log_holdsE)
  have "lg_segments l = []"
  proof (rule ccontr)
    assume "lg_segments l \<noteq> []"
    then obtain s ss c where s: "lg_segments l = s # ss" "seg_holds lib s c" "c \<in> set css" using a(3) by (cases "lg_segments l") (auto simp: list_all2_Cons1)
    then have "sg_last_offset s = sg_base_offset s - 1" using xs(2) seg_holdsD(6) [OF s(2)] by (simp add: end_of_def)
    then show False using a(4) unfolding s(1) by (cases ss) auto
  qed
  moreover have "sg_last_offset a = sg_base_offset a - 1" using seg_holdsD(6) [OF a(2)] xs(1) by (simp add: end_of_def)
  ultimately show ?thesis using a(1) log_end_holds [OF a(1,2)] by (simp add: log_start_first first_base_def split: option.splits)
qed

lemma wanted_nonempty:
  assumes "log_contents lib l xs" and "log_start_offset l \<le> off" and "off < log_end_offset l"
  shows "wanted off (log_end_offset l) xs \<noteq> []"
proof -
  have ne: "xs \<noteq> []" using empty_contents [of lib l] assms by fastforce
  note fin = contents_end [OF assms(1) ne]
  have "rb_base_offset (fst (last xs)) \<le> batch_last (fst (last xs))"
    using contents_cells(2) [OF assms(1) last_in_set [OF ne]] .
  then have "last xs \<in> set (wanted off (log_end_offset l) xs)" using fin assms(3) ne by (simp add: wanted_def)
  then show ?thesis by fastforce
qed

lemma read_decoded_loop_ends:
  assumes "log_contents lib l xs" and "0 \<le> off" and "off < log_end_offset l" and "0 < window"
  shows "\<exists>r. read_decoded_loop lib l off (log_end_offset l) window = Some r
    \<and> (\<forall>bs. r = Inr bs \<longrightarrow> bs \<noteq> [] \<and> subseq bs (map fst (wanted off (log_end_offset l) xs)))"
  using assms(4)
proof (induction "length (cells_bytes xs) + 1 - window" arbitrary: window rule: less_induct)
  case less
  show ?case
  proof (cases "log_read_raw l off (log_end_offset l) window")
    case (Inl e)
    then show ?thesis by (subst read_decoded_loop.simps) simp
  next
    case (Inr raw)
    obtain ys where ys: "subseq ys (wanted off (log_end_offset l) xs)" "rr_bytes raw = cells_bytes ys"
      and all: "length (cells_bytes xs) < window \<longrightarrow> ys = wanted off (log_end_offset l) xs"
      using log_read_raw_run [OF assms(1,2) Inr] assms(3) by auto
    have "c \<in> set xs" if "c \<in> set ys" for c using list_emb_set [OF ys(1) that] by (auto simp: wanted_def)
    then have "all_stored lib ys" using contents_cells(1) [OF assms(1)] by (auto simp: list_all_iff)
    then have dec: "decode_all lib (rr_bytes raw) = Inr (map fst ys)" using decode_all_cells ys(2) by simp
    show ?thesis
    proof (cases ys)
      case Nil
      have "log_start_offset l \<le> off" using Inr by (auto simp: log_read_raw_def split: if_splits)
      then have "window \<le> length (cells_bytes xs)" using all wanted_nonempty [OF assms(1) _ assms(3)] Nil by (metis not_less)
      then show ?thesis using less.hyps [of "window * 2"] less.prems Inr dec Nil by (subst read_decoded_loop.simps) simp
    next
      case (Cons c cs)
      then show ?thesis using Inr dec subseq_map [OF ys(1), of fst] by (subst read_decoded_loop.simps) simp
    qed
  qed
qed

section \<open>Properties\<close>

text \<open>
  C4. Committed metadata is never lost or rewritten. In any run of appends as a leader or at an offset
  given by the leader, advances of the high watermark, truncations at or above it, prunings and installed
  snapshots at or above it and the log end, the committed batches that reach beyond every log start of the run stay
  stored, in order and before anything committed later; the high watermark never moves back; and the log keeps
  whole batches and increasing epochs inside it. A step takes the high watermark past the log end only if it
  leaves the log end below the old high watermark, as a truncation inside a batch can.
\<close>

theorem committed_stable:
  assumes "kraft_inv lib k xs" and "(step_below lib s)\<^sup>*\<^sup>* k k'"
  shows "(\<exists>ys. kraft_inv lib k' ys \<and> kl_hwm k \<le> kl_hwm k' \<and> prefix (reaching s (committed k xs)) (reaching s (committed k' ys)))
    \<and> (\<forall>k2. kraft_step lib k' k2 \<and> kl_hwm k' \<le> log_end_offset (kl_log k2) \<longrightarrow> kl_hwm k2 \<le> log_end_offset (kl_log k2))"
proof -
  obtain ys where "kraft_inv lib k' ys" using kraft_run_committed [OF assms(2,1)] by blast
  from kraft_step_committed(2) [OF this _ order_refl] show ?thesis using kraft_run_committed [OF assms(2,1)] by blast
qed

definition sample_kraft :: kraft_log where
  "sample_kraft = \<lparr>kl_log = log_at [[0, 1]] [2], kl_hwm = 2, kl_hwm_file = Some ''2'', kl_start_file = None\<rparr>"

lemma sample_kraft_inv: "kraft_inv plain_lib sample_kraft (cells_at [0, 1, 2])"
  using log_at_contents
  by (simp add: kraft_inv_def sample_kraft_def epochs_inv_def log_at_def epochs_wf_def starts_below_def log_end_offset_def int_width)

theorem committed_stable_witness:
  "\<exists>ys. kraft_inv plain_lib (advance_hwm 9 sample_kraft) ys \<and> kl_hwm (advance_hwm 9 sample_kraft) = 3
     \<and> prefix (cells_at [0, 1]) (reaching 0 (committed (advance_hwm 9 sample_kraft) ys))"
proof -
  let ?k = "advance_hwm 9 sample_kraft"
  have "log_start_offset (kl_log ?k) \<le> 0"
    by (simp add: advance_hwm_def sample_kraft_def persist_hwm_def log_end_offset_def log_start_offset_def log_at_def segment_at_def seg_seal_def int_width)
  then have "(step_below plain_lib 0)\<^sup>*\<^sup>* sample_kraft ?k" using step_advance by (auto simp: step_below_def)
  from committed_stable [OF sample_kraft_inv this] obtain ys where inv: "kraft_inv plain_lib ?k ys"
    and pre: "prefix (reaching 0 (committed sample_kraft (cells_at [0, 1, 2]))) (reaching 0 (committed ?k ys))" by blast
  have "reaching 0 (committed sample_kraft (cells_at [0, 1, 2])) = cells_at [0, 1]"
    by (simp add: reaching_def committed_def sample_kraft_def cells_at_def batch_at_offsets int_width)
  moreover have "kl_hwm ?k = 3"
    by (simp add: advance_hwm_def sample_kraft_def persist_hwm_def log_end_offset_def int_width)
  ultimately show ?thesis using inv pre by auto
qed

text \<open>
  C9. The truncation hint that a leader sends is the exact divergence point of its metadata log: it lies
  inside the log and below the offset the follower asked for, in an epoch the leader knows, and an offset
  of the leader's log lies below it precisely when its epoch is not newer than the follower's epoch.
\<close>

theorem truncation_hint_exact:
  assumes "epochs_inv (kl_log k)" and "TruncateTo p \<in> set (snd (handle_fetch m (kraft_view k) src fe fo))"
    and "x < log_end_offset (kl_log k)" and "epoch_for_offset (lec_entries (lg_epoch_checkpoint (kl_log k))) x = Some owner"
  shows "0 \<le> lom_offset p \<and> lom_offset p \<le> log_end_offset (kl_log k) \<and> lom_offset p < fo
    \<and> lom_epoch p \<le> kraft_last_epoch k \<and> (x < lom_offset p \<longleftrightarrow> owner \<le> uint fe)"
proof -
  let ?es = "lec_entries (lg_epoch_checkpoint (kl_log k))"
  have known: "end_offset_for_epoch ?es (uint fe) (log_end_offset (kl_log k)) = lom_offset p" "lom_offset p \<noteq> - 1"
    using handle_fetch_truncate(1) [OF assms(2)]
    by (auto simp: kraft_view_def kraft_end_offset_for_epoch_def Let_def split: if_splits)
  then have "list_ex (\<lambda>e. ee_epoch e = uint fe) ?es" by (auto simp: end_offset_for_epoch_def UNDEFINED_OFFSET_def split: if_splits)
  then have "epoch_and_offset_for_entries ?es (uint fe) (log_end_offset (kl_log k)) = (uint fe, lom_offset p)"
    using end_offset_agrees [of ?es "uint fe" "log_end_offset (kl_log k)"] assms(1) known(1) by (simp add: epochs_inv_def)
  then have "x < lom_offset p \<longleftrightarrow> owner \<le> uint fe"
    using divergence_exact [of ?es "log_end_offset (kl_log k)" "uint fe" "uint fe" "lom_offset p" x owner] assms by (simp add: epochs_inv_def)
  then show ?thesis using kraft_view.truncation_hint_within [OF assms(1,2)] by (simp add: kraft_view_def)
qed

definition epoch_kraft :: kraft_log where
  "epoch_kraft = sample_kraft\<lparr>kl_log := (log_at [] [39])\<lparr>lg_epoch_checkpoint := \<lparr>lec_file = None, lec_entries = three_epochs\<rparr>\<rparr>\<rparr>"

theorem truncation_hint_exact_witness:
  "snd (handle_fetch leader_of_three (kraft_view epoch_kraft) 2 2 30) = [TruncateTo \<lparr>lom_offset = 25, lom_epoch = 2\<rparr>]
   \<and> (24 < (25 :: int) \<longleftrightarrow> 2 \<le> (2 :: int))"
proof -
  have log: "log_end_offset (kl_log epoch_kraft) = 40" "lec_entries (lg_epoch_checkpoint (kl_log epoch_kraft)) = three_epochs"
    by (simp_all add: epoch_kraft_def log_end_offset_def int_width)
  have eval: "end_offset_for_epoch three_epochs 2 40 = 25" "epoch_for_offset three_epochs 24 = Some 2" "epochs_wf three_epochs"
    "starts_below three_epochs 40" "list_all (\<lambda>e. i32_ok (ee_epoch e)) three_epochs" by code_simp+
  have inv: "epochs_inv (kl_log epoch_kraft)" using eval by (simp add: epochs_inv_def log)
  have hint: "snd (handle_fetch leader_of_three (kraft_view epoch_kraft) 2 2 30) = [TruncateTo \<lparr>lom_offset = 25, lom_epoch = 2\<rparr>]"
    using eval(1) by (simp add: handle_fetch_def leader_of_three_def kraft_view_def kraft_end_offset_for_epoch_def log int_width)
  then have "TruncateTo \<lparr>lom_offset = 25, lom_epoch = 2\<rparr> \<in> set (snd (handle_fetch leader_of_three (kraft_view epoch_kraft) 2 2 30))" by simp
  from truncation_hint_exact [OF inv this, of 24 2] show ?thesis using hint eval(2) by (simp add: log)
qed

text \<open>
  C21. A decoded read of the metadata log always returns: for a positive initial window the doubling loop
  ends, and a result that is not an error has at least one batch, all of them stored batches that
  reach the requested offset, in log order.
\<close>

theorem read_decoded_ends:
  assumes "log_contents lib (kl_log k) xs" and "0 \<le> off" and "off < log_end_offset (kl_log k)" and "0 < max_size"
  shows "\<exists>r. read_decoded lib k off max_size = Some r
    \<and> (\<forall>bs. r = Inr bs \<longrightarrow> bs \<noteq> [] \<and> subseq bs (map fst (wanted off (log_end_offset (kl_log k)) xs)))"
  using read_decoded_loop_ends [OF assms] assms(3) by (simp add: read_decoded_def)

theorem read_decoded_ends_witness:
  "\<exists>r. read_decoded plain_lib sample_kraft 1 1 = Some r"
proof -
  have "log_end_offset (kl_log sample_kraft) = 3" by (simp add: sample_kraft_def log_end_offset_def int_width)
  moreover have "log_contents plain_lib (kl_log sample_kraft) (cells_at [0, 1, 2])" using log_at_contents by (simp add: sample_kraft_def)
  ultimately show ?thesis using read_decoded_ends [of plain_lib sample_kraft "cells_at [0, 1, 2]" 1 1] by auto
qed

end
