(* ===== verification/Snapshot_Fetch.thy ===== *)
theory Snapshot_Fetch
  imports Complex_Main Kraft_Types Wire_Primitives
begin

text \<open>
  Reassembly of a metadata snapshot that a follower fetches in chunks (KIP-630),
  \<open>crates/kraft-core/src/snapshot_fetch.rs\<close>. A quantity of bytes is a number of bytes; the validation
  of a configured limit takes the quantity as a rational number, \<open>None\<close> when it is not finite.
\<close>

type_synonym snapshot_id = "int \<times> int"

definition METADATA_SNAPSHOT_FETCH_HARD_MAX_BYTES :: nat where
  "METADATA_SNAPSHOT_FETCH_HARD_MAX_BYTES = 1073741824"

definition fetch_max_new :: "rat option \<Rightarrow> string + nat" where
  "fetch_max_new value =
     (case value of
        None \<Rightarrow> Inl ''metadata snapshot fetch maximum must be a whole number of bytes''
      | Some raw \<Rightarrow>
          if raw \<noteq> of_int \<lfloor>raw\<rfloor> then Inl ''metadata snapshot fetch maximum must be a whole number of bytes''
          else if 1 \<le> \<lfloor>raw\<rfloor> \<and> nat \<lfloor>raw\<rfloor> \<le> METADATA_SNAPSHOT_FETCH_HARD_MAX_BYTES then Inr (nat \<lfloor>raw\<rfloor>)
          else Inl ''out of range'')"

definition fetch_max_default :: nat where
  "fetch_max_default = METADATA_SNAPSHOT_FETCH_HARD_MAX_BYTES"

record snapshot_fetch_state =
  sfs_snapshot_id :: snapshot_id
  sfs_leader_id :: node_id
  sfs_buf :: bytes
  sfs_size :: "int option"
  sfs_max_size :: nat

datatype snapshot_fetch_step = FetchContinue int | FetchComplete bytes | FetchRestart

definition fetch_with_max :: "snapshot_id \<Rightarrow> node_id \<Rightarrow> nat \<Rightarrow> snapshot_fetch_state" where
  "fetch_with_max snapshot_id leader_id max_size =
     \<lparr>sfs_snapshot_id = snapshot_id, sfs_leader_id = leader_id, sfs_buf = [], sfs_size = None, sfs_max_size = max_size\<rparr>"

definition fetch_new :: "snapshot_id \<Rightarrow> node_id \<Rightarrow> snapshot_fetch_state" where
  "fetch_new snapshot_id leader_id = fetch_with_max snapshot_id leader_id fetch_max_default"

definition len_i64 :: "'a list \<Rightarrow> int" where
  "len_i64 xs = min (int (length xs)) i64_MAX"

definition next_position :: "snapshot_fetch_state \<Rightarrow> int" where
  "next_position s = len_i64 (sfs_buf s)"

definition on_chunk ::
  "snapshot_fetch_state \<Rightarrow> snapshot_id \<Rightarrow> int \<Rightarrow> int \<Rightarrow> bytes \<Rightarrow> snapshot_fetch_step \<times> snapshot_fetch_state" where
  "on_chunk s snap_id size' position chunk =
     (if snap_id \<noteq> sfs_snapshot_id s \<or> position \<noteq> next_position s \<or> size' < 0 \<or> int (sfs_max_size s) < size'
      then (FetchRestart, s)
      else if sfs_size s \<noteq> None \<and> sfs_size s \<noteq> Some size' then (FetchRestart, s)
      else let s1 = s\<lparr>sfs_size := Some size'\<rparr> in
        if size' - position < len_i64 chunk then (FetchRestart, s1)
        else let s2 = s1\<lparr>sfs_buf := sfs_buf s1 @ chunk\<rparr> in
          if size' \<le> next_position s2 then (FetchComplete (sfs_buf s2), s2\<lparr>sfs_buf := []\<rparr>)
          else (FetchContinue (next_position s2), s2))"

section \<open>Runs of accepted chunks\<close>

text \<open>The state after the chunks of a list, each answered with a request for the next range.\<close>

inductive fetching :: "snapshot_fetch_state \<Rightarrow> (int \<times> bytes) list \<Rightarrow> snapshot_fetch_state \<Rightarrow> bool" for s0 where
  fetching_start: "fetching s0 [] s0"
| fetching_chunk: "fetching s0 cs s \<Longrightarrow> on_chunk s snap_id size' position chunk = (FetchContinue nxt, s') \<Longrightarrow>
    fetching s0 (cs @ [(size', chunk)]) s'"

definition fetch_inv :: "snapshot_fetch_state \<Rightarrow> (int \<times> bytes) list \<Rightarrow> snapshot_fetch_state \<Rightarrow> bool" where
  "fetch_inv s0 cs s \<longleftrightarrow> sfs_snapshot_id s = sfs_snapshot_id s0 \<and> sfs_max_size s = sfs_max_size s0
     \<and> sfs_buf s = concat (map snd cs)
     \<and> (case sfs_size s of None \<Rightarrow> cs = [] | Some n \<Rightarrow> n \<le> int (sfs_max_size s0) \<and> int (length (sfs_buf s)) \<le> n
          \<and> list_all (\<lambda>c. fst c = n) cs)"

lemma next_position_small: "int (length (sfs_buf s)) \<le> i64_MAX \<Longrightarrow> next_position s = int (length (sfs_buf s))"
  by (simp add: next_position_def len_i64_def)

text \<open>An accepted chunk lengthens the buffer by itself and stays within the declared size.\<close>

lemma on_chunk_accepts:
  assumes "on_chunk s snap_id size' position chunk = (r, s')" and "r \<noteq> FetchRestart" and "int (length (sfs_buf s)) \<le> i64_MAX"
    and "int (sfs_max_size s) < i64_MAX"
  shows "snap_id = sfs_snapshot_id s" and "position = int (length (sfs_buf s))" and "size' \<le> int (sfs_max_size s)"
    and "sfs_size s = None \<or> sfs_size s = Some size'" and "int (length (sfs_buf s @ chunk)) \<le> size'"
    and "sfs_size s' = Some size'" "sfs_snapshot_id s' = sfs_snapshot_id s" "sfs_max_size s' = sfs_max_size s"
    and "r = (if int (length (sfs_buf s @ chunk)) = size' then FetchComplete (sfs_buf s @ chunk) else FetchContinue (int (length (sfs_buf s @ chunk))))"
    and "sfs_buf s' = (if int (length (sfs_buf s @ chunk)) = size' then [] else sfs_buf s @ chunk)"
proof -
  let ?buf = "sfs_buf s @ chunk"
  have pos: "next_position s = int (length (sfs_buf s))" using assms(3) by (rule next_position_small)
  have guards: "snap_id = sfs_snapshot_id s" "position = next_position s" "\<not> size' < 0" "\<not> int (sfs_max_size s) < size'"
    "sfs_size s = None \<or> sfs_size s = Some size'" "\<not> size' - position < len_i64 chunk"
    using assms(1,2) by (auto simp: on_chunk_def Let_def split: if_splits)
  have "len_i64 chunk < i64_MAX" using guards(3,4,6) assms(4) pos guards(2) by linarith
  then have "len_i64 chunk = int (length chunk)" by (simp add: len_i64_def)
  then have len: "int (length ?buf) \<le> size'" using guards(2,6) pos by simp
  then have nxt: "next_position (s\<lparr>sfs_size := Some size', sfs_buf := ?buf\<rparr>) = int (length ?buf)"
    using guards(4) assms(4) by (intro trans [OF next_position_small]) simp_all
  have res: "(r, s') = (if int (length ?buf) = size' then (FetchComplete ?buf, s\<lparr>sfs_size := Some size', sfs_buf := []\<rparr>)
      else (FetchContinue (int (length ?buf)), s\<lparr>sfs_size := Some size', sfs_buf := ?buf\<rparr>))"
    using assms(1,2) guards len nxt by (auto simp: on_chunk_def Let_def split: if_splits)
  show "snap_id = sfs_snapshot_id s" "position = int (length (sfs_buf s))" "size' \<le> int (sfs_max_size s)"
    "sfs_size s = None \<or> sfs_size s = Some size'" "int (length ?buf) \<le> size'" using guards pos len by simp_all
  show "sfs_size s' = Some size'" "sfs_snapshot_id s' = sfs_snapshot_id s" "sfs_max_size s' = sfs_max_size s"
    "r = (if int (length ?buf) = size' then FetchComplete ?buf else FetchContinue (int (length ?buf)))"
    "sfs_buf s' = (if int (length ?buf) = size' then [] else ?buf)"
    using res by (auto split: if_splits)
qed

lemma fetching_inv:
  assumes "fetching s0 cs s" and "sfs_buf s0 = []" and "sfs_size s0 = None" and "int (sfs_max_size s0) < i64_MAX"
  shows "fetch_inv s0 cs s"
  using assms(1)
proof (induction rule: fetching.induct)
  case fetching_start
  then show ?case using assms(2,3) by (simp add: fetch_inv_def)
next
  case (fetching_chunk cs s snap_id size' position chunk nxt s')
  note inv = fetching_chunk.IH
  have len: "int (length (sfs_buf s)) \<le> i64_MAX" using inv assms(4) by (auto simp: fetch_inv_def int_width split: option.splits)
  have max: "int (sfs_max_size s) < i64_MAX" using inv assms(4) by (simp add: fetch_inv_def)
  note acc = on_chunk_accepts [OF fetching_chunk.hyps(2) _ len max]
  have "int (length (sfs_buf s @ chunk)) \<noteq> size'" using acc(9) by auto
  then show ?case using inv acc by (auto simp: fetch_inv_def list_all_iff split: option.splits)
qed

section \<open>Properties\<close>

text \<open>
  C14. A snapshot is reassembled exactly or not at all, and in bounded memory. Whatever a peer sends, the
  bytes held are those of the accepted chunks, in order, and never exceed the configured limit; when
  a chunk completes the transfer, it carries the id that was asked for, every chunk has declared the same
  total, and the assembled snapshot is the concatenation of the chunks and has precisely that length.
\<close>

theorem snapshot_exact:
  assumes "fetching (fetch_with_max snap leader max_size) cs s" and "int max_size < i64_MAX"
  shows "sfs_buf s = concat (map snd cs) \<and> length (sfs_buf s) \<le> max_size
    \<and> (\<forall>snap_id size' position chunk bs s'. on_chunk s snap_id size' position chunk = (FetchComplete bs, s') \<longrightarrow>
         snap_id = snap \<and> list_all (\<lambda>c. fst c = size') cs \<and> bs = concat (map snd cs) @ chunk
         \<and> int (length bs) = size' \<and> length bs \<le> max_size)"
proof -
  have inv: "fetch_inv (fetch_with_max snap leader max_size) cs s"
    using fetching_inv [OF assms(1)] assms(2) by (simp add: fetch_with_max_def)
  then have fields: "sfs_snapshot_id s = snap" "sfs_max_size s = max_size" "sfs_buf s = concat (map snd cs)"
    and small: "length (sfs_buf s) \<le> max_size"
    by (auto simp: fetch_inv_def fetch_with_max_def split: option.splits)
  have len: "int (length (sfs_buf s)) \<le> i64_MAX" "int (sfs_max_size s) < i64_MAX" using small assms(2) fields by simp_all
  have "snap_id = snap \<and> list_all (\<lambda>c. fst c = size') cs \<and> bs = concat (map snd cs) @ chunk \<and> int (length bs) = size' \<and> length bs \<le> max_size"
    if "on_chunk s snap_id size' position chunk = (FetchComplete bs, s')" for snap_id size' position chunk bs s'
  proof -
    note acc = on_chunk_accepts [OF that _ len]
    have "int (length (sfs_buf s @ chunk)) = size'" "bs = sfs_buf s @ chunk" using acc(9) by (auto split: if_splits)
    moreover have "list_all (\<lambda>c. fst c = size') cs" using acc(4) inv by (auto simp: fetch_inv_def split: option.splits)
    ultimately show ?thesis using acc(1,3) fields by simp
  qed
  then show ?thesis using fields(3) small by blast
qed

lemma chunk_continues:
  assumes "sfs_size s = None \<or> sfs_size s = Some (int n)" and "length (sfs_buf s @ chunk) < n" and "n \<le> sfs_max_size s" and "int (sfs_max_size s) < i64_MAX"
  shows "on_chunk s (sfs_snapshot_id s) (int n) (int (length (sfs_buf s))) chunk =
    (FetchContinue (int (length (sfs_buf s @ chunk))), s\<lparr>sfs_size := Some (int n), sfs_buf := sfs_buf s @ chunk\<rparr>)"
  using assms by (auto simp: on_chunk_def next_position_def len_i64_def Let_def)

lemma chunk_completes:
  assumes "sfs_size s = None \<or> sfs_size s = Some (int n)" and "length (sfs_buf s @ chunk) = n" and "n \<le> sfs_max_size s" and "int (sfs_max_size s) < i64_MAX"
  shows "on_chunk s (sfs_snapshot_id s) (int n) (int (length (sfs_buf s))) chunk =
    (FetchComplete (sfs_buf s @ chunk), s\<lparr>sfs_size := Some (int n), sfs_buf := []\<rparr>)"
  using assms by (auto simp: on_chunk_def next_position_def len_i64_def Let_def)

text \<open>A leader that sends the snapshot in order, in chunks that are not empty, is served to the end.\<close>

fun send_chunks :: "snapshot_fetch_state \<Rightarrow> int \<Rightarrow> bytes list \<Rightarrow> snapshot_fetch_step" where
  "send_chunks s n [] = FetchContinue (next_position s)"
| "send_chunks s n (c # cs) =
     (case on_chunk s (sfs_snapshot_id s) n (next_position s) c of
        (FetchContinue _, s') \<Rightarrow> send_chunks s' n cs
      | (r, _) \<Rightarrow> r)"

lemma snapshot_completes:
  assumes "sfs_size s = None \<or> sfs_size s = Some (int n)" and "length (sfs_buf s @ concat cs) = n" and "n \<le> sfs_max_size s"
    and "int (sfs_max_size s) < i64_MAX" and "cs \<noteq> []" and "[] \<notin> set cs"
  shows "send_chunks s (int n) cs = FetchComplete (sfs_buf s @ concat cs)"
  using assms
proof (induction s "int n" cs rule: send_chunks.induct)
  case (2 s c cs)
  have pos: "next_position s = int (length (sfs_buf s))" using "2.prems" by (intro next_position_small) simp
  show ?case
  proof (cases "cs = []")
    case True
    then show ?thesis using chunk_completes [of s n c] "2.prems" pos by simp
  next
    case False
    then have "length (sfs_buf s @ c) < n" using "2.prems"(2,6) by (cases cs) auto
    note cont = chunk_continues [OF "2.prems"(1) this "2.prems"(3,4)]
    show ?thesis using "2.hyps" [OF cont [folded pos, THEN sym] refl] cont pos False "2.prems" by simp
  qed
qed simp

theorem snapshot_exact_witness:
  "fst (on_chunk (snd (on_chunk (fetch_with_max (7, 1) 2 100) (7, 1) 3 0 [10, 11])) (7, 1) 3 2 [12]) = FetchComplete [10, 11, 12]
   \<and> concat (map snd [(3 :: int, [10, 11])]) @ [12] = [10, 11, 12 :: 8 word] \<and> length [10, 11, 12 :: 8 word] \<le> 100"
proof -
  let ?s0 = "fetch_with_max (7, 1) 2 100"
  let ?s1 = "?s0\<lparr>sfs_size := Some 3, sfs_buf := [10, 11]\<rparr>"
  have c1: "on_chunk ?s0 (7, 1) 3 0 [10, 11] = (FetchContinue 2, ?s1)"
    using chunk_continues [of ?s0 3 "[10, 11]"] by (simp add: fetch_with_max_def int_width)
  have c2: "on_chunk ?s1 (7, 1) 3 2 [12] = (FetchComplete [10, 11, 12], ?s1\<lparr>sfs_buf := []\<rparr>)"
    using chunk_completes [of ?s1 3 "[12]"] by (simp add: fetch_with_max_def int_width)
  have "fetching ?s0 ([] @ [(3, [10, 11])]) ?s1" by (rule fetching_chunk [OF fetching_start c1])
  then have run: "fetching ?s0 [(3, [10, 11])] ?s1" by simp
  show ?thesis using snapshot_exact [OF run] c1 c2 by (simp add: int_width)
qed

end
