(* ===== verification/Producer_State.thy ===== *)
theory Producer_State
  imports Log_Contents "HOL-Library.AList"
begin

text \<open>
  The broker's idempotent-producer tracker (\<open>crates/broker/src/producer_state.rs\<close>): per topic and
  partition, the last accepted batch of each producer, the decision for an incoming batch, and
  committing, truncating, expiring and rebuilding. The concurrent maps are finite maps: an association
  list for the topics, ordered maps for the integer keys, whose order stands for the unspecified iteration
  order. Every operation runs under the lock of its partition, so it is one step here; the clock is an argument.
\<close>

record producer_entry =
  pe_epoch :: int
  pe_last_sequence :: int
  pe_last_offset :: int
  pe_base_offset :: int
  pe_last_timestamp :: int
  pe_last_activity_ms :: int

type_synonym partition_producer_state = "(int, producer_entry) btree_map"
type_synonym partition_map = "(int, partition_producer_state) btree_map"
type_synonym producer_state = "(string \<times> partition_map) list"

datatype decision = Append | Duplicate int | OutOfOrder | Fenced

section \<open>The decision\<close>

definition matches_last_batch :: "producer_entry \<Rightarrow> int \<Rightarrow> int \<Rightarrow> bool" where
  "matches_last_batch e base_sequence last_offset_delta =
     (case Option.bind (i64_checked_sub (pe_last_offset e) (pe_base_offset e)) i32_try_from of
        None \<Rightarrow> False
      | Some committed_delta \<Rightarrow>
          base_sequence = decrement_sequence (pe_last_sequence e) committed_delta
          \<and> increment_sequence base_sequence last_offset_delta = pe_last_sequence e)"

definition check_pure :: "producer_entry option \<Rightarrow> int \<Rightarrow> int \<Rightarrow> int \<Rightarrow> decision" where
  "check_pure entry producer_epoch base_sequence last_offset_delta =
     (case entry of
        None \<Rightarrow> Append
      | Some e \<Rightarrow>
          if producer_epoch < pe_epoch e then Fenced
          else if pe_epoch e < producer_epoch then Append
          else if base_sequence = increment_sequence (pe_last_sequence e) 1 then Append
          else if matches_last_batch e base_sequence last_offset_delta then Duplicate (pe_base_offset e)
          else OutOfOrder)"

section \<open>The tracker\<close>

definition topic_parts :: "producer_state \<Rightarrow> string \<Rightarrow> partition_map" where
  "topic_parts st topic = (case map_of st topic of Some parts \<Rightarrow> parts | None \<Rightarrow> [])"

text \<open>The handle of a partition creates the topic and the partition on a miss.\<close>

definition handle :: "producer_state \<Rightarrow> string \<Rightarrow> int \<Rightarrow> partition_producer_state \<times> producer_state" where
  "handle st topic part =
     (let parts = bt_or_insert (topic_parts st topic) part []
      in (case bt_get parts part of Some s \<Rightarrow> s | None \<Rightarrow> [], AList.update topic parts st))"

definition put_partition :: "producer_state \<Rightarrow> string \<Rightarrow> int \<Rightarrow> partition_producer_state \<Rightarrow> producer_state" where
  "put_partition st topic part s = AList.update topic (bt_insert (topic_parts st topic) part s) st"

definition check :: "producer_state \<Rightarrow> string \<Rightarrow> int \<Rightarrow> int \<Rightarrow> int \<Rightarrow> int \<Rightarrow> int \<Rightarrow> decision \<times> producer_state" where
  "check st topic part producer_id producer_epoch base_sequence last_offset_delta =
     (case handle st topic part of
        (s, st') \<Rightarrow> (check_pure (bt_get s producer_id) producer_epoch base_sequence last_offset_delta, st'))"

definition committed_entry :: "int \<Rightarrow> int \<Rightarrow> int \<Rightarrow> int \<Rightarrow> int \<Rightarrow> int \<Rightarrow> producer_entry" where
  "committed_entry producer_epoch base_sequence last_offset_delta base_offset last_timestamp now =
     \<lparr>pe_epoch = producer_epoch, pe_last_sequence = increment_sequence base_sequence last_offset_delta,
      pe_last_offset = i64_wrapping_add base_offset last_offset_delta, pe_base_offset = base_offset,
      pe_last_timestamp = last_timestamp, pe_last_activity_ms = now\<rparr>"

definition commit ::
  "producer_state \<Rightarrow> string \<Rightarrow> int \<Rightarrow> int \<times> int \<Rightarrow> int \<times> int \<Rightarrow> int \<times> int \<Rightarrow> int \<Rightarrow> producer_state" where
  "commit st topic part producer sequence' append' now =
     (case (producer, sequence', append', handle st topic part) of
        ((producer_id, producer_epoch), (base_sequence, last_offset_delta), (base_offset, last_timestamp), (s, st')) \<Rightarrow>
          put_partition st' topic part
            (bt_insert s producer_id (committed_entry producer_epoch base_sequence last_offset_delta base_offset last_timestamp now)))"

definition truncate :: "producer_state \<Rightarrow> string \<Rightarrow> int \<Rightarrow> int \<Rightarrow> producer_state" where
  "truncate st topic part offset =
     (case map_of st topic of
        None \<Rightarrow> st
      | Some parts \<Rightarrow>
          (case bt_get parts part of
             None \<Rightarrow> st
           | Some s \<Rightarrow> put_partition st topic part (bt_retain (\<lambda>_ e. pe_last_offset e < offset) s)))"

definition snapshot :: "producer_state \<Rightarrow> string \<Rightarrow> int \<Rightarrow> (int \<times> producer_entry) list" where
  "snapshot st topic part =
     (case map_of st topic of
        None \<Rightarrow> []
      | Some parts \<Rightarrow> (case bt_get parts part of None \<Rightarrow> [] | Some s \<Rightarrow> s))"

definition active_snapshot :: "producer_state \<Rightarrow> string \<Rightarrow> int \<Rightarrow> int \<Rightarrow> int \<Rightarrow> (int, int) btree_map" where
  "active_snapshot st topic part now_ms expiration_ms =
     map (\<lambda>(pid, e). (pid, pe_base_offset e))
       (filter (\<lambda>(_, e). i64_saturating_sub now_ms (pe_last_activity_ms e) \<le> expiration_ms) (snapshot st topic part))"

text \<open>Expiry: idle entries, then partitions and topics that have become empty; the count is of entries.\<close>

definition expire_entries :: "int \<Rightarrow> int \<Rightarrow> partition_producer_state \<Rightarrow> partition_producer_state" where
  "expire_entries now_ms ttl_ms s = bt_retain (\<lambda>_ e. i64_saturating_sub now_ms (pe_last_activity_ms e) < ttl_ms) s"

definition expire_partitions :: "int \<Rightarrow> int \<Rightarrow> partition_map \<Rightarrow> nat \<times> partition_map" where
  "expire_partitions now_ms ttl_ms parts =
     (sum_list (map (\<lambda>(_, s). length s - length (expire_entries now_ms ttl_ms s)) parts),
      filter (\<lambda>(_, s). s \<noteq> []) (map (\<lambda>(p, s). (p, expire_entries now_ms ttl_ms s)) parts))"

definition expire_older_than :: "producer_state \<Rightarrow> int \<Rightarrow> int \<Rightarrow> nat \<times> producer_state" where
  "expire_older_than st now_ms ttl_ms =
     (sum_list (map (\<lambda>(_, parts). fst (expire_partitions now_ms ttl_ms parts)) st),
      filter (\<lambda>(_, parts). parts \<noteq> []) (map (\<lambda>(t, parts). (t, snd (expire_partitions now_ms ttl_ms parts))) st))"

section \<open>Rebuilding from the log\<close>

definition entry_of_snapshot :: "int \<Rightarrow> producer_snapshot_entry \<Rightarrow> producer_entry" where
  "entry_of_snapshot recovered_at e =
     \<lparr>pe_epoch = ps_producer_epoch e, pe_last_sequence = ps_last_sequence e, pe_last_offset = ps_last_offset e,
      pe_base_offset = (if 0 \<le> ps_last_offset e then i64_wrapping_sub (ps_last_offset e) (ps_offset_delta e) else - 1),
      pe_last_timestamp = ps_timestamp e, pe_last_activity_ms = recovered_at\<rparr>"

definition entries_from_snapshot :: "int \<Rightarrow> producer_snapshot_entry list \<Rightarrow> partition_producer_state" where
  "entries_from_snapshot recovered_at snap = bt_collect (map (\<lambda>e. (ps_producer_id e, entry_of_snapshot recovered_at e)) snap)"

definition producer_state_snapshot :: "partition_log \<Rightarrow> producer_snapshot_entry list" where
  "producer_state_snapshot l = map snd (lg_producer_state l)"

definition rebuild_from_snapshot :: "producer_state \<Rightarrow> string \<Rightarrow> int \<Rightarrow> producer_snapshot_entry list \<Rightarrow> int \<Rightarrow> producer_state" where
  "rebuild_from_snapshot st topic part snap now =
     put_partition (snd (handle st topic part)) topic part (entries_from_snapshot now snap)"

definition rebuild_from_log :: "producer_state \<Rightarrow> string \<Rightarrow> int \<Rightarrow> partition_log \<Rightarrow> int \<Rightarrow> producer_state" where
  "rebuild_from_log st topic part l now = rebuild_from_snapshot st topic part (producer_state_snapshot l) now"

definition install_snapshot_before_materialization ::
  "producer_state \<Rightarrow> string \<Rightarrow> int \<Rightarrow> producer_snapshot_entry list \<Rightarrow> int \<Rightarrow> producer_state" where
  "install_snapshot_before_materialization st topic part snap now =
     put_partition st topic part (entries_from_snapshot now snap)"

section \<open>Well-formed trackers and lookups\<close>

text \<open>Every map has each key once.\<close>

definition parts_wf :: "partition_map \<Rightarrow> bool" where
  "parts_wf parts \<longleftrightarrow> bt_wf parts \<and> list_all (\<lambda>(_, s). bt_wf s) parts"

definition st_wf :: "producer_state \<Rightarrow> bool" where
  "st_wf st \<longleftrightarrow> distinct (map fst st) \<and> list_all (\<lambda>(_, parts). parts_wf parts) st"

definition tracked :: "producer_state \<Rightarrow> string \<Rightarrow> int \<Rightarrow> int \<Rightarrow> producer_entry option" where
  "tracked st topic part pid = Option.bind (Option.bind (map_of st topic) (\<lambda>parts. bt_get parts part)) (\<lambda>s. bt_get s pid)"

lemma parts_wf_insert: "parts_wf parts \<Longrightarrow> bt_wf s \<Longrightarrow> parts_wf (bt_insert parts p s)"
  by (auto simp: parts_wf_def list_all_iff dest!: bt_insert_setD)

lemma parts_wf_get: "parts_wf parts \<Longrightarrow> bt_get parts p = Some s \<Longrightarrow> bt_wf s"
  by (auto simp: parts_wf_def list_all_iff bt_get_def dest!: map_of_SomeD)

lemma topic_parts_wf: "st_wf st \<Longrightarrow> parts_wf (topic_parts st topic)"
  by (auto simp: topic_parts_def st_wf_def list_all_iff parts_wf_def split: option.splits dest!: map_of_SomeD)

lemma set_update: "x \<in> set (AList.update k v al) \<Longrightarrow> x = (k, v) \<or> x \<in> set al"
  by (induction al) (auto split: if_splits)

lemma st_wf_update: "st_wf st \<Longrightarrow> parts_wf parts \<Longrightarrow> st_wf (AList.update topic parts st)"
  by (auto simp: st_wf_def list_all_iff distinct_update dest!: set_update)

lemma put_partition_wf: "st_wf st \<Longrightarrow> bt_wf s \<Longrightarrow> st_wf (put_partition st topic part s)"
  unfolding put_partition_def by (intro st_wf_update parts_wf_insert topic_parts_wf)

lemma handle_wf:
  assumes "st_wf st" and "handle st topic part = (s, st')"
  shows "bt_wf s" and "st_wf st'"
proof -
  have parts: "parts_wf (bt_or_insert (topic_parts st topic) part [])"
    using topic_parts_wf [OF assms(1), of topic] by (auto simp: bt_or_insert_def parts_wf_insert split: option.splits)
  then show "bt_wf s" "st_wf st'"
    using assms parts_wf_get [OF parts, of part] st_wf_update [OF assms(1) parts] by (auto simp: handle_def Let_def split: option.splits)
qed

lemma map_of_update: "map_of (AList.update k v al) k' = (if k' = k then Some v else map_of al k')"
  by (simp add: update_conv)

lemma tracked_put:
  assumes "st_wf st"
  shows "tracked (put_partition st topic part s) t p pid = (if t = topic \<and> p = part then bt_get s pid else tracked st t p pid)"
  using topic_parts_wf [OF assms, of topic]
  by (auto simp: tracked_def put_partition_def map_of_update topic_parts_def parts_wf_def split: option.splits)

lemma handle_entries:
  assumes "st_wf st" and "handle st topic part = (s, st')"
  shows "bt_get s pid = tracked st topic part pid" and "tracked st' t p pid' = tracked st t p pid'"
proof -
  have wf: "bt_wf (topic_parts st topic)" using topic_parts_wf [OF assms(1)] by (simp add: parts_wf_def)
  show "bt_get s pid = tracked st topic part pid"
    using assms(2) wf by (auto simp: handle_def tracked_def topic_parts_def Let_def split: option.splits if_splits)
  show "tracked st' t p pid' = tracked st t p pid'"
    using assms(2) wf by (auto simp: handle_def tracked_def topic_parts_def map_of_update Let_def split: option.splits)
qed

lemma check_tracked: "st_wf st \<Longrightarrow> fst (check st topic part pid e bs d) = check_pure (tracked st topic part pid) e bs d"
  by (simp add: check_def handle_entries(1) split: prod.splits)

lemma tracked_commit:
  assumes "st_wf st"
  shows "tracked (commit st topic part (pid, e) (bs, d) (bo, ts) now) t p q =
    (if t = topic \<and> p = part \<and> q = pid then Some (committed_entry e bs d bo ts now) else tracked st t p q)"
proof -
  obtain s st' where h: "handle st topic part = (s, st')" by (cases "handle st topic part")
  show ?thesis using handle_wf [OF assms h] handle_entries [OF assms h] by (simp add: commit_def h tracked_put)
qed

lemma tracked_truncate:
  assumes "st_wf st"
  shows "tracked (truncate st topic part off) t p q =
    (case tracked st t p q of None \<Rightarrow> None | Some e \<Rightarrow> if t = topic \<and> p = part \<and> off \<le> pe_last_offset e then None else Some e)"
proof -
  have wf: "bt_wf s" if "map_of st topic = Some parts" "bt_get parts part = Some s" for parts s
    using topic_parts_wf [OF assms, of topic] parts_wf_get that by (simp add: topic_parts_def)
  show ?thesis
  proof (cases "Option.bind (map_of st topic) (\<lambda>parts. bt_get parts part)")
    case None
    then have "truncate st topic part off = st" "tracked st topic part q = None"
      by (auto simp: truncate_def tracked_def split: option.splits)
    then show ?thesis by (auto split: option.splits)
  next
    case (Some s)
    then obtain parts where s: "map_of st topic = Some parts" "bt_get parts part = Some s" by (auto split: Option.bind_splits)
    have "tracked st topic part q = bt_get s q" using s by (simp add: tracked_def)
    then show ?thesis using s wf [OF s]
      by (auto simp: truncate_def tracked_put [OF assms] bt_get_retain not_le split: option.splits)
  qed
qed

lemma commit_wf:
  assumes "st_wf st"
  shows "st_wf (commit st topic part producer sequence' append' now)"
proof -
  obtain s st' where h: "handle st topic part = (s, st')" by (cases "handle st topic part")
  show ?thesis using handle_wf [OF assms h] by (simp add: commit_def h put_partition_wf split: prod.splits)
qed

lemma truncate_wf:
  assumes "st_wf st"
  shows "st_wf (truncate st topic part off)"
proof -
  have "bt_wf s" if "map_of st topic = Some parts" "bt_get parts part = Some s" for parts s
    using topic_parts_wf [OF assms, of topic] parts_wf_get that by (simp add: topic_parts_def)
  then show ?thesis using assms by (auto simp: truncate_def put_partition_wf split: option.splits)
qed

lemma expire_partitions_wf: "parts_wf parts \<Longrightarrow> parts_wf (snd (expire_partitions now ttl parts))"
  by (auto simp: parts_wf_def expire_partitions_def expire_entries_def list_all_iff bt_wf_def split_def comp_def
      intro!: sorted_wrt_filter_fst bt_wf_retain [unfolded bt_wf_def])

lemma expire_wf:
  assumes "st_wf st"
  shows "st_wf (snd (expire_older_than st now ttl))"
proof -
  have "distinct (map fst (filter p (map (\<lambda>(t, parts). (t, f parts)) st)))" for p and f :: "partition_map \<Rightarrow> partition_map"
    using assms by (auto simp: st_wf_def distinct_map inj_on_def split_def)
  then show ?thesis using assms expire_partitions_wf by (fastforce simp: st_wf_def expire_older_than_def list_all_iff)
qed

text \<open>Expiry entry by entry, and what it counts.\<close>

lemma map_of_filter_map:
  assumes "distinct (map fst xs)"
  shows "map_of (filter (\<lambda>(_, v). P v) (map (\<lambda>(k, v). (k, f v)) xs)) k =
    Option.bind (map_of xs k) (\<lambda>v. if P (f v) then Some (f v) else None)"
  using assms by (induction xs) (auto simp: image_iff split: Option.bind_splits dest: map_of_SomeD)

lemma bt_wf_distinct: "bt_wf m \<Longrightarrow> distinct (map fst m)"
  unfolding bt_wf_def by (auto simp: distinct_map strict_sorted_iff)

lemma tracked_expire:
  assumes "st_wf st"
  shows "tracked (snd (expire_older_than st now ttl)) t p q =
    (case tracked st t p q of None \<Rightarrow> None
     | Some e \<Rightarrow> if i64_saturating_sub now (pe_last_activity_ms e) < ttl then Some e else None)"
proof (cases "map_of st t")
  case None
  then show ?thesis using assms by (simp add: tracked_def expire_older_than_def map_of_filter_map st_wf_def)
next
  case (Some parts)
  have wf: "parts_wf parts" using topic_parts_wf [OF assms, of t] Some by (simp add: topic_parts_def)
  then have get: "bt_get (snd (expire_partitions now ttl parts)) p =
      Option.bind (bt_get parts p) (\<lambda>s. if expire_entries now ttl s \<noteq> [] then Some (expire_entries now ttl s) else None)"
    by (simp add: expire_partitions_def bt_get_def map_of_filter_map bt_wf_distinct parts_wf_def)
  have "tracked (snd (expire_older_than st now ttl)) t p q = Option.bind (bt_get (snd (expire_partitions now ttl parts)) p) (\<lambda>s. bt_get s q)"
    using assms Some by (auto simp: tracked_def expire_older_than_def map_of_filter_map st_wf_def bt_get_def)
  moreover have "\<dots> = Option.bind (bt_get parts p) (\<lambda>s. bt_get (expire_entries now ttl s) q)"
    unfolding get by (cases "bt_get parts p") (simp_all add: bt_get_def)
  ultimately show ?thesis using Some parts_wf_get [OF wf]
    by (cases "bt_get parts p") (auto simp: tracked_def expire_entries_def bt_get_retain split: option.splits)
qed

definition tracker_size :: "producer_state \<Rightarrow> nat" where
  "tracker_size st = sum_list (map (\<lambda>(_, parts). sum_list (map (\<lambda>(_, s). length s) parts)) st)"

lemma expire_partitions_count:
  "fst (expire_partitions now ttl parts) + sum_list (map (\<lambda>(_, s). length s) (snd (expire_partitions now ttl parts)))
     = sum_list (map (\<lambda>(_, s). length s) parts)"
proof (induction parts)
  case (Cons x parts)
  obtain p s where x: "x = (p, s)" by (cases x)
  have "length (expire_entries now ttl s) \<le> length s" by (simp add: expire_entries_def bt_retain_def)
  then show ?case using Cons by (auto simp: x expire_partitions_def)
qed (simp add: expire_partitions_def)

lemma expire_count: "fst (expire_older_than st now ttl) + tracker_size (snd (expire_older_than st now ttl)) = tracker_size st"
proof (induction st)
  case (Cons x st)
  obtain t parts where x: "x = (t, parts)" by (cases x)
  show ?case using Cons expire_partitions_count [of now ttl parts]
    by (cases "snd (expire_partitions now ttl parts) = []") (auto simp: x expire_older_than_def tracker_size_def)
qed (simp add: expire_older_than_def tracker_size_def)

lemma expire_nonempty:
  "list_all (\<lambda>(_, parts). parts \<noteq> [] \<and> list_all (\<lambda>(_, s). s \<noteq> []) parts) (snd (expire_older_than st now ttl))"
  by (auto simp: expire_older_than_def expire_partitions_def list_all_iff)

lemma bt_collect_wf: "bt_wf (bt_collect kvs)"
proof -
  have "bt_wf m \<Longrightarrow> bt_wf (fold (\<lambda>(k, v) m. bt_insert m k v) kvs m)" for m
    by (induction kvs arbitrary: m) (auto split: prod.splits)
  then show ?thesis by (simp add: bt_collect_def)
qed

lemma check_wf: "st_wf st \<Longrightarrow> st_wf (snd (check st topic part pid e bs d))"
  by (simp add: check_def handle_wf(2) split: prod.splits)

lemma rebuild_wf: "st_wf st \<Longrightarrow> st_wf (rebuild_from_snapshot st topic part snap now)"
  using handle_wf(2) [of st topic part] by (cases "handle st topic part") (simp add: rebuild_from_snapshot_def put_partition_wf entries_from_snapshot_def bt_collect_wf)

lemma install_wf: "st_wf st \<Longrightarrow> st_wf (install_snapshot_before_materialization st topic part snap now)"
  by (simp add: install_snapshot_before_materialization_def put_partition_wf entries_from_snapshot_def bt_collect_wf)

section \<open>Decisions\<close>

text \<open>Sequence numbers count modulo 2 to the 31; a delta below that is determined by its ends.\<close>

lemma mod_delta_unique:
  fixes a :: int
  assumes "(a + d) mod 2 ^ 31 = (a + d') mod 2 ^ 31" and "0 \<le> d" "d < 2 ^ 31" "0 \<le> d'" "d' < 2 ^ 31"
  shows "d = d'"
proof -
  have "(a + d - a) mod 2 ^ 31 = (a + d' - a) mod 2 ^ 31" using assms(1) by (metis mod_diff_left_eq)
  then show ?thesis using assms(2-5) by simp
qed

lemma matches_committed:
  assumes "0 \<le> bs" "bs < 2 ^ 31" "0 \<le> d" "d < 2 ^ 31" "0 \<le> d'" "d' < 2 ^ 31" "i64_ok bo" "i64_ok (bo + d)"
  shows "matches_last_batch (committed_entry e bs d bo ts now) bs' d' \<longleftrightarrow> bs' = bs \<and> d' = d"
proof -
  have "(((bs + d) mod 2 ^ 31) - d) mod 2 ^ 31 = bs" using assms(1,2) by (simp add: mod_diff_left_eq)
  moreover have "(bs + d') mod 2 ^ 31 = (bs + d) mod 2 ^ 31 \<longleftrightarrow> d' = d" using mod_delta_unique [of bs d' d] assms(3-6) by blast
  ultimately show ?thesis using assms
    by (auto simp: matches_last_batch_def committed_entry_def i64_wrapping_add_ok i64_checked_sub_def i32_try_from_def
        increment_sequence_mod decrement_sequence_mod int_width)
qed

lemma committed_fields: "pe_epoch (committed_entry e bs d bo ts now) = e" "pe_base_offset (committed_entry e bs d bo ts now) = bo"
  "pe_last_sequence (committed_entry e bs d bo ts now) = increment_sequence bs d"
  by (simp_all add: committed_entry_def)

lemma check_committed:
  assumes "0 \<le> bs" "bs < 2 ^ 31" "0 \<le> d" "d < 2 ^ 31" "0 \<le> d'" "d' < 2 ^ 31" "i64_ok bo" "i64_ok (bo + d)"
  shows "check_pure (Some (committed_entry e bs d bo ts now)) e' bs' d' =
    (if e' < e then Fenced else if e < e' then Append else if bs' = (bs + d + 1) mod 2 ^ 31 then Append
     else if bs' = bs \<and> d' = d then Duplicate bo else OutOfOrder)"
  using matches_committed [OF assms, of e ts now bs'] by (simp add: check_pure_def committed_fields increment_sequence_mod mod_add_left_eq)

section \<open>The tracker after a restart\<close>

text \<open>Decisions do not depend on the time of the last activity.\<close>

lemma check_activity:
  fixes x :: producer_entry
  shows "check_pure (Some (x\<lparr>pe_last_activity_ms := t\<rparr>)) e bs d = check_pure (Some x) e bs d"
  by (simp add: check_pure_def matches_last_batch_def cong: option.case_cong)

lemma get_collect:
  assumes "distinct (map fst kvs)"
  shows "bt_get (bt_collect kvs) k = map_of kvs k"
proof -
  have "bt_get (fold (\<lambda>(k, v) m. bt_insert m k v) kvs m) k = (case map_of kvs k of Some v \<Rightarrow> Some v | None \<Rightarrow> bt_get m k)" if "bt_wf m" for m
    using assms that
  proof (induction kvs arbitrary: m)
    case (Cons kv kvs)
    then show ?case by (cases kv) (force split: option.splits simp: map_of_eq_None_iff image_iff)
  qed simp
  from this [of "[]"] show ?thesis by (simp add: bt_collect_def split: option.splits)
qed

definition producers_ok :: "snapshot_state \<Rightarrow> bool" where
  "producers_ok m \<longleftrightarrow> bt_wf m \<and> list_all (\<lambda>(k, e). ps_producer_id e = k) m"

lemma entries_lookup:
  assumes "producers_ok (lg_producer_state l)"
  shows "bt_get (entries_from_snapshot now (producer_state_snapshot l)) pid = map_option (entry_of_snapshot now) (bt_get (lg_producer_state l) pid)"
proof -
  let ?m = "lg_producer_state l"
  have kvs: "map (\<lambda>e. (ps_producer_id e, entry_of_snapshot now e)) (map snd ?m) = map (\<lambda>(k, e). (k, entry_of_snapshot now e)) ?m"
    using assms by (auto simp: producers_ok_def list_all_iff)
  have "sorted_wrt (<) (map fst ?m)" using assms by (simp add: producers_ok_def bt_wf_def)
  then have "distinct (map fst ?m)" using strict_sorted_iff by blast
  then have "distinct (map fst (map (\<lambda>(k, e). (k, entry_of_snapshot now e)) ?m))" by (simp add: split_def comp_def)
  from get_collect [OF this] show ?thesis
    unfolding entries_from_snapshot_def producer_state_snapshot_def kvs by (simp add: bt_get_def map_of_map)
qed

text \<open>What the log records of a data batch of a producer, seen through the broker's tracker.\<close>

lemma logged_entry:
  assumes "update_data_producer_entry pid e bs d bo ts tr l = Some (Inr (), l')" and "producers_ok (lg_producer_state l)"
    and "0 \<le> pid" and "0 \<le> bs" and "0 \<le> bo" and "0 \<le> d" and "bo + d \<le> i64_MAX"
  shows "bt_get (entries_from_snapshot now (producer_state_snapshot l')) pid = Some (committed_entry e bs d bo ts now)"
    and "producers_ok (lg_producer_state l')"
proof -
  have ok: "i64_ok (bo + d)" "i64_ok bo" using assms(5-7) by (simp_all add: int_width)
  have owner: "ps_producer_id (entry_or_empty l pid e) = pid"
    using assms(2) by (auto simp: entry_or_empty_def ps_empty_def producers_ok_def bt_get_def list_all_iff split: option.splits dest!: map_of_SomeD)
  obtain x where l': "lg_producer_state l' = bt_insert (lg_producer_state l) pid x"
    and x: "ps_producer_id x = pid" "ps_producer_epoch x = e" "ps_last_sequence x = increment_sequence bs d" "ps_last_offset x = bo + d"
      "ps_offset_delta x = d" "ps_timestamp x = ts"
    using assms(1,3,4,6) ok owner by (auto simp: update_data_producer_entry_def data_producer_tail_def i64_checked_add_def Let_def)
  show wf: "producers_ok (lg_producer_state l')"
    using assms(2) x(1) by (auto simp: l' producers_ok_def list_all_iff dest!: bt_insert_setD)
  have "bt_get (lg_producer_state l') pid = Some x" using assms(2) by (simp add: l' producers_ok_def)
  then show "bt_get (entries_from_snapshot now (producer_state_snapshot l')) pid = Some (committed_entry e bs d bo ts now)"
    using entries_lookup [OF wf, of now pid] x ok assms(5,6)
    by (simp add: entry_of_snapshot_def committed_entry_def i64_wrapping_add_ok i64_wrapping_sub_ok)
qed

section \<open>Properties\<close>

text \<open>
  C13. A restart keeps idempotence: the tracker that is rebuilt from the log after a batch was appended takes the
  same decision for that producer as the tracker that had committed the batch in memory, for every
  epoch, sequence and length of the next batch.
\<close>

theorem restart_keeps_dedup:
  assumes "update_data_producer_entry pid e bs d bo ts tr l = Some (Inr (), l')" and "producers_ok (lg_producer_state l)"
    and "st_wf st" and "st_wf st2" and "0 \<le> pid" and "0 \<le> bs" and "0 \<le> bo" and "0 \<le> d" and "bo + d \<le> i64_MAX"
  shows "fst (check (rebuild_from_log st topic part l' now) topic part pid e' bs' d') =
    fst (check (commit st2 topic part (pid, e) (bs, d) (bo, ts) now2) topic part pid e' bs' d')"
proof -
  have "tracked (rebuild_from_log st topic part l' now) topic part pid = Some (committed_entry e bs d bo ts now)"
    using logged_entry(1) [OF assms(1,2,5-9)] handle_wf(2) [OF assms(3), of topic part]
    by (cases "handle st topic part") (simp add: rebuild_from_log_def rebuild_from_snapshot_def tracked_put)
  then show ?thesis
    using check_activity [of now "committed_entry e bs d bo ts now2" e' bs' d', THEN sym]
    by (simp add: check_tracked rebuild_from_log_def rebuild_wf commit_wf assms(3,4) tracked_commit) (simp add: committed_entry_def)
qed


theorem restart_keeps_dedup_witness:
  "\<exists>l'. update_data_producer_entry 7 1 5 2 100 0 False (log_at [] [0]) = Some (Inr (), l')
     \<and> fst (check (rebuild_from_log [] ''t'' 0 l' 9) ''t'' 0 7 1 5 2) = Duplicate 100"
proof -
  obtain l' where l': "update_data_producer_entry 7 1 5 2 100 0 False (log_at [] [0]) = Some (Inr (), l')"
    by (simp add: update_data_producer_entry_def data_producer_tail_def i64_checked_add_def int_width Let_def)
  have wf: "producers_ok (lg_producer_state (log_at [] [0]))" "st_wf []" by (simp_all add: log_at_def producers_ok_def st_wf_def)
  have "fst (check (commit [] ''t'' 0 (7, 1) (5, 2) (100, 0) 3) ''t'' 0 7 1 5 2) = Duplicate 100"
    using check_committed [of 5 2 2 100 1 0 3 1 5] wf(2) by (simp add: check_tracked commit_wf tracked_commit int_width)
  then show ?thesis
    using l' restart_keeps_dedup [OF l' wf(1) wf(2) wf(2), of "''t''" 0 9 1 5 2 3] by (simp add: int_width)
qed

text \<open>
  C8. Idempotent produce is exact. After a batch of a producer has been committed, on any tracker, the
  next decision for that producer and partition is: fenced for an older epoch; append for a newer epoch or
  for the sequence that follows, modulo 2 to the 31; a duplicate, answered with the offset of the committed
  batch, precisely for a retry with the same first sequence and length; out of order for everything else. The
  decisions for every other producer, partition and topic are unchanged.
\<close>

theorem dedup_exact:
  assumes "st_wf st" and "0 \<le> bs" "bs < 2 ^ 31" "0 \<le> d" "d < 2 ^ 31" "0 \<le> d'" "d' < 2 ^ 31" "i64_ok bo" "i64_ok (bo + d)"
  shows "fst (check (commit st topic part (pid, e) (bs, d) (bo, ts) now) t p q e' bs' d') =
    (if t = topic \<and> p = part \<and> q = pid
     then if e' < e then Fenced else if e < e' then Append else if bs' = (bs + d + 1) mod 2 ^ 31 then Append
          else if bs' = bs \<and> d' = d then Duplicate bo else OutOfOrder
     else fst (check st t p q e' bs' d'))"
  using check_committed [OF assms(2-9)] by (simp add: check_tracked commit_wf assms(1) tracked_commit)

theorem dedup_exact_witness:
  "fst (check (commit [] ''t'' 0 (7, 1) (2147483646, 3) (100, 0) 5) ''t'' 0 7 1 2147483646 3) = Duplicate 100
   \<and> fst (check (commit [] ''t'' 0 (7, 1) (2147483646, 3) (100, 0) 5) ''t'' 0 7 1 2 0) = Append"
  using dedup_exact [of "[]" 2147483646 3 3 100 "''t''" 0 7 1 0 5 "''t''" 0 7 1 2147483646]
    dedup_exact [of "[]" 2147483646 3 0 100 "''t''" 0 7 1 0 5 "''t''" 0 7 1 2]
  by (simp add: st_wf_def int_width)



end
