(* ===== verification/Share_Partition.thy ===== *)
theory Share_Partition
  imports Prelude
begin

text \<open>
  The acquisition state machine of a share partition (KIP-932, \<open>broker/src/share_partition/state.rs\<close>):
  which member holds which offsets of the live window. The code keeps runs of offsets with equal
  state and splits and merges them; \<open>lookup\<close> reads such a list of runs as a map from offsets to cells,
  and every operation is shown to act on that map offset by offset. An \<open>Offset\<close> and an \<open>Instant\<close> are
  integers; offsets of the window stay below \<open>i64::MAX\<close>, so that adding one to them does not overflow. The
  one after the last offset of a range that a caller names is an integer too: for \<open>i64::MAX\<close> it lies above every
  window, where the wrapped sum of the release build lies below, and neither splits a run.
\<close>

section \<open>State\<close>

definition clamp_i32 :: "int \<Rightarrow> int" where
  "clamp_i32 n = (if i32_ok n then n else i32_MAX)"

text \<open>The unchecked \<open>i32\<close> and \<open>i64\<close> arithmetic of the release build, and the saturating one.\<close>

definition i32_wrapping_add :: "int \<Rightarrow> int \<Rightarrow> int" where
  "i32_wrapping_add a b = sint (word_of_int (a + b) :: 32 word)"

definition i64_wrap :: "int \<Rightarrow> int" where
  "i64_wrap n = sint (word_of_int n :: 64 word)"

definition i32_saturating_add :: "int \<Rightarrow> int \<Rightarrow> int" where
  "i32_saturating_add a b = max i32_MIN (min i32_MAX (a + b))"

datatype record_state = Available | Acquired | Acknowledged | Archived

datatype ack_type = Gap | Accept | Release | Reject

definition ack_from_i8 :: "int \<Rightarrow> ack_type option" where
  "ack_from_i8 v = (if v = 0 then Some Gap else if v = 1 then Some Accept else if v = 2 then Some Release
     else if v = 3 then Some Reject else None)"

record acquired_range =
  ar_first :: int
  ar_last :: int
  ar_delivery_count :: int

record in_flight_batch =
  ib_first :: int
  ib_last :: int
  ib_state :: record_state
  ib_delivery_count :: int
  ib_acquired_by :: "string option"
  ib_lock_deadline :: "int option"

record acquisition_state =
  sp_start :: int
  sp_end :: int
  sp_state_epoch :: int
  sp_leader_epoch :: int
  sp_dirty :: bool
  sp_complete :: int
  sp_batches :: "in_flight_batch list"

record state_batch =
  sb_first :: int
  sb_last :: int
  sb_delivery_state :: int
  sb_delivery_count :: int

definition batch_len :: "in_flight_batch \<Rightarrow> int" where
  "batch_len b = ib_last b - ib_first b + 1"

definition terminal :: "record_state \<Rightarrow> bool" where
  "terminal st \<longleftrightarrow> st = Acknowledged \<or> st = Archived"

definition share_new :: "int \<Rightarrow> acquisition_state" where
  "share_new start_offset = \<lparr>sp_start = start_offset, sp_end = start_offset, sp_state_epoch = 0,
     sp_leader_epoch = 0, sp_dirty = False, sp_complete = 0, sp_batches = []\<rparr>"

section \<open>Splitting and merging runs\<close>

definition split_batch :: "int \<Rightarrow> in_flight_batch \<Rightarrow> in_flight_batch list" where
  "split_batch split b =
     (if split \<le> ib_first b \<or> split > ib_last b then [b]
      else [b\<lparr>ib_last := split - 1\<rparr>, b\<lparr>ib_first := split\<rparr>])"

text \<open>\<open>position\<close> finds the first run with the offset in its interior; only that run is split.\<close>

fun split_at_offset :: "int \<Rightarrow> in_flight_batch list \<Rightarrow> in_flight_batch list" where
  "split_at_offset off [] = []"
| "split_at_offset off (b # bs) =
     (if ib_first b + 1 \<le> i64_MAX \<and> ib_first b + 1 \<le> off \<and> off \<le> ib_last b
      then split_batch off b @ bs else b # split_at_offset off bs)"

definition mergeable :: "in_flight_batch \<Rightarrow> in_flight_batch \<Rightarrow> bool" where
  "mergeable a b \<longleftrightarrow> ib_last a + 1 = ib_first b \<and> ib_state a = ib_state b
     \<and> ib_delivery_count a = ib_delivery_count b \<and> ib_acquired_by a = ib_acquired_by b
     \<and> ib_lock_deadline a = ib_lock_deadline b"

fun coalesce :: "in_flight_batch list \<Rightarrow> in_flight_batch list" where
  "coalesce [] = []"
| "coalesce [a] = [a]"
| "coalesce (a # b # bs) =
     (if mergeable a b then coalesce (a\<lparr>ib_last := ib_last b\<rparr> # bs) else a # coalesce (b # bs))"

fun drop_terminal :: "int \<Rightarrow> in_flight_batch list \<Rightarrow> int \<times> in_flight_batch list" where
  "drop_terminal start [] = (start, [])"
| "drop_terminal start (b # bs) =
     (if ib_first b = start \<and> terminal (ib_state b) then drop_terminal (ib_last b + 1) bs else (start, b # bs))"

definition advance_spso :: "acquisition_state \<Rightarrow> acquisition_state" where
  "advance_spso s =
     (let (start, bs) = drop_terminal (sp_start s) (sp_batches s)
      in s\<lparr>sp_start := start, sp_end := (if sp_end s < start then start else sp_end s), sp_batches := coalesce bs\<rparr>)"

section \<open>Operations\<close>

definition materialize :: "acquisition_state \<Rightarrow> int \<Rightarrow> int \<Rightarrow> acquisition_state" where
  "materialize s hwm max_inflight =
     (let has_available = list_ex (\<lambda>b. ib_state b = Available) (sp_batches s) in
      if has_available \<or> sp_end s \<ge> hwm then s
      else let last_off = min (hwm - 1) (i64_wrap (sp_end s + max max_inflight 1 - 1)) in
        if last_off < sp_end s then s
        else s\<lparr>sp_batches := coalesce (sp_batches s @ [\<lparr>ib_first = sp_end s, ib_last = last_off, ib_state = Available,
                 ib_delivery_count = 0, ib_acquired_by = None, ib_lock_deadline = None\<rparr>]),
               sp_end := last_off + 1\<rparr>)"

definition free_as :: "record_state \<Rightarrow> in_flight_batch \<Rightarrow> in_flight_batch" where
  "free_as st b = b\<lparr>ib_state := st, ib_acquired_by := None, ib_lock_deadline := None\<rparr>"

fun archive_loop :: "int \<Rightarrow> int \<Rightarrow> int \<Rightarrow> bool \<Rightarrow> in_flight_batch list \<Rightarrow> in_flight_batch list \<times> int \<times> bool" where
  "archive_loop first_off last_off complete changed [] = ([], complete, changed)"
| "archive_loop first_off last_off complete changed (b # bs) =
     (if ib_last b < first_off \<or> ib_first b > last_off \<or> terminal (ib_state b)
      then let (bs', c, ch) = archive_loop first_off last_off complete changed bs in (b # bs', c, ch)
      else let (bs', c, ch) = archive_loop first_off last_off (i32_saturating_add complete (clamp_i32 (batch_len b))) True bs
           in (free_as Archived b # bs', c, ch))"

definition archive_internal :: "acquisition_state \<Rightarrow> int \<Rightarrow> int \<Rightarrow> acquisition_state" where
  "archive_internal s first_off last_off =
     (if first_off > last_off then s
      else let bs = split_at_offset (last_off + 1) (split_at_offset first_off (sp_batches s));
               (bs', complete, changed) = archive_loop first_off last_off (sp_complete s) False bs;
               s' = s\<lparr>sp_batches := bs', sp_complete := complete\<rparr>
           in if changed then advance_spso (s'\<lparr>sp_dirty := True\<rparr>) else s')"

definition acquire_batch :: "string \<Rightarrow> int \<Rightarrow> in_flight_batch \<Rightarrow> in_flight_batch" where
  "acquire_batch member deadline b = b\<lparr>ib_state := Acquired, ib_delivery_count := ib_delivery_count b + 1,
     ib_acquired_by := Some member, ib_lock_deadline := Some deadline\<rparr>"

definition range_of :: "in_flight_batch \<Rightarrow> acquired_range" where
  "range_of b = \<lparr>ar_first = ib_first b, ar_last = ib_last b, ar_delivery_count = ib_delivery_count b\<rparr>"

text \<open>
  The walk of \<open>acquire\<close>. It returns the new runs, the acquired ranges, the completion counter and
  whether anything changed. After a split the budget is used up, so the walk ends at the tail.
\<close>

fun acquire_loop :: "string \<Rightarrow> int \<Rightarrow> int \<Rightarrow> int \<Rightarrow> int \<Rightarrow> in_flight_batch list
    \<Rightarrow> in_flight_batch list \<times> acquired_range list \<times> int \<times> bool" where
  "acquire_loop member deadline max_attempts remaining complete [] = ([], [], complete, False)"
| "acquire_loop member deadline max_attempts remaining complete (b # bs) =
     (if remaining = 0 then (b # bs, [], complete, False)
      else if ib_state b \<noteq> Available then
        let (bs', acq, c, ch) = acquire_loop member deadline max_attempts remaining complete bs in (b # bs', acq, c, ch)
      else if ib_delivery_count b \<ge> max_attempts then
        let (bs', acq, c, ch) = acquire_loop member deadline max_attempts remaining
              (i32_wrapping_add complete (clamp_i32 (batch_len b))) bs
        in (free_as Archived b # bs', acq, c, True)
      else if batch_len b > remaining then
        let head = acquire_batch member deadline (b\<lparr>ib_last := ib_first b + remaining - 1\<rparr>)
        in (head # b\<lparr>ib_first := ib_first b + remaining\<rparr> # bs, [range_of head], complete, True)
      else
        let head = acquire_batch member deadline b;
            (bs', acq, c, ch) = acquire_loop member deadline max_attempts (remaining - batch_len b) complete bs
        in (head # bs', range_of head # acq, c, True))"

definition acquire :: "acquisition_state \<Rightarrow> string \<Rightarrow> int \<Rightarrow> int \<Rightarrow> int \<Rightarrow> int
    \<Rightarrow> acquired_range list \<times> acquisition_state" where
  "acquire s member max_records now lock_dur max_attempts =
     (let (bs, acq, complete, any_change) =
            acquire_loop member (now + lock_dur) max_attempts (max max_records 0) (sp_complete s) (sp_batches s);
          s' = s\<lparr>sp_batches := bs, sp_complete := complete\<rparr>
      in (acq, if any_change then advance_spso (s'\<lparr>sp_dirty := True\<rparr>) else s'))"

fun range_loop :: "string \<Rightarrow> int \<Rightarrow> int \<Rightarrow> int \<Rightarrow> in_flight_batch list \<Rightarrow> bool" where
  "range_loop member first_off last_off cursor [] = (cursor > last_off)"
| "range_loop member first_off last_off cursor (b # bs) =
     (if ib_last b < first_off \<or> ib_first b > last_off then range_loop member first_off last_off cursor bs
      else if ib_first b > cursor then False
      else if ib_state b \<noteq> Acquired \<or> ib_acquired_by b \<noteq> Some member then False
      else if ib_last b + 1 > last_off then True
      else range_loop member first_off last_off (ib_last b + 1) bs)"

definition range_acquired_by :: "acquisition_state \<Rightarrow> string \<Rightarrow> int \<Rightarrow> int \<Rightarrow> bool" where
  "range_acquired_by s member first_off last_off = range_loop member first_off last_off first_off (sp_batches s)"

definition INVALID_RECORD_STATE :: int where
  "INVALID_RECORD_STATE = 121"

fun ack_loop :: "int \<Rightarrow> int \<Rightarrow> ack_type \<Rightarrow> int \<Rightarrow> in_flight_batch list \<Rightarrow> in_flight_batch list \<times> int" where
  "ack_loop first_off last_off ack complete [] = ([], complete)"
| "ack_loop first_off last_off ack complete (b # bs) =
     (if ib_first b < first_off \<or> ib_last b > last_off \<or> ib_state b \<noteq> Acquired
      then let (bs', c) = ack_loop first_off last_off ack complete bs in (b # bs', c)
      else let n = clamp_i32 (batch_len b);
               (b', complete') = (case ack of
                  Accept \<Rightarrow> (free_as Acknowledged b, i32_wrapping_add complete n)
                | Release \<Rightarrow> (free_as Available b, complete)
                | Reject \<Rightarrow> (free_as Archived b, i32_wrapping_add complete n)
                | Gap \<Rightarrow> (free_as Archived b, i32_wrapping_add complete n));
               (bs', c) = ack_loop first_off last_off ack complete' bs
           in (b' # bs', c))"

definition acknowledge :: "acquisition_state \<Rightarrow> string \<Rightarrow> int \<Rightarrow> int \<Rightarrow> ack_type \<Rightarrow> int + acquisition_state" where
  "acknowledge s member first_off last_off ack =
     (if first_off > last_off then Inl INVALID_RECORD_STATE
      else if \<not> range_acquired_by s member first_off last_off then Inl INVALID_RECORD_STATE
      else let bs = split_at_offset (last_off + 1) (split_at_offset first_off (sp_batches s));
               (bs', complete) = ack_loop first_off last_off ack (sp_complete s) bs
           in Inr (advance_spso (s\<lparr>sp_batches := bs', sp_complete := complete, sp_dirty := True\<rparr>)))"

definition renew_batch :: "int \<Rightarrow> int \<Rightarrow> int \<Rightarrow> in_flight_batch \<Rightarrow> in_flight_batch" where
  "renew_batch first_off last_off deadline b =
     (if ib_first b < first_off \<or> ib_last b > last_off \<or> ib_state b \<noteq> Acquired then b else b\<lparr>ib_lock_deadline := Some deadline\<rparr>)"

definition renew :: "acquisition_state \<Rightarrow> string \<Rightarrow> int \<Rightarrow> int \<Rightarrow> int \<Rightarrow> int \<Rightarrow> int + acquisition_state" where
  "renew s member first_off last_off now lock_dur =
     (if first_off > last_off then Inl INVALID_RECORD_STATE
      else if \<not> range_acquired_by s member first_off last_off then Inl INVALID_RECORD_STATE
      else let bs = split_at_offset (last_off + 1) (split_at_offset first_off (sp_batches s))
           in Inr (s\<lparr>sp_batches := map (renew_batch first_off last_off (now + lock_dur)) bs, sp_dirty := True\<rparr>))"

definition lock_expired :: "int \<Rightarrow> in_flight_batch \<Rightarrow> bool" where
  "lock_expired now b \<longleftrightarrow> ib_state b = Acquired \<and> (case ib_lock_deadline b of Some d \<Rightarrow> now \<ge> d | None \<Rightarrow> False)"

definition release_where :: "(in_flight_batch \<Rightarrow> bool) \<Rightarrow> acquisition_state \<Rightarrow> acquisition_state" where
  "release_where P s =
     (let bs = map (\<lambda>b. if P b then free_as Available b else b) (sp_batches s)
      in if list_ex P (sp_batches s) then s\<lparr>sp_batches := coalesce bs, sp_dirty := True\<rparr> else s\<lparr>sp_batches := bs\<rparr>)"

definition expire_locks :: "acquisition_state \<Rightarrow> int \<Rightarrow> acquisition_state" where
  "expire_locks s now = release_where (lock_expired now) s"

definition release_member :: "acquisition_state \<Rightarrow> string \<Rightarrow> acquisition_state" where
  "release_member s member = release_where (\<lambda>b. ib_state b = Acquired \<and> ib_acquired_by b = Some member) s"

definition persist_batch :: "in_flight_batch \<Rightarrow> state_batch" where
  "persist_batch b = \<lparr>sb_first = ib_first b, sb_last = ib_last b,
     sb_delivery_state = (case ib_state b of Available \<Rightarrow> 0 | Acquired \<Rightarrow> 0 | Acknowledged \<Rightarrow> 2 | Archived \<Rightarrow> 4),
     sb_delivery_count = ib_delivery_count b\<rparr>"

definition to_persist_batches :: "acquisition_state \<Rightarrow> int \<times> int \<times> state_batch list" where
  "to_persist_batches s = (sp_start s, sp_complete s, map persist_batch (sp_batches s))"

definition load_batch :: "state_batch \<Rightarrow> in_flight_batch" where
  "load_batch sb = \<lparr>ib_first = sb_first sb, ib_last = sb_last sb,
     ib_state = (if sb_delivery_state sb = 2 then Acknowledged else if sb_delivery_state sb = 4 then Archived else Available),
     ib_delivery_count = sb_delivery_count sb, ib_acquired_by = None, ib_lock_deadline = None\<rparr>"

definition load_from :: "int \<Rightarrow> int \<Rightarrow> int \<Rightarrow> int \<Rightarrow> state_batch list \<Rightarrow> acquisition_state" where
  "load_from start_offset state_epoch leader_epoch complete batches =
     (let bs = map load_batch batches
      in \<lparr>sp_start = start_offset, sp_end = fold (\<lambda>b m. max m (ib_last b + 1)) bs start_offset,
          sp_state_epoch = state_epoch, sp_leader_epoch = leader_epoch, sp_dirty = False,
          sp_complete = complete, sp_batches = coalesce bs\<rparr>)"

section \<open>Runs as a map from offsets to cells\<close>

type_synonym cell = "record_state \<times> int \<times> string option \<times> int option"

definition cell_of :: "in_flight_batch \<Rightarrow> cell" where
  "cell_of b = (ib_state b, ib_delivery_count b, ib_acquired_by b, ib_lock_deadline b)"

definition covers :: "in_flight_batch \<Rightarrow> int \<Rightarrow> bool" where
  "covers b off \<longleftrightarrow> ib_first b \<le> off \<and> off \<le> ib_last b"

fun batch_at :: "in_flight_batch list \<Rightarrow> int \<Rightarrow> in_flight_batch option" where
  "batch_at [] off = None"
| "batch_at (b # bs) off = (if covers b off then Some b else batch_at bs off)"

definition lookup :: "in_flight_batch list \<Rightarrow> int \<Rightarrow> cell option" where
  "lookup bs off = map_option cell_of (batch_at bs off)"

text \<open>The runs partition the window from \<open>s\<close> to \<open>e\<close>, in order and without gaps.\<close>

fun chain :: "int \<Rightarrow> in_flight_batch list \<Rightarrow> int \<Rightarrow> bool" where
  "chain s [] e \<longleftrightarrow> s = e"
| "chain s (b # bs) e \<longleftrightarrow> ib_first b = s \<and> ib_first b \<le> ib_last b \<and> chain (ib_last b + 1) bs e"

definition locked_ok :: "in_flight_batch \<Rightarrow> bool" where
  "locked_ok b \<longleftrightarrow> (ib_state b = Acquired \<longleftrightarrow> ib_acquired_by b \<noteq> None) \<and>
     (ib_state b = Acquired \<longleftrightarrow> ib_lock_deadline b \<noteq> None)"

definition share_wf :: "acquisition_state \<Rightarrow> bool" where
  "share_wf s \<longleftrightarrow> chain (sp_start s) (sp_batches s) (sp_end s) \<and> sp_end s \<le> i64_MAX
     \<and> list_all locked_ok (sp_batches s)"

abbreviation cells :: "acquisition_state \<Rightarrow> int \<Rightarrow> cell option" where
  "cells s \<equiv> lookup (sp_batches s)"

lemma lookup_simps [simp]: "lookup [] off = None"
  "lookup (b # bs) off = (if covers b off then Some (cell_of b) else lookup bs off)"
  by (simp_all add: lookup_def)

lemma chain_le: "chain s bs e \<Longrightarrow> s \<le> e"
  by (induction bs arbitrary: s) fastforce+

lemma chain_append: "chain s (as @ bs) e \<longleftrightarrow> (\<exists>m. chain s as m \<and> chain m bs e)"
  by (induction as arbitrary: s) auto

lemma lookup_below: "chain s bs e \<Longrightarrow> off < s \<Longrightarrow> lookup bs off = None"
  by (induction bs arbitrary: s) (force simp: covers_def)+

lemma lookup_above: "chain s bs e \<Longrightarrow> e \<le> off \<Longrightarrow> lookup bs off = None"
proof (induction bs arbitrary: s)
  case (Cons b bs)
  then have "ib_last b + 1 \<le> e" using chain_le by auto
  then show ?case using Cons by (auto simp: covers_def)
qed simp

lemma lookup_inside: "chain s bs e \<Longrightarrow> s \<le> off \<Longrightarrow> off < e \<Longrightarrow> lookup bs off \<noteq> None"
proof (induction bs arbitrary: s)
  case (Cons b bs)
  then show ?case by (cases "off \<le> ib_last b") (auto simp: covers_def)
qed simp

lemma lookup_window: "chain s bs e \<Longrightarrow> (lookup bs off \<noteq> None) \<longleftrightarrow> s \<le> off \<and> off < e"
  using lookup_below lookup_above lookup_inside by (metis linorder_not_le)

lemma lookup_append: "lookup (as @ bs) off = (case lookup as off of Some c \<Rightarrow> Some c | None \<Rightarrow> lookup bs off)"
  by (induction as) auto

section \<open>Splitting and merging change nothing\<close>

lemma coalesce_chain: "chain s bs e \<Longrightarrow> chain s (coalesce bs) e"
  by (induction bs arbitrary: s rule: coalesce.induct) (auto simp: mergeable_def)

lemma coalesce_lookup: "chain s bs e \<Longrightarrow> lookup (coalesce bs) = lookup bs"
proof (induction bs arbitrary: s rule: coalesce.induct)
  case (3 a b bs)
  show ?case
  proof (cases "mergeable a b")
    case True
    have "chain s (a\<lparr>ib_last := ib_last b\<rparr> # bs) e" using True "3.prems" by (auto simp: mergeable_def)
    then have "lookup (coalesce (a # b # bs)) = lookup (a\<lparr>ib_last := ib_last b\<rparr> # bs)" using "3.IH"(1) [OF True] True by (simp del: lookup_simps)
    also have "\<dots> = lookup (a # b # bs)"
      using True "3.prems" by (auto simp: fun_eq_iff covers_def cell_of_def mergeable_def)
    finally show ?thesis .
  next
    case False
    then show ?thesis using "3.IH"(2) [OF False] "3.prems" by (auto simp: fun_eq_iff)
  qed
qed simp_all

lemma coalesce_all: "list_all P bs \<Longrightarrow> (\<And>b l. P b \<Longrightarrow> P (b\<lparr>ib_last := l\<rparr>)) \<Longrightarrow> list_all P (coalesce bs)"
  by (induction bs rule: coalesce.induct) auto

lemma split_chain: "chain s bs e \<Longrightarrow> chain s (split_at_offset off bs) e"
  by (induction bs arbitrary: s) (auto simp: split_batch_def)

lemma split_lookup: "lookup (split_at_offset off bs) = lookup bs"
  by (induction bs) (auto simp: fun_eq_iff split_batch_def covers_def cell_of_def)

lemma split_all:
  "list_all P bs \<Longrightarrow> (\<And>b l. P b \<Longrightarrow> P (b\<lparr>ib_last := l\<rparr>)) \<Longrightarrow> (\<And>b l. P b \<Longrightarrow> P (b\<lparr>ib_first := l\<rparr>)) \<Longrightarrow>
   list_all P (split_at_offset off bs)"
  by (induction bs) (auto simp: split_batch_def)

text \<open>No run has the offset in its interior.\<close>

definition aligned :: "int \<Rightarrow> in_flight_batch list \<Rightarrow> bool" where
  "aligned off bs \<longleftrightarrow> list_all (\<lambda>b. \<not> (ib_first b < off \<and> off \<le> ib_last b)) bs"

lemma chain_aligned: "chain s bs e \<Longrightarrow> off \<le> s \<Longrightarrow> aligned off bs"
  by (induction bs arbitrary: s) (force simp: aligned_def)+

lemma split_aligns:
  assumes "chain s bs e" and "e \<le> i64_MAX"
  shows "aligned off (split_at_offset off bs)"
  using assms
proof (induction bs arbitrary: s)
  case (Cons b bs)
  have rest: "chain (ib_last b + 1) bs e" using Cons.prems by simp
  have "ib_last b + 1 \<le> e" using chain_le [OF rest] .
  then show ?case
    using Cons.IH [OF rest Cons.prems(2)] Cons.prems chain_aligned [OF rest, of off]
    by (auto simp: aligned_def split_batch_def)
qed (simp add: aligned_def)

lemma split_keeps_aligned: "aligned off bs \<Longrightarrow> aligned off (split_at_offset off' bs)"
  by (induction bs) (auto simp: aligned_def split_batch_def)

section \<open>Advancing the start offset\<close>

lemma drop_terminal_spec:
  assumes "chain s bs e" and "drop_terminal s bs = (s', bs')"
  shows "chain s' bs' e" and "s \<le> s'" and "lookup bs' off = (if off < s' then None else lookup bs off)"
    and "s \<le> off \<Longrightarrow> off < s' \<Longrightarrow> \<exists>st r. lookup bs off = Some (st, r) \<and> terminal st"
proof -
  have "chain s' bs' e \<and> s \<le> s' \<and> lookup bs' off = (if off < s' then None else lookup bs off) \<and>
      (s \<le> off \<longrightarrow> off < s' \<longrightarrow> (\<exists>st r. lookup bs off = Some (st, r) \<and> terminal st))"
    using assms
  proof (induction bs arbitrary: s)
    case (Cons b bs)
    show ?case
    proof (cases "terminal (ib_state b)")
      case True
      then show ?thesis using Cons.IH [of "ib_last b + 1"] Cons.prems by (auto simp: covers_def cell_of_def)
    next
      case False
      then have "s' = s" "bs' = b # bs" using Cons.prems by auto
      then show ?thesis using lookup_below [OF Cons.prems(1)] Cons.prems(1) by (auto simp del: lookup_simps chain.simps)
    qed
  qed auto
  then show "chain s' bs' e" and "s \<le> s'" and "lookup bs' off = (if off < s' then None else lookup bs off)"
    and "s \<le> off \<Longrightarrow> off < s' \<Longrightarrow> \<exists>st r. lookup bs off = Some (st, r) \<and> terminal st" by blast+
qed

lemma drop_terminal_all: "list_all P bs \<Longrightarrow> list_all P (snd (drop_terminal s bs))"
  by (induction bs arbitrary: s) auto

lemma locked_ok_resize: "locked_ok b \<Longrightarrow> locked_ok (b\<lparr>ib_last := l\<rparr>)" "locked_ok b \<Longrightarrow> locked_ok (b\<lparr>ib_first := l\<rparr>)"
  by (auto simp: locked_ok_def)

lemma advance_spso_spec:
  assumes "share_wf s"
  shows "share_wf (advance_spso s)" and "sp_start s \<le> sp_start (advance_spso s)" and "sp_end (advance_spso s) = sp_end s"
    and "cells (advance_spso s) off = (if off < sp_start (advance_spso s) then None else cells s off)"
    and "sp_start s \<le> off \<Longrightarrow> off < sp_start (advance_spso s) \<Longrightarrow> \<exists>st r. cells s off = Some (st, r) \<and> terminal st"
proof -
  obtain s' bs' where dt: "drop_terminal (sp_start s) (sp_batches s) = (s', bs')" by fastforce
  have ch: "chain (sp_start s) (sp_batches s) (sp_end s)" using assms by (simp add: share_wf_def)
  note d = drop_terminal_spec [OF ch dt]
  have adv: "sp_start (advance_spso s) = s'" "sp_end (advance_spso s) = sp_end s"
      "sp_batches (advance_spso s) = coalesce bs'"
    using chain_le [OF d(1)] by (simp_all add: advance_spso_def dt)
  have "list_all locked_ok bs'" using drop_terminal_all [of locked_ok "sp_batches s" "sp_start s"] assms dt
    by (simp add: share_wf_def)
  then show "share_wf (advance_spso s)"
    using assms coalesce_chain [OF d(1)] coalesce_all [of locked_ok bs'] locked_ok_resize
    by (simp add: share_wf_def adv)
  show "cells (advance_spso s) off = (if off < sp_start (advance_spso s) then None else cells s off)"
    using d(3) by (simp add: adv coalesce_lookup [OF d(1)])
  show "sp_start s \<le> sp_start (advance_spso s)" "sp_end (advance_spso s) = sp_end s" using adv d(2) by simp_all
  show "\<exists>st r. cells s off = Some (st, r) \<and> terminal st" if "sp_start s \<le> off" "off < sp_start (advance_spso s)"
    using d(4) that by (simp add: adv)
qed

section \<open>Acknowledging a range\<close>

definition held :: "string \<Rightarrow> cell option \<Rightarrow> bool" where
  "held m c \<longleftrightarrow> (\<exists>n d. c = Some (Acquired, n, Some m, d))"

lemma range_loop_late:
  "chain s bs e \<Longrightarrow> first_off < s \<Longrightarrow> \<not> first_off > last_off \<Longrightarrow> \<not> range_loop m first_off last_off first_off bs"
proof (induction bs arbitrary: s)
  case (Cons b bs)
  then show ?case using Cons.IH [of "ib_last b + 1"] by auto
qed simp

lemma range_loop_spec:
  assumes "chain s bs e" and "first_off \<le> cursor" and "cursor \<le> last_off" and "s \<le> cursor" and "cursor = first_off \<or> cursor = s"
  shows "range_loop m first_off last_off cursor bs \<longleftrightarrow> (\<forall>off. cursor \<le> off \<and> off \<le> last_off \<longrightarrow> held m (lookup bs off))"
  using assms
proof (induction bs arbitrary: s cursor)
  case Nil
  then show ?case by (auto simp: held_def)
next
  case (Cons b bs)
  have rest: "chain (ib_last b + 1) bs e" using Cons.prems by simp
  consider "ib_last b < first_off" | "first_off \<le> ib_last b" by linarith
  then show ?case
  proof cases
    case 1
    then have "cursor = first_off" using Cons.prems by auto
    then show ?thesis using 1 Cons.IH [OF rest, of cursor] Cons.prems by (auto simp: covers_def)
  next
    case 2
    then have cov: "covers b cursor" using Cons.prems by (auto simp: covers_def)
    show ?thesis
    proof (cases "ib_state b = Acquired \<and> ib_acquired_by b = Some m")
      case False
      then have "\<not> held m (lookup (b # bs) cursor)" using cov by (auto simp: held_def cell_of_def)
      moreover have "\<not> range_loop m first_off last_off cursor (b # bs)" using False 2 Cons.prems by auto
      ultimately show ?thesis using Cons.prems by blast
    next
      case True
      have in_b: "held m (lookup (b # bs) off)" if "cursor \<le> off" "off \<le> ib_last b" for off
        using True cov that by (auto simp: held_def cell_of_def covers_def)
      show ?thesis
      proof (cases "ib_last b + 1 > last_off")
        case True
        have "range_loop m first_off last_off cursor (b # bs)"
          using True \<open>ib_state b = Acquired \<and> ib_acquired_by b = Some m\<close> 2 Cons.prems by auto
        moreover have "held m (lookup (b # bs) off)" if "cursor \<le> off" "off \<le> last_off" for off
          using in_b [OF that(1)] that(2) True by linarith
        ultimately show ?thesis by blast
      next
        case False
        have "range_loop m first_off last_off cursor (b # bs) = range_loop m first_off last_off (ib_last b + 1) bs"
          using False \<open>ib_state b = Acquired \<and> ib_acquired_by b = Some m\<close> 2 Cons.prems by auto
        also have "\<dots> \<longleftrightarrow> (\<forall>off. ib_last b + 1 \<le> off \<and> off \<le> last_off \<longrightarrow> held m (lookup bs off))"
          using Cons.IH [OF rest, of "ib_last b + 1"] False 2 by auto
        also have "\<dots> \<longleftrightarrow> (\<forall>off. cursor \<le> off \<and> off \<le> last_off \<longrightarrow> held m (lookup (b # bs) off))"
          using in_b cov by (auto simp: covers_def)
        finally show ?thesis .
      qed
    qed
  qed
qed

section \<open>Mapping over the runs of a range\<close>

definition same_span :: "(in_flight_batch \<Rightarrow> in_flight_batch) \<Rightarrow> bool" where
  "same_span f \<longleftrightarrow> (\<forall>b. ib_first (f b) = ib_first b \<and> ib_last (f b) = ib_last b)"

lemma map_chain: "same_span f \<Longrightarrow> chain s (map f bs) e = chain s bs e"
  by (induction bs arbitrary: s) (auto simp: same_span_def)

lemma batch_at_map: "same_span f \<Longrightarrow> batch_at (map f bs) off = map_option f (batch_at bs off)"
  by (induction bs) (auto simp: same_span_def covers_def)

lemma batch_at_mem: "batch_at bs off = Some b \<Longrightarrow> b \<in> set bs \<and> covers b off"
  by (induction bs) (auto split: if_splits)

text \<open>The two cuts that put a range on run boundaries.\<close>

definition carve :: "int \<Rightarrow> int \<Rightarrow> in_flight_batch list \<Rightarrow> in_flight_batch list" where
  "carve first_off last_off bs = split_at_offset (last_off + 1) (split_at_offset first_off bs)"

lemma carve_spec:
  assumes "chain s bs e" and "e \<le> i64_MAX" and "list_all locked_ok bs"
  shows "chain s (carve f l bs) e" and "lookup (carve f l bs) = lookup bs"
    and "aligned f (carve f l bs)" and "aligned (l + 1) (carve f l bs)" and "list_all locked_ok (carve f l bs)"
  using assms split_chain split_aligns [OF split_chain [OF assms(1)]]
    split_keeps_aligned [OF split_aligns [OF assms(1,2)]] split_all [of locked_ok] locked_ok_resize
  by (simp_all add: carve_def split_lookup)

text \<open>On a carved list, a run lies in the range exactly when any of its offsets does.\<close>

lemma aligned_inside:
  assumes "aligned f bs" and "aligned (l + 1) bs" and "batch_at bs off = Some b"
  shows "(f \<le> ib_first b \<and> ib_last b \<le> l) = (f \<le> off \<and> off \<le> l)"
    and "(ib_last b < f \<or> l < ib_first b) = (\<not> (f \<le> off \<and> off \<le> l))"
proof -
  have "b \<in> set bs" and "covers b off" using batch_at_mem [OF assms(3)] by auto
  moreover from this have "\<not> (ib_first b < f \<and> f \<le> ib_last b)" "\<not> (ib_first b < l + 1 \<and> l + 1 \<le> ib_last b)"
    using assms(1,2) unfolding aligned_def list_all_iff by blast+
  ultimately show "(f \<le> ib_first b \<and> ib_last b \<le> l) = (f \<le> off \<and> off \<le> l)"
    and "(ib_last b < f \<or> l < ib_first b) = (\<not> (f \<le> off \<and> off \<le> l))"
    by (auto simp: covers_def)
qed

section \<open>The refinement relation\<close>

text \<open>
  \<open>settles s M s'\<close>: the state \<open>s'\<close> has the cells \<open>M\<close> over the window of \<open>s\<close>, except that a prefix of
  finished offsets may have left the window.
\<close>

definition settles :: "acquisition_state \<Rightarrow> (int \<Rightarrow> cell option) \<Rightarrow> acquisition_state \<Rightarrow> bool" where
  "settles s M s' \<longleftrightarrow> share_wf s' \<and> sp_end s' = sp_end s \<and> sp_start s \<le> sp_start s' \<and>
     (\<forall>off. cells s' off = (if off < sp_start s' then None else M off)) \<and>
     (\<forall>off. sp_start s \<le> off \<and> off < sp_start s' \<longrightarrow> (\<exists>st r. M off = Some (st, r) \<and> terminal st))"

lemma advance_settles: "share_wf s \<Longrightarrow> cells s = M \<Longrightarrow> sp_start s0 = sp_start s \<Longrightarrow> sp_end s0 = sp_end s \<Longrightarrow>
    settles s0 M (advance_spso s)"
  using advance_spso_spec [of s] by (auto simp: settles_def)

lemma settles_refl: "share_wf s \<Longrightarrow> cells s = M \<Longrightarrow> sp_start s0 = sp_start s \<Longrightarrow> sp_end s0 = sp_end s \<Longrightarrow> settles s0 M s"
  unfolding settles_def using lookup_below [of "sp_start s" "sp_batches s" "sp_end s"] by (auto simp: share_wf_def)

definition ack_state :: "ack_type \<Rightarrow> record_state" where
  "ack_state ack = (case ack of Accept \<Rightarrow> Acknowledged | Release \<Rightarrow> Available | Reject \<Rightarrow> Archived | Gap \<Rightarrow> Archived)"

definition freed :: "record_state \<Rightarrow> cell \<Rightarrow> cell" where
  "freed st c = (st, fst (snd c), None, None)"

definition ack_batch :: "int \<Rightarrow> int \<Rightarrow> ack_type \<Rightarrow> in_flight_batch \<Rightarrow> in_flight_batch" where
  "ack_batch f l ack b = (if ib_first b < f \<or> ib_last b > l \<or> ib_state b \<noteq> Acquired then b else free_as (ack_state ack) b)"

lemma ack_loop_map: "fst (ack_loop f l ack c bs) = map (ack_batch f l ack) bs"
  by (induction bs arbitrary: c) (simp_all add: ack_batch_def ack_state_def Let_def case_prod_unfold split: ack_type.splits)

lemma same_span_ops [simp]: "same_span (ack_batch f l ack)" "same_span (renew_batch f l d)"
  "same_span (\<lambda>b. if P b then free_as st b else b)"
  by (simp_all add: same_span_def ack_batch_def renew_batch_def free_as_def)

lemma locked_ok_free: "st \<noteq> Acquired \<Longrightarrow> locked_ok (free_as st b)"
  by (simp add: locked_ok_def free_as_def)

lemma cell_of_free: "cell_of (free_as st b) = freed st (cell_of b)"
  by (simp add: cell_of_def free_as_def freed_def)

lemma acknowledge_spec:
  assumes wf: "share_wf s"
  shows "(case acknowledge s m f l ack of
      Inl e \<Rightarrow> e = INVALID_RECORD_STATE \<and> \<not> (f \<le> l \<and> (\<forall>off. f \<le> off \<and> off \<le> l \<longrightarrow> held m (cells s off)))
    | Inr s' \<Rightarrow> f \<le> l \<and> (\<forall>off. f \<le> off \<and> off \<le> l \<longrightarrow> held m (cells s off)) \<and>
        settles s (\<lambda>off. if f \<le> off \<and> off \<le> l then map_option (freed (ack_state ack)) (cells s off) else cells s off) s')"
proof -
  have ch: "chain (sp_start s) (sp_batches s) (sp_end s)" "sp_end s \<le> i64_MAX" "list_all locked_ok (sp_batches s)"
    using wf by (simp_all add: share_wf_def)
  let ?held = "\<forall>off. f \<le> off \<and> off \<le> l \<longrightarrow> held m (cells s off)"
  have range: "range_acquired_by s m f l \<longleftrightarrow> ?held" if "f \<le> l"
  proof (cases "sp_start s \<le> f")
    case True
    then show ?thesis unfolding range_acquired_by_def using range_loop_spec [OF ch(1), of f f l m] that by auto
  next
    case False
    then have "\<not> held m (cells s f)" using lookup_below [OF ch(1), of f] by (simp add: held_def)
    then show ?thesis unfolding range_acquired_by_def
      using range_loop_late [OF ch(1), of f l m] False that by auto
  qed
  let ?bs = "carve f l (sp_batches s)"
  note cv = carve_spec [OF ch, where f = f and l = l]
  let ?t = "s\<lparr>sp_batches := map (ack_batch f l ack) ?bs, sp_complete := snd (ack_loop f l ack (sp_complete s) ?bs), sp_dirty := True\<rparr>"
  have "list_all locked_ok (map (ack_batch f l ack) ?bs)"
    using cv(5) by (auto simp: list_all_iff ack_batch_def ack_state_def locked_ok_free split: ack_type.splits)
  then have wft: "share_wf ?t" using cv(1) ch(2) by (simp add: share_wf_def map_chain)
  have "cells ?t off = (if f \<le> off \<and> off \<le> l then map_option (freed (ack_state ack)) (cells s off) else cells s off)"
    if "?held" for off
  proof (cases "batch_at ?bs off")
    case None
    then have "cells s off = None" using cv(2) by (metis lookup_def option.map(1))
    then show ?thesis using None by (simp add: lookup_def [of "map _ _"] batch_at_map)
  next
    case (Some b)
    have s_off: "cells s off = Some (cell_of b)" using Some cv(2) by (metis lookup_def option.map(2))
    then have "f \<le> off \<and> off \<le> l \<Longrightarrow> ib_state b = Acquired" using that by (auto simp: held_def cell_of_def)
    then show ?thesis
      using Some s_off aligned_inside [OF cv(3,4) Some] by (auto simp: lookup_def [of "map _ _"] batch_at_map ack_batch_def cell_of_free)
  qed
  then have set: "settles s (\<lambda>off. if f \<le> off \<and> off \<le> l then map_option (freed (ack_state ack)) (cells s off) else cells s off)
      (advance_spso ?t)" if "?held"
    using that by (intro advance_settles [OF wft]) auto
  show ?thesis
  proof (cases "f \<le> l \<and> ?held")
    case True
    then have "acknowledge s m f l ack = Inr (advance_spso ?t)"
      using range ack_loop_map [of f l ack "sp_complete s" ?bs]
      by (cases "ack_loop f l ack (sp_complete s) ?bs") (auto simp: acknowledge_def carve_def)
    then show ?thesis using True set by simp
  next
    case False
    then have "acknowledge s m f l ack = Inl INVALID_RECORD_STATE" using range by (auto simp: acknowledge_def)
    then show ?thesis using False by simp
  qed
qed

section \<open>The other operations, cell by cell\<close>

lemma lookup_map: "same_span f \<Longrightarrow> lookup (map f bs) off = map_option (\<lambda>b. cell_of (f b)) (batch_at bs off)"
  by (simp add: lookup_def batch_at_map option.map_comp comp_def)

lemma wf_parts:
  assumes "share_wf s"
  shows "chain (sp_start s) (sp_batches s) (sp_end s)" "sp_end s \<le> i64_MAX" "list_all locked_ok (sp_batches s)"
  using assms by (simp_all add: share_wf_def)

lemma release_where_spec:
  assumes wf: "share_wf s" and P: "\<And>b. P b = Q (cell_of b)"
  shows "settles s (\<lambda>off. map_option (\<lambda>c. if Q c then freed Available c else c) (cells s off)) (release_where P s)"
    and "sp_start (release_where P s) = sp_start s"
proof -
  let ?f = "\<lambda>b. if P b then free_as Available b else b"
  have ch: "chain (sp_start s) (map ?f (sp_batches s)) (sp_end s)" using wf_parts(1) [OF wf] by (simp add: map_chain)
  have cells: "lookup (map ?f (sp_batches s)) = (\<lambda>off. map_option (\<lambda>c. if Q c then freed Available c else c) (cells s off))"
    by (rule ext) (simp add: lookup_map lookup_def [of "sp_batches s"] option.map_comp comp_def P cell_of_free if_distrib cong: if_cong)
  have lo: "list_all locked_ok (map ?f (sp_batches s))"
    using wf_parts(3) [OF wf] by (auto simp: list_all_iff locked_ok_free)
  show "settles s (\<lambda>off. map_option (\<lambda>c. if Q c then freed Available c else c) (cells s off)) (release_where P s)"
    using ch cells lo wf_parts(2) [OF wf] coalesce_chain [OF ch] coalesce_all [of locked_ok, OF lo] locked_ok_resize
    by (intro settles_refl) (auto simp: share_wf_def release_where_def Let_def coalesce_lookup [OF ch])
  show "sp_start (release_where P s) = sp_start s" by (simp add: release_where_def Let_def)
qed

lemma renew_spec:
  assumes wf: "share_wf s" and "renew s m f l now dur = Inr s'"
  shows "settles s (\<lambda>off. map_option (\<lambda>c. if f \<le> off \<and> off \<le> l \<and> fst c = Acquired
      then (Acquired, fst (snd c), fst (snd (snd c)), Some (now + dur)) else c) (cells s off)) s'"
    and "sp_start s' = sp_start s"
proof -
  note ch = wf_parts [OF wf]
  note cv = carve_spec [OF ch, where f = f and l = l]
  let ?bs = "carve f l (sp_batches s)" and ?f = "renew_batch f l (now + dur)"
  have s': "s' = s\<lparr>sp_batches := map ?f ?bs, sp_dirty := True\<rparr>"
    using assms(2) by (auto simp: renew_def carve_def Let_def split: if_splits)
  have "list_all locked_ok (map ?f ?bs)"
    using cv(5) by (auto simp: list_all_iff renew_batch_def locked_ok_def)
  then have wf': "share_wf s'" using cv(1) ch(2) by (simp add: s' share_wf_def map_chain)
  have "cells s' off = map_option (\<lambda>c. if f \<le> off \<and> off \<le> l \<and> fst c = Acquired
      then (Acquired, fst (snd c), fst (snd (snd c)), Some (now + dur)) else c) (cells s off)" for off
  proof (cases "batch_at ?bs off")
    case None
    then have "cells s off = None" using cv(2) by (metis lookup_def option.map(1))
    then show ?thesis using None by (simp add: s' lookup_map)
  next
    case (Some b)
    have "cells s off = Some (cell_of b)" using Some cv(2) by (metis lookup_def option.map(2))
    then show ?thesis
      using Some aligned_inside(1) [OF cv(3,4) Some] by (auto simp: s' lookup_map renew_batch_def cell_of_def)
  qed
  then show "settles s (\<lambda>off. map_option (\<lambda>c. if f \<le> off \<and> off \<le> l \<and> fst c = Acquired
      then (Acquired, fst (snd c), fst (snd (snd c)), Some (now + dur)) else c) (cells s off)) s'"
    using wf' by (intro settles_refl) (auto simp: s')
  show "sp_start s' = sp_start s" by (simp add: s')
qed

definition archive_batch :: "int \<Rightarrow> int \<Rightarrow> in_flight_batch \<Rightarrow> in_flight_batch" where
  "archive_batch f l b = (if ib_last b < f \<or> ib_first b > l \<or> terminal (ib_state b) then b else free_as Archived b)"

lemma same_span_archive: "same_span (archive_batch f l)"
  by (simp add: same_span_def archive_batch_def free_as_def)

lemma archive_loop_map:
  "fst (archive_loop f l c ch bs) = map (archive_batch f l) bs"
  by (induction bs arbitrary: c ch) (simp_all add: archive_batch_def Let_def case_prod_unfold)

lemma archive_internal_spec:
  assumes wf: "share_wf s"
  shows "settles s (\<lambda>off. map_option (\<lambda>c. if f \<le> off \<and> off \<le> l \<and> \<not> terminal (fst c) then freed Archived c else c) (cells s off))
    (archive_internal s f l)"
proof (cases "f \<le> l")
  case False
  have "map_option (\<lambda>c. if f \<le> off \<and> off \<le> l \<and> \<not> terminal (fst c) then freed Archived c else c) (cells s off) = cells s off" for off
    using False by (cases "cells s off") auto
  then show ?thesis using False settles_refl [OF wf refl, of s] by (simp add: archive_internal_def)
next
  case True
  note ch = wf_parts [OF wf]
  note cv = carve_spec [OF ch, where f = f and l = l]
  let ?bs = "carve f l (sp_batches s)" and ?f = "archive_batch f l"
  let ?r = "archive_loop f l (sp_complete s) False ?bs"
  let ?t = "s\<lparr>sp_batches := map ?f ?bs, sp_complete := fst (snd ?r)\<rparr>"
  have "list_all locked_ok (map ?f ?bs)"
    using cv(5) by (auto simp: list_all_iff archive_batch_def locked_ok_free)
  then have wf': "share_wf (?t\<lparr>sp_dirty := d\<rparr>)" for d
    using cv(1) ch(2) same_span_archive by (simp add: share_wf_def map_chain)
  have "cells ?t off = map_option (\<lambda>c. if f \<le> off \<and> off \<le> l \<and> \<not> terminal (fst c) then freed Archived c else c) (cells s off)" for off
  proof (cases "batch_at ?bs off")
    case None
    then have "cells s off = None" using cv(2) by (metis lookup_def option.map(1))
    then show ?thesis using None by (simp add: lookup_map same_span_archive)
  next
    case (Some b)
    have "cells s off = Some (cell_of b)" using Some cv(2) by (metis lookup_def option.map(2))
    moreover have "fst (cell_of b) = ib_state b" by (simp add: cell_of_def)
    ultimately show ?thesis
      using Some aligned_inside(2) [OF cv(3,4) Some]
      by (auto simp: lookup_map same_span_archive archive_batch_def cell_of_free)
  qed
  then have cells: "cells (?t\<lparr>sp_dirty := d\<rparr>) = (\<lambda>off. map_option (\<lambda>c. if f \<le> off \<and> off \<le> l \<and> \<not> terminal (fst c)
      then freed Archived c else c) (cells s off))" for d by (intro ext) simp
  have "archive_internal s f l = (if snd (snd ?r) then advance_spso (?t\<lparr>sp_dirty := True\<rparr>) else ?t\<lparr>sp_dirty := sp_dirty s\<rparr>)"
    using True archive_loop_map(1) [of f l "sp_complete s" False ?bs]
    by (cases ?r) (auto simp: archive_internal_def carve_def Let_def)
  then show ?thesis
    using advance_settles [OF wf' [of True] cells [of True], of s]
      settles_refl [OF wf' [of "sp_dirty s"] cells [of "sp_dirty s"], of s]
    by (cases "snd (snd ?r)") simp_all
qed

lemma materialize_spec:
  assumes wf: "share_wf s" and "hwm \<le> i64_MAX"
  shows "share_wf (materialize s hwm k)" and "sp_start (materialize s hwm k) = sp_start s"
    and "sp_end s \<le> sp_end (materialize s hwm k)" and "sp_end (materialize s hwm k) \<le> max (sp_end s) hwm"
    and "cells (materialize s hwm k) off =
      (if sp_end s \<le> off \<and> off < sp_end (materialize s hwm k) then Some (Available, 0, None, None) else cells s off)"
proof -
  note ch = wf_parts [OF wf]
  define hi where "hi = min (hwm - 1) (i64_wrap (sp_end s + max k 1 - 1))"
  let ?b = "\<lparr>ib_first = sp_end s, ib_last = hi, ib_state = Available, ib_delivery_count = 0,
     ib_acquired_by = None, ib_lock_deadline = None\<rparr>"
  have m: "materialize s hwm k = (if list_ex (\<lambda>b. ib_state b = Available) (sp_batches s) \<or> sp_end s \<ge> hwm \<or> hi < sp_end s
      then s else s\<lparr>sp_batches := coalesce (sp_batches s @ [?b]), sp_end := hi + 1\<rparr>)"
    unfolding materialize_def hi_def [symmetric] Let_def by simp
  have hi: "hi \<le> hwm - 1" by (simp add: hi_def)
  consider "materialize s hwm k = s"
    | "sp_end s \<le> hi" "materialize s hwm k = s\<lparr>sp_batches := coalesce (sp_batches s @ [?b]), sp_end := hi + 1\<rparr>"
    using m by (cases "hi < sp_end s") (auto split: if_splits)
  then have "share_wf (materialize s hwm k) \<and> sp_start (materialize s hwm k) = sp_start s
    \<and> sp_end s \<le> sp_end (materialize s hwm k) \<and> sp_end (materialize s hwm k) \<le> max (sp_end s) hwm
    \<and> cells (materialize s hwm k) off =
      (if sp_end s \<le> off \<and> off < sp_end (materialize s hwm k) then Some (Available, 0, None, None) else cells s off)"
  proof cases
    case 1
    then show ?thesis using wf by auto
  next
    case 2
    have c2: "chain (sp_start s) (sp_batches s @ [?b]) (hi + 1)" using ch(1) 2(1) by (auto simp: chain_append)
    have "list_all locked_ok (sp_batches s @ [?b])" using ch(3) by (simp add: locked_ok_def)
    then have "list_all locked_ok (coalesce (sp_batches s @ [?b]))" by (rule coalesce_all) (rule locked_ok_resize)
    moreover have "lookup (sp_batches s @ [?b]) off =
        (if sp_end s \<le> off \<and> off < hi + 1 then Some (Available, 0, None, None) else cells s off)"
      using lookup_above [OF ch(1), of off] by (auto simp: lookup_append covers_def cell_of_def split: option.splits)
    ultimately show ?thesis
      using 2 hi coalesce_chain [OF c2] assms(2) by (auto simp: share_wf_def coalesce_lookup [OF c2])
  qed
  then show "share_wf (materialize s hwm k)" and "sp_start (materialize s hwm k) = sp_start s"
    and "sp_end s \<le> sp_end (materialize s hwm k)" and "sp_end (materialize s hwm k) \<le> max (sp_end s) hwm"
    and "cells (materialize s hwm k) off =
      (if sp_end s \<le> off \<and> off < sp_end (materialize s hwm k) then Some (Available, 0, None, None) else cells s off)"
    by blast+
qed

section \<open>Acquiring\<close>

definition in_ranges :: "acquired_range list \<Rightarrow> int \<Rightarrow> bool" where
  "in_ranges acq off \<longleftrightarrow> (\<exists>r \<in> set acq. ar_first r \<le> off \<and> off \<le> ar_last r)"

definition range_len :: "acquired_range \<Rightarrow> int" where
  "range_len r = ar_last r - ar_first r + 1"

lemma in_ranges_simps [simp]: "\<not> in_ranges [] off"
  "in_ranges (r # acq) off \<longleftrightarrow> ar_first r \<le> off \<and> off \<le> ar_last r \<or> in_ranges acq off"
  by (auto simp: in_ranges_def)

text \<open>What \<open>acquire\<close> may do to the cell of an offset: hand it out, retire it, or leave it.\<close>

definition acquire_cell :: "string \<Rightarrow> int \<Rightarrow> int \<Rightarrow> bool \<Rightarrow> cell option \<Rightarrow> cell option \<Rightarrow> bool" where
  "acquire_cell m dl ma taken c c' \<longleftrightarrow>
     (if taken then \<exists>n w d. c = Some (Available, n, w, d) \<and> n < ma \<and> c' = Some (Acquired, n + 1, Some m, Some dl)
      else c' = c \<or> (\<exists>n w d. c = Some (Available, n, w, d) \<and> ma \<le> n \<and> c' = Some (Archived, n, None, None)))"

lemma acquire_cell_keep [simp]: "acquire_cell m dl ma False c c"
  by (simp add: acquire_cell_def)

lemma acquire_loop_ranges:
  assumes "chain s bs e" and "0 \<le> rem" and "acquire_loop m dl ma rem c bs = (bs', acq, c', chg)"
  shows "chain s bs' e \<and> list_all (\<lambda>r. s \<le> ar_first r \<and> ar_first r \<le> ar_last r \<and> ar_last r < e) acq
    \<and> sorted_wrt (\<lambda>r r'. ar_last r < ar_first r') acq \<and> sum_list (map range_len acq) \<le> rem"
  using assms
proof (induction bs arbitrary: s rem c bs' acq c' chg)
  case (Cons b bs)
  have rest: "chain (ib_last b + 1) bs e" and b: "ib_first b = s" "s \<le> ib_last b" using Cons.prems(1) by auto
  have le: "ib_last b + 1 \<le> e" using chain_le [OF rest] .
  have weaken: "list_all (\<lambda>r. ib_last b + 1 \<le> ar_first r \<and> ar_first r \<le> ar_last r \<and> ar_last r < e) xs \<Longrightarrow>
      list_all (\<lambda>r. s \<le> ar_first r \<and> ar_first r \<le> ar_last r \<and> ar_last r < e) xs
      \<and> list_all (\<lambda>r. ib_last b < ar_first r) xs" for xs
    using b by (auto simp: list_all_iff)
  consider "rem = 0" | "rem \<noteq> 0" "ib_state b \<noteq> Available"
    | "rem \<noteq> 0" "ib_state b = Available" "ma \<le> ib_delivery_count b"
    | "rem \<noteq> 0" "ib_state b = Available" "ib_delivery_count b < ma" "rem < batch_len b"
    | "rem \<noteq> 0" "ib_state b = Available" "ib_delivery_count b < ma" "batch_len b \<le> rem" by linarith
  then show ?case
  proof cases
    case 1
    then show ?thesis using Cons.prems by auto
  next
    case 2
    obtain ys zs c2 ch2 where l: "acquire_loop m dl ma rem c bs = (ys, zs, c2, ch2)" by (metis prod_cases4)
    show ?thesis using Cons.IH [OF rest Cons.prems(2) l] 2 Cons.prems(3) l b weaken [of zs] by auto
  next
    case 3
    let ?c = "i32_wrapping_add c (clamp_i32 (batch_len b))"
    obtain ys zs c2 ch2 where l: "acquire_loop m dl ma rem ?c bs = (ys, zs, c2, ch2)" by (metis prod_cases4)
    show ?thesis using Cons.IH [OF rest Cons.prems(2) l] 3 Cons.prems(3) l b weaken [of zs] by (auto simp: free_as_def)
  next
    case 4
    then show ?thesis using Cons.prems b rest le
      by (auto simp: acquire_batch_def range_of_def batch_len_def Let_def range_len_def)
  next
    case 5
    obtain ys zs c2 ch2 where l: "acquire_loop m dl ma (rem - batch_len b) c bs = (ys, zs, c2, ch2)" by (metis prod_cases4)
    have "0 \<le> rem - batch_len b" using 5 by simp
    from Cons.IH [OF rest this l] weaken [of zs] show ?thesis using 5 Cons.prems(3) l b le
      by (auto simp: Let_def acquire_batch_def range_of_def range_len_def batch_len_def list_all_iff)
  qed
qed auto

lemma ranges_beyond:
  assumes "chain s bs e" and "0 \<le> rem" and "acquire_loop m dl ma rem c bs = (bs', acq, c', chg)" and "off < s"
  shows "\<not> in_ranges acq off" and "lookup bs' off = None" and "lookup bs off = None"
  using acquire_loop_ranges [OF assms(1-3)] lookup_below assms by (auto simp: in_ranges_def list_all_iff)

lemma covers_free [simp]: "covers (free_as st b) off = covers b off" "covers (acquire_batch m dl b) off = covers b off"
  by (simp_all add: covers_def free_as_def acquire_batch_def)

lemma cell_of_acquire: "cell_of (acquire_batch m dl b) = (Acquired, ib_delivery_count b + 1, Some m, Some dl)"
  "ar_first (range_of (acquire_batch m dl b)) = ib_first b" "ar_last (range_of (acquire_batch m dl b)) = ib_last b"
  by (simp_all add: cell_of_def acquire_batch_def range_of_def)

lemma acquire_loop_cells:
  assumes "chain s bs e" and "0 \<le> rem" and "acquire_loop m dl ma rem c bs = (bs', acq, c', chg)"
  shows "acquire_cell m dl ma (in_ranges acq off) (lookup bs off) (lookup bs' off)"
  using assms
proof (induction bs arbitrary: s rem c bs' acq c' chg)
  case (Cons b bs)
  have rest: "chain (ib_last b + 1) bs e" and b: "ib_first b = s" "s \<le> ib_last b" using Cons.prems(1) by auto
  have cov: "covers b off \<longleftrightarrow> s \<le> off \<and> off \<le> ib_last b" by (simp add: covers_def b)
  consider "rem = 0" | "rem \<noteq> 0" "ib_state b \<noteq> Available"
    | "rem \<noteq> 0" "ib_state b = Available" "ma \<le> ib_delivery_count b"
    | "rem \<noteq> 0" "ib_state b = Available" "ib_delivery_count b < ma" "rem < batch_len b"
    | "rem \<noteq> 0" "ib_state b = Available" "ib_delivery_count b < ma" "batch_len b \<le> rem" by linarith
  then show ?case
  proof cases
    case 1
    then show ?thesis using Cons.prems by simp
  next
    case 2
    obtain ys zs c2 ch2 where l: "acquire_loop m dl ma rem c bs = (ys, zs, c2, ch2)" by (metis prod_cases4)
    then have "acq = zs" "bs' = b # ys" using 2 Cons.prems(3) by simp_all
    then show ?thesis
      using Cons.IH [OF rest Cons.prems(2) l] ranges_beyond [OF rest Cons.prems(2) l, of off]
      by (cases "off \<le> ib_last b") (simp_all add: cov)
  next
    case 3
    let ?c = "i32_wrapping_add c (clamp_i32 (batch_len b))"
    obtain ys zs c2 ch2 where l: "acquire_loop m dl ma rem ?c bs = (ys, zs, c2, ch2)" by (metis prod_cases4)
    then have "acq = zs" "bs' = free_as Archived b # ys" using 3 Cons.prems(3) by simp_all
    then show ?thesis
      using Cons.IH [OF rest Cons.prems(2) l] ranges_beyond [OF rest Cons.prems(2) l, of off] 3
      by (cases "off \<le> ib_last b") (simp_all add: cov acquire_cell_def cell_of_free freed_def cell_of_def [of b])
  next
    case 4
    then show ?thesis using Cons.prems(2,3) b lookup_below [OF rest, of off]
      by (auto simp: acquire_batch_def range_of_def batch_len_def Let_def covers_def cell_of_def acquire_cell_def)
  next
    case 5
    obtain ys zs c2 ch2 where l: "acquire_loop m dl ma (rem - batch_len b) c bs = (ys, zs, c2, ch2)" by (metis prod_cases4)
    have nn: "0 \<le> rem - batch_len b" using 5 by simp
    have "acq = range_of (acquire_batch m dl b) # zs" "bs' = acquire_batch m dl b # ys"
      using 5 l Cons.prems(3) by (simp_all add: Let_def)
    then show ?thesis
      using Cons.IH [OF rest nn l] ranges_beyond [OF rest nn l, of off] 5 b
      by (cases "off \<le> ib_last b")
         (simp_all add: cov acquire_cell_def cell_of_acquire cell_of_def [of b])
  qed
qed auto

lemma acquire_loop_locked:
  "list_all locked_ok bs \<Longrightarrow> list_all locked_ok (fst (acquire_loop m dl ma rem c bs))"
  by (induction bs arbitrary: rem c)
     (auto simp: Let_def case_prod_unfold locked_ok_free locked_ok_resize acquire_batch_def, auto simp: locked_ok_def)

lemma acquire_loop_complete:
  assumes "chain s bs e" and "e - s \<le> rem" and "acquire_loop m dl ma rem c bs = (bs', acq, c', chg)"
    and "lookup bs off = Some (Available, n, w, d)" and "n < ma"
  shows "in_ranges acq off"
  using assms
proof (induction bs arbitrary: s rem c bs' acq c' chg)
  case (Cons b bs)
  have rest: "chain (ib_last b + 1) bs e" and b: "ib_first b = s" "s \<le> ib_last b" using Cons.prems(1) by auto
  have le: "ib_last b + 1 \<le> e" using chain_le [OF rest] .
  have len: "batch_len b = ib_last b + 1 - s" by (simp add: batch_len_def b)
  consider "ib_state b \<noteq> Available" | "ib_state b = Available" "ma \<le> ib_delivery_count b"
    | "ib_state b = Available" "ib_delivery_count b < ma" by linarith
  then show ?case
  proof cases
    case 1
    obtain ys zs c2 ch2 where l: "acquire_loop m dl ma rem c bs = (ys, zs, c2, ch2)" by (metis prod_cases4)
    then show ?thesis using Cons.IH [OF rest _ l] Cons.prems 1 b le by (auto simp: cell_of_def split: if_splits)
  next
    case 2
    let ?c = "i32_wrapping_add c (clamp_i32 (batch_len b))"
    obtain ys zs c2 ch2 where l: "acquire_loop m dl ma rem ?c bs = (ys, zs, c2, ch2)" by (metis prod_cases4)
    then show ?thesis using Cons.IH [OF rest _ l] Cons.prems 2 b le by (auto simp: cell_of_def split: if_splits)
  next
    case 3
    obtain ys zs c2 ch2 where l: "acquire_loop m dl ma (rem - batch_len b) c bs = (ys, zs, c2, ch2)" by (metis prod_cases4)
    then have "acq = range_of (acquire_batch m dl b) # zs"
      using 3 Cons.prems(2,3) len le b by (auto simp: Let_def)
    then show ?thesis
      using Cons.IH [OF rest _ l] Cons.prems(2,4,5) len le b
      by (cases "covers b off") (auto simp: covers_def range_of_def acquire_batch_def)
  qed
qed simp

text \<open>The cells after the walk, before finished offsets leave the window.\<close>

lemma acquire_unfold:
  assumes "share_wf s" and "acquire s m k now dur ma = (acq, s')"
  obtains bs c chg where "acquire_loop m (now + dur) ma (max k 0) (sp_complete s) (sp_batches s) = (bs, acq, c, chg)"
    and "settles s (lookup bs) s'"
proof -
  note ch = wf_parts [OF assms(1)]
  obtain bs a c chg where l: "acquire_loop m (now + dur) ma (max k 0) (sp_complete s) (sp_batches s) = (bs, a, c, chg)"
    by (metis prod_cases4)
  let ?t = "s\<lparr>sp_batches := bs, sp_complete := c\<rparr>"
  have a: "acq = a" and s': "s' = (if chg then advance_spso (?t\<lparr>sp_dirty := True\<rparr>) else ?t)"
    using assms(2) by (simp_all add: acquire_def l Let_def)
  have wf': "share_wf ?t" "share_wf (?t\<lparr>sp_dirty := True\<rparr>)"
    using acquire_loop_ranges [OF ch(1) _ l] ch acquire_loop_locked [OF ch(3), of m "now + dur" ma "max k 0" "sp_complete s"] l
    by (simp_all add: share_wf_def)
  have "settles s (lookup bs) s'"
    unfolding s' using advance_settles [OF wf'(2), of _ s] settles_refl [OF wf'(1), of _ s] by simp
  then show thesis using that l a by blast
qed

lemma acquire_settles:
  assumes "share_wf s" and "acquire s m k now dur ma = (acq, s')"
  shows "\<exists>M. settles s M s' \<and> (\<forall>off. acquire_cell m (now + dur) ma (in_ranges acq off) (cells s off) (M off))"
proof -
  obtain bs c chg where l: "acquire_loop m (now + dur) ma (max k 0) (sp_complete s) (sp_batches s) = (bs, acq, c, chg)"
    and S: "settles s (lookup bs) s'"
    by (rule acquire_unfold [OF assms])
  show ?thesis using S acquire_loop_cells [OF wf_parts(1) [OF assms(1)] _ l] by (intro exI [of _ "lookup bs"]) simp
qed

lemma acquire_ranges:
  assumes "share_wf s" and "acquire s m k now dur ma = (acq, s')"
  shows "sorted_wrt (\<lambda>r r'. ar_last r < ar_first r') acq" and "sum_list (map range_len acq) \<le> max k 0"
    and "cells s off = Some (Available, n, w, d) \<Longrightarrow> n < ma \<Longrightarrow> sp_end s - sp_start s \<le> k \<Longrightarrow> in_ranges acq off"
proof -
  note ch = wf_parts [OF assms(1)]
  obtain bs c chg where l: "acquire_loop m (now + dur) ma (max k 0) (sp_complete s) (sp_batches s) = (bs, acq, c, chg)"
    by (rule acquire_unfold [OF assms])
  show "sorted_wrt (\<lambda>r r'. ar_last r < ar_first r') acq" and "sum_list (map range_len acq) \<le> max k 0"
    using acquire_loop_ranges [OF ch(1) _ l] by simp_all
  show "in_ranges acq off" if "cells s off = Some (Available, n, w, d)" "n < ma" "sp_end s - sp_start s \<le> k"
    by (rule acquire_loop_complete [OF ch(1) _ l that(1,2)]) (use that(3) in simp)
qed

section \<open>Persisting and reloading\<close>

definition reload_cell :: "cell \<Rightarrow> cell" where
  "reload_cell c = (if fst c = Acquired then Available else fst c, fst (snd c), None, None)"

lemma fold_max_chain: "chain s bs e \<Longrightarrow> s \<le> m \<Longrightarrow> fold (\<lambda>b m. max m (ib_last b + 1)) bs m = max m e"
proof (induction bs arbitrary: s m)
  case (Cons b bs)
  have rest: "chain (ib_last b + 1) bs e" using Cons.prems by simp
  show ?case using Cons.IH [OF rest, of "max m (ib_last b + 1)"] chain_le [OF rest] by simp
qed simp

lemma reload_spec:
  assumes wf: "share_wf s" and "to_persist_batches s = (st, c, bs)" and "s' = load_from st se le c bs"
  shows "share_wf s'" and "sp_start s' = sp_start s" and "sp_end s' = sp_end s" and "sp_complete s' = sp_complete s"
    and "cells s' off = map_option reload_cell (cells s off)"
proof -
  note ch = wf_parts [OF wf]
  let ?f = "\<lambda>b. load_batch (persist_batch b)"
  have s': "s' = load_from (sp_start s) se le (sp_complete s) (map persist_batch (sp_batches s))"
    using assms(2,3) by (simp add: to_persist_batches_def)
  have span: "same_span ?f" by (simp add: same_span_def load_batch_def persist_batch_def)
  have map: "map load_batch (map persist_batch (sp_batches s)) = map ?f (sp_batches s)" by simp
  have c2: "chain (sp_start s) (map ?f (sp_batches s)) (sp_end s)" using ch(1) by (simp add: map_chain [OF span])
  have cl: "cell_of (?f b) = reload_cell (cell_of b)" for b
    by (cases "ib_state b") (simp_all add: cell_of_def load_batch_def persist_batch_def reload_cell_def)
  have "list_all locked_ok (map ?f (sp_batches s))"
    by (auto simp: list_all_iff locked_ok_def load_batch_def)
  then have "list_all locked_ok (coalesce (map ?f (sp_batches s)))" by (rule coalesce_all) (rule locked_ok_resize)
  then show "share_wf s'"
    using coalesce_chain [OF c2] fold_max_chain [OF c2 order.refl] chain_le [OF c2] ch(2)
    by (simp add: s' share_wf_def load_from_def Let_def map max_absorb2 comp_def)
  show "sp_start s' = sp_start s" "sp_complete s' = sp_complete s" by (simp_all add: s' load_from_def Let_def)
  show "sp_end s' = sp_end s"
    using fold_max_chain [OF c2 order.refl] chain_le [OF c2] by (simp add: s' load_from_def Let_def max_absorb2 comp_def)
  show "cells s' off = map_option reload_cell (cells s off)"
    by (simp add: s' load_from_def Let_def coalesce_lookup [OF c2, simplified] lookup_map [OF span, simplified] comp_def
        lookup_def [of "sp_batches s"] option.map_comp cl)
qed

section \<open>Runs of the state machine\<close>

text \<open>One step of a share partition: any operation, or a change of leader through the persisted state.\<close>

inductive share_step :: "acquisition_state \<Rightarrow> acquisition_state \<Rightarrow> bool" where
  produce: "hwm \<le> i64_MAX \<Longrightarrow> share_step s (materialize s hwm max_inflight)"
| control: "share_step s (archive_internal s f l)"
| fetch: "acquire s m k now dur ma = (acq, s') \<Longrightarrow> share_step s s'"
| ack: "acknowledge s m f l a = Inr s' \<Longrightarrow> share_step s s'"
| renewal: "renew s m f l now dur = Inr s' \<Longrightarrow> share_step s s'"
| timeout: "share_step s (expire_locks s now)"
| disconnect: "share_step s (release_member s m)"
| failover: "to_persist_batches s = (st, c, bs) \<Longrightarrow> share_step s (load_from st se le c bs)"

definition finished :: "acquisition_state \<Rightarrow> int \<Rightarrow> bool" where
  "finished s off \<longleftrightarrow> off < sp_start s \<or> (\<exists>st r. cells s off = Some (st, r) \<and> terminal st)"

lemma terminal_states: "terminal Acknowledged" "terminal Archived" "\<not> terminal Available" "\<not> terminal Acquired"
  by (simp_all add: terminal_def)

lemma settles_finished:
  assumes "settles s M s'" and "finished s off"
    and "\<And>st r. cells s off = Some (st, r) \<Longrightarrow> terminal st \<Longrightarrow> \<exists>r'. M off = Some (st, r')"
  shows "finished s' off"
  using assms by (force simp: settles_def finished_def)

lemma release_cell_spec:
  assumes "share_wf s"
  shows "settles s (\<lambda>off. map_option (\<lambda>c. if fst c = Acquired \<and> (case snd (snd (snd c)) of Some d \<Rightarrow> now \<ge> d | None \<Rightarrow> False)
      then freed Available c else c) (cells s off)) (expire_locks s now)"
    and "settles s (\<lambda>off. map_option (\<lambda>c. if fst c = Acquired \<and> fst (snd (snd c)) = Some m
      then freed Available c else c) (cells s off)) (release_member s m)"
  unfolding expire_locks_def release_member_def
  by (rule release_where_spec(1) [OF assms], simp add: lock_expired_def cell_of_def)+

lemma settles_map_finished:
  assumes S: "settles s (\<lambda>off. map_option (g off) (cells s off)) s'"
    and g: "\<And>c. terminal (fst c) \<Longrightarrow> fst (g off c) = fst c" and fin: "finished s off"
  shows "finished s' off"
proof (rule settles_finished [OF S fin])
  fix st r
  assume c: "cells s off = Some (st, r)" and t: "terminal st"
  have "fst (g off (st, r)) = st" using g [of "(st, r)"] t by simp
  then show "\<exists>r'. map_option (g off) (cells s off) = Some (st, r')"
    unfolding c option.map by (metis prod.collapse)
qed

lemma acquire_finished:
  assumes wf: "share_wf s" and a: "acquire s m k now dur ma = (acq, s')"
  shows "share_wf s'" and "finished s off \<Longrightarrow> finished s' off"
proof -
  obtain M where S: "settles s M s'"
    and M: "\<forall>off. acquire_cell m (now + dur) ma (in_ranges acq off) (cells s off) (M off)"
    using acquire_settles [OF assms] by blast
  show "share_wf s'" using S by (simp add: settles_def)
  assume fin: "finished s off"
  show "finished s' off"
  proof (rule settles_finished [OF S fin])
    fix st r
    assume c: "cells s off = Some (st, r)" and t: "terminal st"
    have "st \<noteq> Available" using t terminal_states by blast
    then have "M off = Some (st, r)" using M [rule_format, of off] unfolding c acquire_cell_def by (auto split: if_splits)
    then show "\<exists>r'. M off = Some (st, r')" by blast
  qed
qed

lemma acknowledge_finished:
  assumes wf: "share_wf s" and a: "acknowledge s m f l ack = Inr s'"
  shows "share_wf s'" and "finished s off \<Longrightarrow> finished s' off"
    and "ack \<noteq> Release \<Longrightarrow> f \<le> off \<Longrightarrow> off \<le> l \<Longrightarrow> finished s' off"
proof -
  have S: "settles s (\<lambda>off. if f \<le> off \<and> off \<le> l then map_option (freed (ack_state ack)) (cells s off) else cells s off) s'"
    and held: "\<forall>off. f \<le> off \<and> off \<le> l \<longrightarrow> held m (cells s off)"
    using acknowledge_spec [OF wf, where m = m and f = f and l = l and ack = ack] a by simp_all
  show "share_wf s'" using S by (simp add: settles_def)
  show "finished s' off" if fin: "finished s off"
  proof (rule settles_finished [OF S fin])
    fix st r
    assume c: "cells s off = Some (st, r)" and t: "terminal st"
    have "\<not> held m (cells s off)" using c t terminal_states unfolding held_def by auto
    then have "\<not> (f \<le> off \<and> off \<le> l)" using held by blast
    then show "\<exists>r'. (if f \<le> off \<and> off \<le> l then map_option (freed (ack_state ack)) (cells s off) else cells s off) = Some (st, r')"
      using c by (simp only: if_False) blast
  qed
  assume nr: "ack \<noteq> Release" and off: "f \<le> off" "off \<le> l"
  then have t: "terminal (ack_state ack)" by (cases ack) (simp_all add: ack_state_def terminal_states)
  obtain n d where "cells s off = Some (Acquired, n, Some m, d)" using held off unfolding held_def by blast
  then have "\<not> off < sp_start s' \<Longrightarrow> cells s' off = Some (freed (ack_state ack) (Acquired, n, Some m, d))"
    using S off unfolding settles_def by simp
  then show "finished s' off" using t unfolding finished_def freed_def by blast
qed

lemma step_invariant:
  assumes "share_step s s'" and wf: "share_wf s"
  shows "share_wf s' \<and> (finished s off \<longrightarrow> finished s' off)"
  using assms(1)
proof cases
  case (produce hwm k)
  have "finished s off \<Longrightarrow> finished (materialize s hwm k) off"
    using materialize_spec(2,5) [OF wf produce(2)] lookup_above [OF wf_parts(1) [OF wf], of off]
    unfolding finished_def by fastforce
  then show ?thesis using materialize_spec(1) [OF wf produce(2)] produce(1) by simp
next
  case (control f l)
  note S = archive_internal_spec [OF wf, of f l, folded control]
  show ?thesis using settles_map_finished [OF S] S by (simp add: settles_def)
next
  case (fetch m k now dur ma acq)
  then show ?thesis using acquire_finished [OF wf] by blast
next
  case (ack m f l a)
  then show ?thesis using acknowledge_finished [OF wf] by blast
next
  case (renewal m f l now dur)
  note S = renew_spec(1) [OF wf renewal]
  show ?thesis using settles_map_finished [OF S] S by (simp add: settles_def terminal_states)
next
  case (timeout now)
  note S = release_cell_spec(1) [OF wf, of now, folded timeout]
  have "finished s off \<Longrightarrow> finished s' off"
    by (rule settles_map_finished [OF S]) (auto simp: terminal_def)
  then show ?thesis using S by (simp add: settles_def)
next
  case (disconnect m)
  note S = release_cell_spec(2) [OF wf, of m, folded disconnect]
  have "finished s off \<Longrightarrow> finished s' off"
    by (rule settles_map_finished [OF S]) (auto simp: terminal_def)
  then show ?thesis using S by (simp add: settles_def)
next
  case (failover st c bs se le)
  note r = reload_spec [OF wf failover(2) failover(1)]
  have "finished s' off" if fin: "finished s off"
  proof (cases "off < sp_start s")
    case False
    then obtain st x where "cells s off = Some (st, x)" and t: "terminal st" using fin unfolding finished_def by blast
    then have "cells s' off = Some (reload_cell (st, x))" using r(5) by simp
    moreover have "fst (reload_cell (st, x)) = st" using t by (auto simp: reload_cell_def terminal_def)
    ultimately show ?thesis unfolding finished_def using t by (metis prod.collapse)
  qed (simp add: finished_def r(2))
  then show ?thesis using r(1) by blast
qed

lemma steps_invariant:
  assumes "share_step\<^sup>*\<^sup>* s s'" and "share_wf s"
  shows "share_wf s' \<and> (finished s off \<longrightarrow> finished s' off)"
  using assms by (induction rule: rtranclp_induct) (use step_invariant in blast)+

lemma share_new_wf: "start \<le> i64_MAX \<Longrightarrow> share_wf (share_new start)"
  by (simp add: share_wf_def share_new_def)

section \<open>Properties\<close>

text \<open>
  C5. No redelivery: once a member's Accept, Reject or Gap of a range has succeeded, no offset of that
  range is ever handed out again, to any member, in any run of the partition through produces,
  control records, fetches, acknowledgements, renewals, lock timeouts, disconnects and leader changes
  that reload the state persisted at that moment.
\<close>

theorem share_never_redelivered:
  assumes "start \<le> i64_MAX" and "share_step\<^sup>*\<^sup>* (share_new start) s1"
    and "acknowledge s1 m f l ack = Inr s2" and "ack \<noteq> Release" and "f \<le> off" and "off \<le> l"
    and "share_step\<^sup>*\<^sup>* s2 s3" and "acquire s3 m' k now dur ma = (acq, s4)"
  shows "\<not> in_ranges acq off"
proof
  assume taken: "in_ranges acq off"
  have wf1: "share_wf s1" using steps_invariant [OF assms(2) share_new_wf [OF assms(1)]] by blast
  have "share_wf s2" and "finished s2 off" using acknowledge_finished [OF wf1 assms(3)] assms(4-6) by blast+
  then have wf3: "share_wf s3" and fin: "finished s3 off" using steps_invariant [OF assms(7)] by blast+
  obtain M where "\<forall>off. acquire_cell m' (now + dur) ma (in_ranges acq off) (cells s3 off) (M off)"
    using acquire_settles [OF wf3 assms(8)] by blast
  then obtain n w d where c: "cells s3 off = Some (Available, n, w, d)" using taken unfolding acquire_cell_def by metis
  moreover have "sp_start s3 \<le> off" using lookup_window [OF wf_parts(1) [OF wf3], of off] c by simp
  ultimately show False using fin terminal_states unfolding finished_def by auto
qed

text \<open>
  C16. Exclusive, bounded hand-out: in any well-formed state the ranges an acquire returns are disjoint,
  in ascending order and together at most \<open>max_records\<close> offsets; every offset in them was available,
  hence held by nobody, and under its delivery limit, and is afterwards locked by the member with its
  delivery count raised by one; every offset held by a member stays exactly as it was.
\<close>

theorem acquire_exclusive:
  assumes "share_wf s" and "acquire s m k now dur ma = (acq, s')"
  shows "share_wf s' \<and> sorted_wrt (\<lambda>r r'. ar_last r < ar_first r') acq \<and> sum_list (map range_len acq) \<le> max k 0
    \<and> (\<forall>off. in_ranges acq off \<longrightarrow>
         (\<exists>n w d. cells s off = Some (Available, n, w, d) \<and> n < ma \<and> cells s' off = Some (Acquired, n + 1, Some m, Some (now + dur))))
    \<and> (\<forall>off n w d. cells s off = Some (Acquired, n, w, d) \<longrightarrow> cells s' off = Some (Acquired, n, w, d))"
proof -
  obtain M where S: "settles s M s'"
    and M: "\<forall>off. acquire_cell m (now + dur) ma (in_ranges acq off) (cells s off) (M off)"
    using acquire_settles [OF assms] by blast
  have keep: "cells s' off = Some (Acquired, r)" if "M off = Some (Acquired, r)" "cells s off \<noteq> None" for off r
  proof -
    have "sp_start s \<le> off" using lookup_window [OF wf_parts(1) [OF assms(1)], of off] that(2) by simp
    then have "\<not> off < sp_start s'" using S that(1) terminal_states(4) unfolding settles_def by fastforce
    then show ?thesis using S that(1) unfolding settles_def by simp
  qed
  have taken: "\<exists>n w d. cells s off = Some (Available, n, w, d) \<and> n < ma \<and> cells s' off = Some (Acquired, n + 1, Some m, Some (now + dur))"
    if r: "in_ranges acq off" for off
  proof -
    obtain n w d where "cells s off = Some (Available, n, w, d)" "n < ma" "M off = Some (Acquired, n + 1, Some m, Some (now + dur))"
      using M [rule_format, of off] r unfolding acquire_cell_def by auto
    then show ?thesis using keep by simp
  qed
  have held: "cells s' off = Some (Acquired, n, w, d)" if c: "cells s off = Some (Acquired, n, w, d)" for off n w d
    using M [rule_format, of off] c unfolding acquire_cell_def by (intro keep) (auto split: if_splits)
  show ?thesis using acquire_ranges(1,2) [OF assms] taken held S unfolding settles_def by blast
qed

text \<open>
  C15. Acknowledgement is all or nothing: it fails with \<open>INVALID_RECORD_STATE\<close> exactly when the range is
  empty or some offset of it is not locked by this member, and then nothing has changed; otherwise
  every offset of the range, and no other, moves to the state the acknowledgement asks for, keeps its
  delivery count and loses its lock, and the start offset moves over finished offsets only.
\<close>

theorem acknowledge_exact:
  assumes "share_wf s"
  shows "(case acknowledge s m f l ack of
      Inl e \<Rightarrow> e = INVALID_RECORD_STATE \<and> \<not> (f \<le> l \<and> (\<forall>off. f \<le> off \<and> off \<le> l \<longrightarrow> held m (cells s off)))
    | Inr s' \<Rightarrow> f \<le> l \<and> (\<forall>off. f \<le> off \<and> off \<le> l \<longrightarrow> held m (cells s off)) \<and>
        settles s (\<lambda>off. if f \<le> off \<and> off \<le> l then map_option (freed (ack_state ack)) (cells s off) else cells s off) s')"
  using assms by (rule acknowledge_spec)

text \<open>
  C23. A lost consumer does not lose records: when a lock has run out, one expiry sweep and one acquire
  with a large enough budget hand the record to the asking member, with its delivery count raised,
  as long as the delivery limit is not reached.
\<close>

theorem lock_expiry_redelivers:
  assumes "share_wf s" and "cells s off = Some (Acquired, n, Some m, Some d)" and "d \<le> now" and "n < ma"
    and "sp_end s - sp_start s \<le> k" and "acquire (expire_locks s now) m' k now' dur ma = (acq, s')"
  shows "in_ranges acq off \<and> held m' (cells s' off)"
proof -
  have S: "settles s (\<lambda>off. map_option (\<lambda>c. if fst c = Acquired \<and> (case snd (snd (snd c)) of Some d \<Rightarrow> now \<ge> d | None \<Rightarrow> False)
      then freed Available c else c) (cells s off)) (expire_locks s now)"
    by (rule release_cell_spec(1) [OF assms(1)])
  have start: "sp_start (expire_locks s now) = sp_start s" by (simp add: expire_locks_def release_where_def Let_def)
  have wf: "share_wf (expire_locks s now)" and e: "sp_end (expire_locks s now) = sp_end s" using S by (simp_all add: settles_def)
  have "sp_start s \<le> off" using lookup_window [OF wf_parts(1) [OF assms(1)], of off] assms(2) by simp
  then have "cells (expire_locks s now) off = Some (Available, n, None, None)"
    using S start assms(2,3) unfolding settles_def by (simp add: freed_def)
  then have taken: "in_ranges acq off" using acquire_ranges(3) [OF wf assms(6) _ assms(4)] start e assms(5) by simp
  obtain M where T: "settles (expire_locks s now) M s'"
    and M: "\<forall>off. acquire_cell m' (now' + dur) ma (in_ranges acq off) (cells (expire_locks s now) off) (M off)"
    using acquire_settles [OF wf assms(6)] by blast
  obtain i where c: "M off = Some (Acquired, i, Some m', Some (now' + dur))"
    using M [rule_format, of off] taken unfolding acquire_cell_def by auto
  then have "\<not> off < sp_start s'" using T terminal_states(4) \<open>sp_start s \<le> off\<close> start unfolding settles_def by fastforce
  then show ?thesis using T c taken unfolding settles_def held_def by simp
qed

text \<open>
  C24. Leader change: reloading the persisted state gives a well-formed state with the same window and
  completion count, in which every finished record is still finished, every delivery count is kept and
  every locked record is available again without owner or lock.
\<close>

theorem persist_reload:
  assumes "share_wf s" and "to_persist_batches s = (st, c, bs)" and "s' = load_from st se le c bs"
  shows "share_wf s' \<and> sp_start s' = sp_start s \<and> sp_end s' = sp_end s \<and> sp_complete s' = sp_complete s
    \<and> cells s' off = map_option reload_cell (cells s off)"
  using reload_spec [OF assms] by blast

section \<open>A concrete partition\<close>

definition fresh_window :: acquisition_state where
  "fresh_window = materialize (share_new 0) 5 100"

definition locked_window :: acquisition_state where
  "locked_window = snd (acquire fresh_window ''m'' 3 10 30 5)"

definition accepted_window :: acquisition_state where
  "accepted_window = projr (acknowledge locked_window ''m'' 1 2 Accept)"

lemma fresh_window_wf: "share_wf fresh_window"
  unfolding fresh_window_def by (rule materialize_spec(1) [OF share_new_wf]) (simp_all add: int_width)

lemma locked_window_wf: "share_wf locked_window"
  using acquire_finished(1) [OF fresh_window_wf, of "''m''" 3 10 30 5] unfolding locked_window_def by (metis prod.collapse)

lemma concrete_runs:
  "fst (acquire fresh_window ''m'' 3 10 30 5) = [\<lparr>ar_first = 0, ar_last = 2, ar_delivery_count = 1\<rparr>]"
  "acknowledge locked_window ''m'' 1 2 Accept = Inr accepted_window"
  "fst (acquire accepted_window ''p'' 9 11 30 5) = [\<lparr>ar_first = 3, ar_last = 4, ar_delivery_count = 1\<rparr>]"
  "fst (acquire (expire_locks locked_window 40) ''p'' 9 41 30 5) =
     [\<lparr>ar_first = 0, ar_last = 2, ar_delivery_count = 2\<rparr>, \<lparr>ar_first = 3, ar_last = 4, ar_delivery_count = 1\<rparr>]"
  "cells locked_window 1 = Some (Acquired, 1, Some ''m'', Some 40)" "sp_end locked_window - sp_start locked_window = 5"
  by code_simp+

theorem share_never_redelivered_witness:
  "fst (acquire accepted_window ''p'' 9 11 30 5) = [\<lparr>ar_first = 3, ar_last = 4, ar_delivery_count = 1\<rparr>]
   \<and> \<not> in_ranges (fst (acquire accepted_window ''p'' 9 11 30 5)) 1"
proof -
  have "share_step (share_new 0) fresh_window" unfolding fresh_window_def by (rule produce) (simp add: int_width)
  moreover have "share_step fresh_window locked_window"
    unfolding locked_window_def by (rule fetch) (rule prod.collapse [symmetric])
  ultimately have "share_step\<^sup>*\<^sup>* (share_new 0) locked_window" by auto
  from share_never_redelivered [OF _ this concrete_runs(2) _ _ _ rtranclp.rtrancl_refl, of 1 "''p''" 9 11 30 5]
  have "\<not> in_ranges (fst (acquire accepted_window ''p'' 9 11 30 5)) 1"
    by (metis ack_type.distinct(7) i64_MAX_def le_numeral_extra(3) one_le_numeral order.refl prod.collapse zero_le_numeral)
  then show ?thesis using concrete_runs(3) by blast
qed

theorem acquire_exclusive_witness:
  "fst (acquire fresh_window ''m'' 3 10 30 5) = [\<lparr>ar_first = 0, ar_last = 2, ar_delivery_count = 1\<rparr>]
   \<and> sum_list (map range_len (fst (acquire fresh_window ''m'' 3 10 30 5))) \<le> 3"
  using acquire_exclusive [OF fresh_window_wf prod.collapse [symmetric], of "''m''" 3 10 30 5] concrete_runs(1) by simp

theorem acknowledge_exact_witness:
  "acknowledge locked_window ''m'' 1 2 Accept = Inr accepted_window \<and> held ''m'' (cells locked_window 1)"
  using acknowledge_exact [OF locked_window_wf, where m = "''m''" and f = 1 and l = 2 and ack = Accept] concrete_runs(2) by simp

theorem lock_expiry_redelivers_witness:
  "in_ranges (fst (acquire (expire_locks locked_window 40) ''p'' 9 41 30 5)) 1"
  using lock_expiry_redelivers [OF locked_window_wf concrete_runs(5) _ _ _ prod.collapse [symmetric], of 40 5 9 "''p''" 41 30]
    concrete_runs(6) by simp

theorem persist_reload_witness:
  "cells (load_from 0 1 1 0 (snd (snd (to_persist_batches locked_window)))) 1 = Some (Available, 1, None, None)"
proof -
  have "to_persist_batches locked_window = (0, 0, snd (snd (to_persist_batches locked_window)))" by code_simp
  from persist_reload [OF locked_window_wf this refl, of 1 1 1] concrete_runs(5)
  show ?thesis by (simp add: reload_cell_def)
qed

text \<open>
  The completion counter is an \<open>i32\<close> with unchecked additions in \<open>acquire\<close> and \<open>acknowledge\<close>: after
  \<open>i32::MAX\<close> finished records the next one turns it negative in a release build.
\<close>

lemma completion_count_wraps:
  "map_sum id sp_complete (acknowledge (locked_window\<lparr>sp_complete := 2147483647\<rparr>) ''m'' 0 0 Accept) = Inr (- 2147483648)"
  by code_simp

end
