(* ===== verification/Spec2Isabelle.thy ===== *)
theory Spec2Isabelle
  imports Kraft_Log Snapshot_Fetch Producer_State Share_Partition Verified_Kernels
begin

text \<open>
  Verification of the replicated core of crabka, a Kafka-compatible broker written in Rust.

  \<^bold>\<open>The program.\<close> Controllers agree on a metadata log with KRaft: a state machine without I/O
  (\<open>crates/kraft-core\<close>) elects leaders, tracks how far the voters have fetched and derives the high
  watermark; its decisions are small kernels (\<open>crates/verified\<close>) over a voter set (\<open>crates/voters\<close>).
  The metadata log (\<open>crates/raft/src/kraft/log.rs\<close>) is a partition log (\<open>crates/log\<close>) with a
  high watermark. A partition log is a list of segments, each a file of record batches with sparse
  indexes, next to a leader-epoch checkpoint, transaction indexes and producer snapshots. Batches are
  encoded by \<open>crates/protocol/src/records\<close> with the wire primitives of \<open>crates/protocol\<close> and the codecs of
  \<open>crates/compression\<close>. In the broker, the producer tracker (\<open>producer_state.rs\<close>) decides which
  batches are duplicates and the share-partition state machine (\<open>share_partition/state.rs\<close>) hands out
  records to the members of a share group.

  \<^bold>\<open>The theories.\<close> A record of the model is a struct of the source and carries the same fields; a function
  is a Rust function of the same name, with a prefix where several types have a method of that name.

  \<^item> \<open>Prelude\<close>: machine integers, ordered maps with the locale \<open>ordered_map\<close> interpreted on the
    association lists of the model, shared lemmas on lists, words and options.
  \<^item> \<open>Voters\<close>, \<open>Consensus_Kernels\<close>, \<open>Verified_Kernels\<close>: the voter set and the kernels. The high-watermark
    scan equals sorting; majorities of a voter set and its one-voter extension intersect.
  \<^item> \<open>Kraft_Types\<close>, \<open>Kraft_Core\<close>: roles, events, actions and every handler of
    \<open>QuorumStateMachine\<close>. The log the core reads is an interface, the locale \<open>log_view_laws\<close>, in which
    the truncation hints of a leader are shown to lie inside its log.
  \<^item> \<open>Kraft_Node\<close>, \<open>Kraft_Outcomes\<close>, \<open>Kraft_Election\<close>, \<open>Kraft_Safety\<close>: one replica under arbitrary
    events, and a cluster of replicas over a network that loses, reorders and repeats vote messages.
    Coherence of role and durable state, one leader per epoch, votes durable before they bind, commits
    only with a majority.
  \<^item> \<open>Wire_Primitives\<close>, \<open>Wire_Compound\<close>, \<open>Compression\<close>, \<open>Record_Wire\<close>, \<open>Record_Batch\<close>: encoders and
    decoders. The eager, the lazy and the validating decoder of a batch are separate definitions, as in
    the source. Round trips, agreement of the decoders, bounds on decompressed sizes, the in-place patch of
    offset and epoch.
  \<^item> \<open>Decimal_Text\<close>, \<open>Leader_Epoch\<close>, \<open>Log_Index\<close>, \<open>Producer_Snapshot\<close>: the files beside a log.
  \<^item> \<open>Log_Segment\<close>, \<open>Log_Reads\<close>: a segment with the bytes of its files; recovery of a torn tail, the
    reads against the stored batches, termination of the timestamp scans.
  \<^item> \<open>Partition_Log\<close>, \<open>Log_Contents\<close>, \<open>Log_Transactions\<close>: the operations of \<open>Log\<close>; their refinement
    to a sequence of batches; reads across segments and when they have no hole; the last stable offset against
    the transactions of the appended batches. Rebuilding the transaction state at a truncation or at opening is
    modelled, and its result is not related to the appended batches.
  \<^item> \<open>Kraft_Log\<close>: the metadata log. It interprets \<open>log_view_laws\<close>, so the consensus core runs on the
    log model; committed batches are stable over runs of its operations, and the hint a leader sends is the
    divergence point.
  \<^item> \<open>Snapshot_Fetch\<close>: reassembly of a snapshot fetched in chunks.
  \<^item> \<open>Producer_State\<close>: the tracker of idempotent producers: decisions, expiry, truncation and the
    reconstruction from what the log recorded.
  \<^item> \<open>Share_Partition\<close>: acquisition, acknowledgement, expiry, persistence and reload.

  \<^bold>\<open>Conventions.\<close> Unsigned integers are words where they wrap, signed ones are integers with a width
  predicate and explicit wrapping, saturating or checked operations. A fallible function returns
  \<open>error + value\<close>; an outer \<open>None\<close> is a panic or not returning. Loops are recursive functions over the
  data they consume. Three loops of the source need not end and are partial functions into
  \<open>option\<close>: the two timestamp scans of a segment and the window-doubling read of the metadata log. For
  the predicate scan and for the doubling read it is shown that they return on every segment or log that holds whole
  batches. No definition uses fuel.

  Code outside the repository is an argument: the codec libraries (\<open>codec_lib\<close>), the \<open>crc32c\<close> function
  and the floating-point decompression policy (\<open>batch_lib\<close>). Hypotheses on them state their documented
  behaviour, and the witnesses instantiate them.

  \<^bold>\<open>Defects.\<close> Some theorems give the exact condition under which the code does what it means to, and
  so show where it does not: a voter forgets its vote after a repeated BeginQuorumEpoch, a fetch has a hole when its
  budget ends inside a sealed segment, a read between two index entries can return nothing, and a batch
  near the length limit is written but cannot be read. Lemmas record others: \<open>double_vote_two_leaders\<close>,
  \<open>truncate_overhang\<close>, \<open>prune_same\<close>, \<open>roll_forgets_aborted\<close>, \<open>torn_index_append\<close>,
  \<open>recovery_index_ahead\<close>, \<open>marker_keeps_lso\<close>.

  \<^bold>\<open>Not modelled.\<close> File operations succeed and leave no partial result, apart from the torn tail that
  recovery repairs; \<open>fsync\<close>, locks and asynchronous tasks are absent, and an operation under a lock is one
  step. In \<open>crates/log\<close>: the sidecar of commit stamps, compaction with its swap recovery, and the
  descriptor read across segments. In \<open>crates/kraft-core\<close> only the scenario
  simulator; in \<open>crates/raft\<close> the controller loop, transport and
  publisher, apart from the fan-out of votes. In \<open>crates/protocol\<close> the messages, which the build
  generates, and the \<open>f64\<close> primitives. In \<open>crates/broker\<close> the request handlers, group and transaction
  coordinators, replication and tiering: asynchronous code over sockets, files and the generated
  messages. The other crates (clients, the SQL engine, the observability query engines, the operator,
  connectors, gateways and tools) are separate programs on top of this core.
\<close>

end
